(* ===== verification/Prelude.thy ===== *)
theory Prelude
  imports Main "HOL-Library.Word" "HOL-Library.Char_ord" "HOL-Library.List_Lexorder"
    "HOL-Library.Sublist"
begin

text \<open>
  The shared base of the development.

  It names the Go types the exporter uses and holds the generic facts on words, stable sorting and
  maps that the component theories rely on:
  \<^item> \<open>uint8\<close>, \<open>uint16\<close> and \<open>uint64\<close> are words, so their arithmetic wraps;
  \<^item> \<open>int64\<close> values are \<open>int\<close> and every addition the code performs on them is wrapped by
    \<open>wrap64\<close>;
  \<^item> a \<open>time.Time\<close> is its number of nanoseconds since the Unix epoch, and a
    \<open>time.Duration\<close> is a number of nanoseconds;
  \<^item> \<open>sort.SliceStable\<close> with a key comparison is \<open>sort_key\<close>, which is stable.
  The collection \<open>wal_simps\<close> gathers the rewrite rules of the log and state files.
\<close>

named_theorems wal_simps "rewrite rules of the write-ahead log"

section \<open>Machine integers\<close>

type_synonym uint8 = "8 word"
type_synonym uint16 = "16 word"
type_synonym uint64 = "64 word"

text \<open>The two's complement value an \<open>int64\<close> holds after an operation whose exact result is \<open>x\<close>.\<close>

definition wrap64 :: "int \<Rightarrow> int" where
  "wrap64 x = (x + 2 ^ 63) mod 2 ^ 64 - 2 ^ 63"

lemma wrap64_id: "- (2 ^ 63) \<le> x \<Longrightarrow> x < 2 ^ 63 \<Longrightarrow> wrap64 x = x"
  by (simp add: wrap64_def)

lemma wrap64_range: "- (2 ^ 63) \<le> wrap64 x \<and> wrap64 x < 2 ^ 63"
proof -
  have "0 \<le> (x + 2 ^ 63) mod 2 ^ 64" and "(x + 2 ^ 63) mod 2 ^ 64 < (2 ^ 64 :: int)"
    by (simp_all add: pos_mod_bound)
  then show ?thesis by (simp add: wrap64_def)
qed

text \<open>Go's \<open>int64(u)\<close> on a \<open>uint64\<close> reinterprets the bits.\<close>

definition int64_of_uint64 :: "uint64 \<Rightarrow> int" where
  "int64_of_uint64 u = sint u"

text \<open>The microsecond to millisecond conversions of the engine never reach the sign bit.\<close>

lemma uint_div_1000_less: "uint (u div 1000 :: uint64) < 2 ^ 63"
proof -
  have "uint u < 2 ^ 64"
    using uint_lt2p [of u] by simp
  then have "uint u div 1000 < 2 ^ 63"
    by simp
  then show ?thesis
    by (simp add: uint_div)
qed

lemma int64_of_uint64_small: "uint u < 2 ^ 63 \<Longrightarrow> int64_of_uint64 u = uint u"
  by (simp add: int64_of_uint64_def sint_uint signed_take_bit_eq_take_bit_shift take_bit_int_eq_self)

lemma int64_of_ms [simp]: "int64_of_uint64 (u div 1000) = uint u div 1000"
  using uint_div_1000_less [of u] by (simp add: int64_of_uint64_small uint_div)

lemma unat_Suc_no_wrap: "unat (w :: uint64) + 1 < 2 ^ 64 \<Longrightarrow> unat (w + 1) = Suc (unat w)"
  by (simp add: unat_word_ariths)

text \<open>Go's integer division truncates towards zero.\<close>

definition go_div :: "int \<Rightarrow> int \<Rightarrow> int" where
  "go_div a b = sgn a * sgn b * (\<bar>a\<bar> div \<bar>b\<bar>)"

lemma go_div_pos: "0 \<le> a \<Longrightarrow> 0 < b \<Longrightarrow> go_div a b = a div b"
  by (cases "a = 0") (simp_all add: go_div_def)

section \<open>Time\<close>

type_synonym go_time = int
type_synonym duration = int

definition Millisecond :: duration where "Millisecond = 1000000"
definition Second :: duration where "Second = 1000 * Millisecond"
definition Minute :: duration where "Minute = 60 * Second"
definition Hour :: duration where "Hour = 60 * Minute"

lemmas duration_defs = Millisecond_def Second_def Minute_def Hour_def

text \<open>The zero \<open>time.Time\<close> is midnight UTC on January 1 of year 1.\<close>

definition zero_time :: go_time where
  "zero_time = - 62135596800 * 1000000000"

definition IsZero :: "go_time \<Rightarrow> bool" where
  "IsZero t \<longleftrightarrow> t = zero_time"

text \<open>
  \<open>UnixMilli\<close> drops the sub-millisecond part of the non-negative nanosecond field, so it rounds
  towards minus infinity.
\<close>

definition UnixMilli :: "go_time \<Rightarrow> int" where
  "UnixMilli t = t div 1000000"

lemma UnixMilli_mono: "a \<le> b \<Longrightarrow> UnixMilli a \<le> UnixMilli b"
  by (simp add: UnixMilli_def zdiv_mono1)

text \<open>\<open>t.Sub(u)\<close>: a difference that no \<open>Duration\<close> holds is replaced by the nearest one.\<close>

definition Sub :: "go_time \<Rightarrow> go_time \<Rightarrow> duration" where
  "Sub t u = max (- (2 ^ 63)) (min (2 ^ 63 - 1) (t - u))"

section \<open>Subsequences\<close>

lemma subseq_set_subset: "subseq xs ys \<Longrightarrow> set xs \<subseteq> set ys"
  by (induction rule: list_emb.induct) auto

lemma sorted_wrt_subseq: "subseq xs ys \<Longrightarrow> sorted_wrt P ys \<Longrightarrow> sorted_wrt P xs"
  by (induction rule: list_emb.induct) (auto dest: subseq_set_subset)

lemma sorted_map_subseq: "subseq xs ys \<Longrightarrow> sorted (map f ys) \<Longrightarrow> sorted (map f xs)"
  by (simp add: sorted_map sorted_wrt_subseq)

end
