(* ===== verification/GoStrings.thy ===== *)
theory GoStrings
  imports Prelude
begin

text \<open>
  The functions of Go's \<open>strings\<close> and \<open>bytes\<close> packages that the exporter calls. A Go string and a
  byte slice are both a list of bytes, here a \<open>string\<close> of 8-bit characters.

  \<open>TrimSpace\<close> removes every Unicode white space encoding; because the encodings are matched as whole
  byte sequences at either end, this is what the rune-wise loops of the library compute.
  \<open>ToLower\<close> maps the ASCII letters, which are the only letters of the identifiers, unit names and
  journal messages that the exporter compares; bytes of other scripts are kept as they are.
\<close>

section \<open>White space\<close>

definition ascii_spaces :: string where
  "ascii_spaces = [CHR 0x09, CHR 0x0A, CHR 0x0B, CHR 0x0C, CHR 0x0D, CHR 0x20]"

text \<open>U+0085, U+00A0, U+1680, U+2000 to U+200A, U+2028, U+2029, U+202F, U+205F and U+3000 in UTF-8.\<close>

definition wide_spaces :: "string list" where
  "wide_spaces =
     [[CHR 0xC2, CHR 0x85], [CHR 0xC2, CHR 0xA0], [CHR 0xE1, CHR 0x9A, CHR 0x80],
      [CHR 0xE2, CHR 0x80, CHR 0x80], [CHR 0xE2, CHR 0x80, CHR 0x81], [CHR 0xE2, CHR 0x80, CHR 0x82],
      [CHR 0xE2, CHR 0x80, CHR 0x83], [CHR 0xE2, CHR 0x80, CHR 0x84], [CHR 0xE2, CHR 0x80, CHR 0x85],
      [CHR 0xE2, CHR 0x80, CHR 0x86], [CHR 0xE2, CHR 0x80, CHR 0x87], [CHR 0xE2, CHR 0x80, CHR 0x88],
      [CHR 0xE2, CHR 0x80, CHR 0x89], [CHR 0xE2, CHR 0x80, CHR 0x8A], [CHR 0xE2, CHR 0x80, CHR 0xA8],
      [CHR 0xE2, CHR 0x80, CHR 0xA9], [CHR 0xE2, CHR 0x80, CHR 0xAF], [CHR 0xE2, CHR 0x81, CHR 0x9F],
      [CHR 0xE3, CHR 0x80, CHR 0x80]]"

definition HasPrefix :: "string \<Rightarrow> string \<Rightarrow> bool" where
  "HasPrefix s p \<longleftrightarrow> take (length p) s = p"

text \<open>The length of the white space encoding \<open>s\<close> starts with, among the given ones; 0 if none.\<close>

fun space_len :: "string list \<Rightarrow> string \<Rightarrow> nat" where
  "space_len [] s = 0"
| "space_len (p # ps) s = (if HasPrefix s p then length p else space_len ps s)"

function trim_left :: "string list \<Rightarrow> string \<Rightarrow> string" where
  "trim_left ps [] = []"
| "trim_left ps (c # s) =
     (if c \<in> set ascii_spaces then trim_left ps s
      else if space_len ps (c # s) = 0 then c # s
      else trim_left ps (drop (space_len ps (c # s)) (c # s)))"
  by pat_completeness auto
termination
  by (relation "measure (\<lambda>(ps, s). length s)") auto

definition TrimSpace :: "string \<Rightarrow> string" where
  "TrimSpace s = rev (trim_left (map rev wide_spaces) (rev (trim_left wide_spaces s)))"

lemma trim_left_suffix: "\<exists>w. s = w @ trim_left ps s"
proof (induction ps s rule: trim_left.induct)
  case (2 ps c s)
  let ?n = "space_len ps (c # s)"
  consider (ascii) "c \<in> set ascii_spaces" | (stop) "c \<notin> set ascii_spaces" "?n = 0"
    | (wide) "c \<notin> set ascii_spaces" "?n \<noteq> 0" by blast
  then show ?case
  proof cases
    case ascii
    with "2.IH"(1) obtain w where "s = w @ trim_left ps s" by blast
    with ascii show ?thesis by (intro exI [of _ "c # w"]) simp
  next
    case stop
    then show ?thesis by simp
  next
    case wide
    with "2.IH"(2) obtain w where "drop ?n (c # s) = w @ trim_left ps (drop ?n (c # s))"
      by blast
    with wide show ?thesis
      by (intro exI [of _ "take ?n (c # s) @ w"])
        (metis append.assoc append_take_drop_id trim_left.simps(2))
  qed
qed simp

lemma set_trim_left: "set (trim_left ps s) \<subseteq> set s"
  by (metis trim_left_suffix Un_upper2 set_append)

lemma set_TrimSpace: "set (TrimSpace s) \<subseteq> set s"
  using set_trim_left [of "map rev wide_spaces" "rev (trim_left wide_spaces s)"]
    set_trim_left [of wide_spaces s]
  by (auto simp: TrimSpace_def)

lemma space_len_none: "list_all (\<lambda>p. p \<noteq> [] \<and> hd p \<noteq> c) ps \<Longrightarrow> space_len ps (c # s) = 0"
proof (induction ps)
  case (Cons p ps)
  then show ?case by (cases p) (auto simp: HasPrefix_def)
qed simp

lemma trim_left_stop:
  "c \<notin> set ascii_spaces \<Longrightarrow> list_all (\<lambda>p. p \<noteq> [] \<and> hd p \<noteq> c) ps \<Longrightarrow> trim_left ps (c # s) = c # s"
  by (simp add: space_len_none)

text \<open>Printable ASCII without the blank.\<close>

definition printable :: "char \<Rightarrow> bool" where
  "printable c \<longleftrightarrow> 33 \<le> (of_char c :: nat) \<and> (of_char c :: nat) \<le> 126"

lemma printable_not_space:
  assumes "printable c"
  shows "c \<notin> set ascii_spaces" and "list_all (\<lambda>p. p \<noteq> [] \<and> hd p \<noteq> c) wide_spaces"
    and "list_all (\<lambda>p. p \<noteq> [] \<and> hd p \<noteq> c) (map rev wide_spaces)"
  using assms by (auto simp: printable_def ascii_spaces_def wide_spaces_def)

text \<open>\<open>strings.Fields\<close>: the parts between runs of white space.\<close>

definition at_space :: "string \<Rightarrow> bool" where
  "at_space s \<longleftrightarrow> s \<noteq> [] \<and> (hd s \<in> set ascii_spaces \<or> space_len wide_spaces s \<noteq> 0)"

fun word_len :: "string \<Rightarrow> nat" where
  "word_len [] = 0"
| "word_len (c # s) = (if at_space (c # s) then 0 else Suc (word_len s))"

lemma trim_left_stops: "trim_left wide_spaces s \<noteq> [] \<Longrightarrow> \<not> at_space (trim_left wide_spaces s)"
  by (induction wide_spaces s rule: trim_left.induct) (auto simp: at_space_def split: if_splits)

lemma trim_left_length: "length (trim_left ps s) \<le> length s"
  using trim_left_suffix [of s ps] by (metis length_append le_add2)

function Fields :: "string \<Rightarrow> string list" where
  "Fields s =
     (let t = trim_left wide_spaces s in
      if t = [] then [] else take (word_len t) t # Fields (drop (word_len t) t))"
  by pat_completeness auto
termination
proof (relation "measure length", goal_cases)
  case (2 s t)
  then have "\<not> at_space t" "t \<noteq> []" using trim_left_stops by simp_all
  then have "word_len t > 0" by (cases t) auto
  with \<open>t \<noteq> []\<close> have "length (drop (word_len t) t) < length t" by simp
  also have "\<dots> \<le> length s" using 2 trim_left_length by simp
  finally show ?case by simp
qed simp

declare Fields.simps [simp del]

lemma word_len_printable: "list_all printable w \<Longrightarrow> word_len (w @ r) = length w + word_len r"
  using printable_not_space by (induction w) (simp_all add: at_space_def space_len_none)

lemma Fields_first:
  assumes "list_all printable w" and "w \<noteq> []"
  shows "\<exists>rest. Fields (w @ CHR '' '' # r) = w # rest"
proof -
  obtain c v where c: "w = c # v" "printable c" using assms by (cases w) auto
  have "trim_left wide_spaces (w @ CHR '' '' # r) = w @ CHR '' '' # r"
    using printable_not_space [OF c(2)] by (simp add: c(1) space_len_none)
  moreover have "word_len (w @ CHR '' '' # r) = length w"
    using word_len_printable [OF assms(1)] by (simp add: at_space_def ascii_spaces_def)
  ultimately show ?thesis using assms(2) by (simp add: Fields.simps [of "w @ CHR '' '' # r"])
qed

section \<open>Lines and substrings\<close>

definition nl :: char where "nl = CHR 0x0A"

definition not_nl :: "char \<Rightarrow> bool" where "not_nl c \<longleftrightarrow> c \<noteq> nl"

text \<open>\<open>strings.Contains(s, t)\<close>\<close>

fun Contains :: "string \<Rightarrow> string \<Rightarrow> bool" where
  "Contains [] t \<longleftrightarrow> t = []"
| "Contains (c # s) t \<longleftrightarrow> HasPrefix (c # s) t \<or> Contains s t"

lemma Contains_append: "Contains (a @ t @ b) t"
proof (induction a)
  case Nil
  have "HasPrefix (t @ b) t" by (simp add: HasPrefix_def)
  then show ?case by (cases "t @ b") auto
qed simp

section \<open>Case and replacement\<close>

definition ToLower_char :: "char \<Rightarrow> char" where
  "ToLower_char c =
     (if 65 \<le> (of_char c :: nat) \<and> (of_char c :: nat) \<le> 90
      then char_of ((of_char c :: nat) + 32) else c)"

definition ToLower :: "string \<Rightarrow> string" where
  "ToLower s = map ToLower_char s"

text \<open>\<open>strings.ReplaceAll(s, old, new)\<close> for a one-byte \<open>old\<close>.\<close>

definition ReplaceAll :: "string \<Rightarrow> char \<Rightarrow> string \<Rightarrow> string" where
  "ReplaceAll s old new = concat (map (\<lambda>c. if c = old then new else [c]) s)"

lemma ReplaceAll_remove: "ReplaceAll s c [] = filter (\<lambda>x. x \<noteq> c) s"
  by (induction s) (auto simp: ReplaceAll_def)

lemma set_ToLower: "set (ToLower s) = ToLower_char ` set s"
  by (simp add: ToLower_def)

lemma of_char_ToLower:
  "(of_char (ToLower_char c) :: nat) =
     (if 65 \<le> (of_char c :: nat) \<and> (of_char c :: nat) \<le> 90 then of_char c + 32 else of_char c)"
  by (simp add: ToLower_char_def)

lemma ToLower_char_hyphen: "ToLower_char c = CHR ''-'' \<Longrightarrow> c = CHR ''-''"
proof -
  assume "ToLower_char c = CHR ''-''"
  then have "(of_char (ToLower_char c) :: nat) = 45" by simp
  then have "(of_char c :: nat) = of_char (CHR ''-'')"
    by (simp add: of_char_ToLower split: if_splits)
  then show ?thesis by (simp only: of_char_eq_iff)
qed

lemma ToLower_char_idem [simp]: "ToLower_char (ToLower_char c) = ToLower_char c"
  by (auto simp: ToLower_char_def of_char_ToLower)

lemma ToLower_idem [simp]: "ToLower (ToLower s) = ToLower s"
  by (simp add: ToLower_def)

lemma length_ToLower [simp]: "length (ToLower s) = length s"
  by (simp add: ToLower_def)

section \<open>Decimal numbers\<close>

definition digit_char :: "nat \<Rightarrow> char" where
  "digit_char d = char_of (48 + d)"

definition is_digit :: "char \<Rightarrow> bool" where
  "is_digit c \<longleftrightarrow> 48 \<le> (of_char c :: nat) \<and> (of_char c :: nat) \<le> 57"

definition digit_val :: "char \<Rightarrow> nat" where
  "digit_val c = of_char c - 48"

fun show_nat :: "nat \<Rightarrow> string" where
  "show_nat n = (if n < 10 then [digit_char n] else show_nat (n div 10) @ [digit_char (n mod 10)])"

declare show_nat.simps [simp del]

text \<open>\<open>strconv.FormatInt(i, 10)\<close>\<close>

definition show_int :: "int \<Rightarrow> string" where
  "show_int i = (if i < 0 then CHR ''-'' # show_nat (nat (- i)) else show_nat (nat i))"

definition digits_val :: "string \<Rightarrow> nat" where
  "digits_val s = foldl (\<lambda>a c. 10 * a + digit_val c) 0 s"

definition parse_nat :: "string \<Rightarrow> nat option" where
  "parse_nat s = (if s \<noteq> [] \<and> list_all is_digit s then Some (digits_val s) else None)"

text \<open>\<open>strconv.ParseUint(s, 10, 64)\<close> and \<open>strconv.ParseInt(s, 10, 64)\<close>; \<open>None\<close> is an error.\<close>

definition ParseUint64 :: "string \<Rightarrow> nat option" where
  "ParseUint64 s = (case parse_nat s of None \<Rightarrow> None | Some n \<Rightarrow> if n < 2 ^ 64 then Some n else None)"

definition ParseInt64 :: "string \<Rightarrow> int option" where
  "ParseInt64 s =
     (let (neg, ds) = (case s of c # r \<Rightarrow> if c = CHR ''-'' then (True, r)
                                       else if c = CHR ''+'' then (False, r) else (False, s)
                       | [] \<Rightarrow> (False, s))
      in case parse_nat ds of None \<Rightarrow> None
         | Some n \<Rightarrow> if neg then (if n \<le> 2 ^ 63 then Some (- int n) else None)
                    else (if n < 2 ^ 63 then Some (int n) else None))"

lemma digit_char_facts [simp]:
  "d < 10 \<Longrightarrow> is_digit (digit_char d)" "d < 10 \<Longrightarrow> digit_val (digit_char d) = d"
  by (simp_all add: is_digit_def digit_char_def digit_val_def)

lemma is_digit_not [simp]:
  "\<not> is_digit CHR ''-''" "\<not> is_digit CHR ''+''" "\<not> is_digit CHR '',''" "\<not> is_digit CHR 0x7D"
  "\<not> is_digit CHR ''.''" "\<not> is_digit CHR ''e''" "\<not> is_digit CHR ''E''"
  by (simp_all add: is_digit_def)

lemma show_nat_digits: "list_all is_digit (show_nat n)"
proof (induction n rule: show_nat.induct)
  case (1 n)
  then show ?case by (subst show_nat.simps) simp
qed

lemma show_nat_nonempty [simp]: "show_nat n \<noteq> []"
  by (subst show_nat.simps) simp

lemma digits_val_append1: "digits_val (s @ [c]) = 10 * digits_val s + digit_val c"
  by (simp add: digits_val_def)

lemma digits_val_Cons: "digits_val (c # s) = digit_val c * 10 ^ length s + digits_val s"
proof (induction s rule: rev_induct)
  case (snoc d s)
  then show ?case using digits_val_append1 [of "c # s" d] digits_val_append1 [of s d] by simp
qed (simp add: digits_val_def)

lemma digits_val_show: "digits_val (show_nat n) = n"
proof (induction n rule: show_nat.induct)
  case (1 n)
  show ?case
  proof (cases "n < 10")
    case True
    then show ?thesis by (subst show_nat.simps) (simp add: digits_val_def)
  next
    case False
    then show ?thesis using "1.IH" by (subst show_nat.simps) (simp add: digits_val_append1)
  qed
qed

lemma parse_show_nat [simp]: "parse_nat (show_nat n) = Some n"
  by (simp add: parse_nat_def show_nat_digits digits_val_show)

lemma ParseUint64_show: "n < 2 ^ 64 \<Longrightarrow> ParseUint64 (show_nat n) = Some n"
  by (simp add: ParseUint64_def)

lemma hd_show_nat: "is_digit (hd (show_nat n))"
  using show_nat_digits [of n] by (cases "show_nat n") simp_all

lemma ParseInt64_show:
  assumes "- (2 ^ 63) \<le> i" and "i < 2 ^ 63"
  shows "ParseInt64 (show_int i) = Some i"
proof -
  obtain c r where cr: "show_nat (nat i) = c # r" by (cases "show_nat (nat i)") auto
  then have "c \<noteq> CHR ''-''" and "c \<noteq> CHR ''+''"
    using hd_show_nat [of "nat i"] by auto
  moreover have "parse_nat (c # r) = Some (nat i)" using cr by (metis parse_show_nat)
  ultimately show ?thesis
    using assms by (auto simp: ParseInt64_def show_int_def cr)
qed

text \<open>A decimal numeral does not begin with a zero unless it is zero.\<close>

lemma show_nat_leading: "n \<noteq> 0 \<Longrightarrow> hd (show_nat n) \<noteq> CHR ''0''"
proof (induction n rule: show_nat.induct)
  case (1 n)
  show ?case
  proof (cases "n < 10")
    case True
    have "digit_val CHR ''0'' = 0" by (simp add: digit_val_def)
    then have "digit_char n \<noteq> CHR ''0''"
      using True "1.prems" digit_char_facts(2) [of n] by metis
    with True show ?thesis by (subst show_nat.simps) simp
  next
    case False
    then show ?thesis using "1.IH" by (subst show_nat.simps) simp
  qed
qed

text \<open>A string that begins and ends with printable ASCII is trimmed already.\<close>

lemma TrimSpace_printable:
  assumes "s \<noteq> []" and "printable (hd s)" and "printable (last s)"
  shows "TrimSpace s = s"
proof -
  obtain c t where c: "s = c # t" using assms(1) by (cases s) auto
  obtain d u where d: "s = u @ [d]" using assms(1) by (cases s rule: rev_cases) auto
  have "trim_left wide_spaces s = s"
    unfolding c using assms(2) by (intro trim_left_stop printable_not_space) (simp_all add: c)
  moreover have "trim_left (map rev wide_spaces) (rev s) = rev s"
    unfolding d rev_append rev.simps append_Nil append_Cons
    using assms(3) by (intro trim_left_stop printable_not_space) (simp_all add: d)
  ultimately show ?thesis by (simp add: TrimSpace_def)
qed

lemma digit_printable: "is_digit c \<Longrightarrow> printable c"
  by (auto simp: is_digit_def printable_def)

end
