(* ===== verification/Model.thy ===== *)
theory Model
  imports Prelude GoStrings
begin

text \<open>
  \<open>internal/model/model.go\<close>: availability states, event sources, unit snapshots, transition events,
  state samples and the per-service state of the engine.

  \<open>AvailabilityState\<close> and \<open>EventSource\<close> are \<open>uint8\<close> in the code and any byte can be decoded
  from a file into them, so they are \<open>8 word\<close> here with the named constants of the source.
\<close>

section \<open>Boot identifiers\<close>

definition CanonicalBootID :: "string \<Rightarrow> string" where
  "CanonicalBootID i = ToLower (ReplaceAll (TrimSpace i) CHR ''-'' [])"

section \<open>Availability and event sources\<close>

type_synonym availability = uint8
type_synonym event_source = uint8

definition StateUnknown :: availability where "StateUnknown = 0"
definition StateUp :: availability where "StateUp = 1"
definition StateDown :: availability where "StateDown = 2"

lemmas state_defs = StateUnknown_def StateUp_def StateDown_def

lemma state_distinct [simp]:
  "StateUp \<noteq> StateDown" "StateDown \<noteq> StateUp"
  "StateUp \<noteq> StateUnknown" "StateUnknown \<noteq> StateUp"
  "StateDown \<noteq> StateUnknown" "StateUnknown \<noteq> StateDown"
  by (simp_all add: state_defs)

definition AvailabilityState_String :: "availability \<Rightarrow> string" where
  "AvailabilityState_String s =
     (if s = StateUp then ''up'' else if s = StateDown then ''down'' else ''unknown'')"

definition AvailabilityFromActiveState :: "string \<Rightarrow> availability" where
  "AvailabilityFromActiveState active =
     (if TrimSpace active = ''active'' then StateUp else StateDown)"

definition SourceSystemd :: event_source where "SourceSystemd = 0"
definition SourceHostReboot :: event_source where "SourceHostReboot = 1"
definition SourceRecovery :: event_source where "SourceRecovery = 2"
definition SourceSIP :: event_source where "SourceSIP = 3"
definition SourceDNS :: event_source where "SourceDNS = 4"
definition SourceAGW :: event_source where "SourceAGW = 5"

lemmas source_defs = SourceSystemd_def SourceHostReboot_def SourceRecovery_def
  SourceSIP_def SourceDNS_def SourceAGW_def

definition EventSource_String :: "event_source \<Rightarrow> string" where
  "EventSource_String s =
     (if s = SourceSystemd then ''systemd''
      else if s = SourceHostReboot then ''host_reboot''
      else if s = SourceRecovery then ''recovery''
      else if s = SourceSIP then ''sip''
      else if s = SourceDNS then ''dns''
      else if s = SourceAGW then ''agw''
      else ''unknown'')"

section \<open>Records\<close>

record unit_snapshot =
  us_Service :: string
  us_ActiveState :: string
  us_SubState :: string
  us_ActiveEnterTimestampUS :: uint64
  us_ActiveExitTimestampUS :: uint64
  us_ActiveEnterTimestampMonotonicUS :: uint64
  us_ActiveExitTimestampMonotonicUS :: uint64
  us_BootID :: string
  us_ObservedAt :: go_time

record event =
  ev_Sequence :: uint64
  ev_Service :: string
  ev_State :: availability
  ev_EventTimeUnixMS :: int
  ev_EventTimeMonotonicUS :: uint64
  ev_BootID :: string
  ev_Source :: event_source
  ev_SystemdActiveState :: string
  ev_SystemdSubState :: string

record state_sample =
  ss_Service :: string
  ss_State :: availability
  ss_TimestampUnixMS :: int

record service_state =
  st_Service :: string
  st_Availability :: availability
  st_ActiveState :: string
  st_SubState :: string
  st_BootID :: string
  st_LastActiveEnterTimestampUS :: uint64
  st_LastActiveExitTimestampUS :: uint64
  st_LastActiveEnterMonotonicUS :: uint64
  st_LastActiveExitMonotonicUS :: uint64
  st_LastEventTimeUnixMS :: int
  st_LastEventMonoUS :: uint64
  st_LastSequence :: uint64
  st_AwaitingSIP :: bool

text \<open>The zero value of \<open>model.ServiceState\<close>, which a map read of a missing key yields.\<close>

definition zero_service_state :: service_state where
  "zero_service_state = \<lparr>st_Service = [], st_Availability = StateUnknown, st_ActiveState = [],
     st_SubState = [], st_BootID = [], st_LastActiveEnterTimestampUS = 0,
     st_LastActiveExitTimestampUS = 0, st_LastActiveEnterMonotonicUS = 0,
     st_LastActiveExitMonotonicUS = 0, st_LastEventTimeUnixMS = 0, st_LastEventMonoUS = 0,
     st_LastSequence = 0, st_AwaitingSIP = False\<rparr>"

section \<open>Properties of boot identifiers\<close>

lemma CanonicalBootID_no_hyphen: "CHR ''-'' \<notin> set (CanonicalBootID i)"
  by (auto simp: CanonicalBootID_def ReplaceAll_remove set_ToLower dest: ToLower_char_hyphen [OF sym])

end
