(* ===== verification/Engine.thy ===== *)
theory Engine
  imports Model
begin

text \<open>
  \<open>internal/engine/engine.go\<close>: the transition engine.

  The engine keeps one \<open>service_state\<close> per unit, the sequence counter and the set of units whose UP
  transition is held back for a probe. Every method runs under the engine's mutex, so one call is
  one atomic step; a method is a function from the engine to the engine and its results. The order
  in which Go ranges over the state map is unspecified, so \<open>ApplyReboot\<close> takes it as an argument.
\<close>

section \<open>State\<close>

record engine =
  eng_states :: "string \<rightharpoonup> service_state"
  eng_seq :: uint64
  eng_delayUp :: "string set"

definition Engine_New :: engine where
  "Engine_New = \<lparr>eng_states = Map.empty, eng_seq = 0, eng_delayUp = {}\<rparr>"

definition DelayUpUntilReady :: "engine \<Rightarrow> string list \<Rightarrow> engine" where
  "DelayUpUntilReady e services = e\<lparr>eng_delayUp := set services\<rparr>"

definition Engine_State :: "engine \<Rightarrow> string \<Rightarrow> service_state option" where
  "Engine_State e service = eng_states e service"

text \<open>A read of the Go map: the zero value stands for a missing key.\<close>

definition state_or_zero :: "engine \<Rightarrow> string \<Rightarrow> service_state" where
  "state_or_zero e service =
     (case eng_states e service of None \<Rightarrow> zero_service_state | Some s \<Rightarrow> s)"

definition RestoreState :: "engine \<Rightarrow> service_state \<Rightarrow> engine" where
  "RestoreState e state =
     (if st_Service state = [] then e
      else let e1 = e\<lparr>eng_states := (eng_states e)(st_Service state \<mapsto> state)\<rparr>
           in if st_LastSequence state > eng_seq e1
              then e1\<lparr>eng_seq := st_LastSequence state\<rparr> else e1)"

definition Replay :: "engine \<Rightarrow> event \<Rightarrow> engine" where
  "Replay e event =
     (let e1 = (if ev_Sequence event > eng_seq e then e\<lparr>eng_seq := ev_Sequence event\<rparr> else e);
          state0 = state_or_zero e1 (ev_Service event);
          state = (if st_Service state0 = [] then state0\<lparr>st_Service := ev_Service event\<rparr> else state0)
      in if ev_EventTimeUnixMS event < st_LastEventTimeUnixMS state then e1
         else e1\<lparr>eng_states := (eng_states e1)(ev_Service event \<mapsto>
           state\<lparr>st_Availability := ev_State event, st_AwaitingSIP := False,
                 st_BootID := ev_BootID event,
                 st_LastEventTimeUnixMS := ev_EventTimeUnixMS event,
                 st_LastEventMonoUS := ev_EventTimeMonotonicUS event,
                 st_LastSequence := ev_Sequence event\<rparr>)\<rparr>)"

section \<open>Applying a snapshot\<close>

definition engine_availability :: "string \<Rightarrow> availability" where
  "engine_availability activeState = (if activeState = ''active'' then StateUp else StateDown)"

record candidate =
  cand_state :: availability
  cand_unixUS :: uint64
  cand_monoUS :: uint64

text \<open>The millisecond timestamp \<open>int64(us / 1000)\<close> of a microsecond one.\<close>

definition ms_of_us :: "uint64 \<Rightarrow> int" where
  "ms_of_us us = int64_of_uint64 (us div 1000)"

definition snapshot_candidates :: "service_state \<Rightarrow> unit_snapshot \<Rightarrow> candidate list" where
  "snapshot_candidates old s =
     sort_key cand_unixUS
       ((if us_ActiveExitTimestampUS s > st_LastActiveExitTimestampUS old
            \<and> ms_of_us (us_ActiveExitTimestampUS s) > st_LastEventTimeUnixMS old
         then [\<lparr>cand_state = StateDown, cand_unixUS = us_ActiveExitTimestampUS s,
                cand_monoUS = us_ActiveExitTimestampMonotonicUS s\<rparr>] else []) @
        (if us_ActiveEnterTimestampUS s > st_LastActiveEnterTimestampUS old
            \<and> ms_of_us (us_ActiveEnterTimestampUS s) > st_LastEventTimeUnixMS old
         then [\<lparr>cand_state = StateUp, cand_unixUS = us_ActiveEnterTimestampUS s,
                cand_monoUS = us_ActiveEnterTimestampMonotonicUS s\<rparr>] else []))"

definition systemd_event :: "unit_snapshot \<Rightarrow> uint64 \<Rightarrow> candidate \<Rightarrow> event" where
  "systemd_event s seq c =
     \<lparr>ev_Sequence = seq, ev_Service = us_Service s, ev_State = cand_state c,
      ev_EventTimeUnixMS = ms_of_us (cand_unixUS c), ev_EventTimeMonotonicUS = cand_monoUS c,
      ev_BootID = us_BootID s, ev_Source = SourceSystemd,
      ev_SystemdActiveState = us_ActiveState s, ev_SystemdSubState = us_SubState s\<rparr>"

text \<open>
  The loop over the candidates. Its state is the engine's sequence counter, \<open>current\<close>, \<open>pending\<close>
  and the events emitted so far.
\<close>

fun candidate_loop ::
  "unit_snapshot \<Rightarrow> bool \<Rightarrow> candidate list \<Rightarrow> uint64 \<Rightarrow> availability \<Rightarrow> bool \<Rightarrow> event list
     \<Rightarrow> uint64 \<times> bool \<times> event list" where
  "candidate_loop s delayUp [] seq current pending events = (seq, pending, events)"
| "candidate_loop s delayUp (c # cs) seq current pending events =
     (if cand_state c = StateUp \<and> delayUp
      then candidate_loop s delayUp cs seq current True events
      else if cand_state c = StateDown \<and> pending \<and> current = StateDown
      then candidate_loop s delayUp cs seq current False events
      else candidate_loop s delayUp cs (seq + 1) (cand_state c)
             (if cand_state c = StateDown then False else pending)
             (events @ [systemd_event s (seq + 1) c]))"

definition observed_state :: "unit_snapshot \<Rightarrow> service_state \<Rightarrow> bool \<Rightarrow> service_state" where
  "observed_state s old pending =
     \<lparr>st_Service = us_Service s, st_Availability = engine_availability (us_ActiveState s),
      st_ActiveState = us_ActiveState s, st_SubState = us_SubState s, st_BootID = us_BootID s,
      st_LastActiveEnterTimestampUS = us_ActiveEnterTimestampUS s,
      st_LastActiveExitTimestampUS = us_ActiveExitTimestampUS s,
      st_LastActiveEnterMonotonicUS = us_ActiveEnterTimestampMonotonicUS s,
      st_LastActiveExitMonotonicUS = us_ActiveExitTimestampMonotonicUS s,
      st_LastEventTimeUnixMS = st_LastEventTimeUnixMS old,
      st_LastEventMonoUS = st_LastEventMonoUS old,
      st_LastSequence = st_LastSequence old, st_AwaitingSIP = pending\<rparr>"

definition note_last_event :: "event list \<Rightarrow> service_state \<Rightarrow> service_state" where
  "note_last_event events st =
     (if events = [] then st
      else st\<lparr>st_LastEventTimeUnixMS := ev_EventTimeUnixMS (last events),
              st_LastEventMonoUS := ev_EventTimeMonotonicUS (last events),
              st_LastSequence := ev_Sequence (last events)\<rparr>)"

definition Apply :: "engine \<Rightarrow> unit_snapshot \<Rightarrow> engine \<times> event list" where
  "Apply e s =
     (let old = state_or_zero e (us_Service s) in
      if eng_states e (us_Service s) = None \<or> st_BootID old \<noteq> us_BootID s
      then (e\<lparr>eng_states := (eng_states e)(us_Service s \<mapsto> observed_state s old False)\<rparr>, [])
      else
        let (seq, pending, events) =
              candidate_loop s (us_Service s \<in> eng_delayUp e) (snapshot_candidates old s)
                (eng_seq e) (st_Availability old) (st_AwaitingSIP old) [];
            updated = observed_state s old pending;
            updated1 = (if pending then updated\<lparr>st_Availability := StateDown\<rparr> else updated)
        in (e\<lparr>eng_seq := seq,
              eng_states := (eng_states e)(us_Service s \<mapsto> note_last_event events updated1)\<rparr>,
            events))"

section \<open>Probe answers, journal recovery and reboots\<close>

definition ConfirmReady ::
  "engine \<Rightarrow> string \<Rightarrow> go_time \<Rightarrow> event_source \<Rightarrow> engine \<times> event option" where
  "ConfirmReady e service at source =
     (case eng_states e service of
        None \<Rightarrow> (e, None)
      | Some state \<Rightarrow>
          if \<not> st_AwaitingSIP state then (e, None)
          else
            let ts = (if UnixMilli at \<le> st_LastEventTimeUnixMS state
                      then wrap64 (st_LastEventTimeUnixMS state + 1) else UnixMilli at);
                seq = eng_seq e + 1;
                event = \<lparr>ev_Sequence = seq, ev_Service = service, ev_State = StateUp,
                         ev_EventTimeUnixMS = ts, ev_EventTimeMonotonicUS = 0,
                         ev_BootID = st_BootID state, ev_Source = source,
                         ev_SystemdActiveState = st_ActiveState state,
                         ev_SystemdSubState = st_SubState state\<rparr>
            in (e\<lparr>eng_seq := seq,
                  eng_states := (eng_states e)(service \<mapsto>
                    state\<lparr>st_AwaitingSIP := False, st_Availability := StateUp,
                          st_LastEventTimeUnixMS := ts, st_LastSequence := seq\<rparr>)\<rparr>,
                Some event))"

definition ApplyRecovery :: "engine \<Rightarrow> event \<Rightarrow> engine \<times> event list" where
  "ApplyRecovery e event =
     (let state = state_or_zero e (ev_Service event) in
      if st_Service state \<noteq> [] \<and> ev_EventTimeUnixMS event \<le> st_LastEventTimeUnixMS state
      then (e, [])
      else
        let seq = eng_seq e + 1;
            event1 = event\<lparr>ev_Sequence := seq\<rparr>
        in (e\<lparr>eng_seq := seq,
              eng_states := (eng_states e)(ev_Service event \<mapsto>
                state\<lparr>st_Service := ev_Service event, st_Availability := ev_State event,
                      st_AwaitingSIP := False, st_BootID := ev_BootID event,
                      st_LastEventTimeUnixMS := ev_EventTimeUnixMS event,
                      st_LastSequence := seq\<rparr>)\<rparr>,
            [event1]))"

definition AdoptBootID :: "engine \<Rightarrow> string \<Rightarrow> engine" where
  "AdoptBootID e bootID =
     e\<lparr>eng_states := (\<lambda>service. map_option (\<lambda>st. st\<lparr>st_BootID := bootID\<rparr>) (eng_states e service))\<rparr>"

text \<open>One iteration of the loop of \<open>ApplyReboot\<close>, for the key \<open>service\<close> of the map.\<close>

definition reboot_one ::
  "string \<Rightarrow> go_time \<Rightarrow> string \<Rightarrow> engine \<times> event list \<Rightarrow> engine \<times> event list" where
  "reboot_one bootID eventTime service acc =
     (let (e, events) = acc in
      case eng_states e service of
        None \<Rightarrow> (e, events)
      | Some state \<Rightarrow>
          if st_Availability state \<noteq> StateUp
          then (e\<lparr>eng_states := (eng_states e)(service \<mapsto> state\<lparr>st_BootID := bootID\<rparr>)\<rparr>, events)
          else
            let seq = eng_seq e + 1;
                event = \<lparr>ev_Sequence = seq, ev_Service = service, ev_State = StateDown,
                         ev_EventTimeUnixMS = UnixMilli eventTime, ev_EventTimeMonotonicUS = 0,
                         ev_BootID = bootID, ev_Source = SourceHostReboot,
                         ev_SystemdActiveState = ''inactive'', ev_SystemdSubState = ''dead''\<rparr>
            in (e\<lparr>eng_seq := seq,
                  eng_states := (eng_states e)(service \<mapsto>
                    state\<lparr>st_Availability := StateDown, st_BootID := bootID,
                          st_LastEventTimeUnixMS := UnixMilli eventTime,
                          st_LastSequence := seq\<rparr>)\<rparr>,
                events @ [event]))"

text \<open>\<open>order\<close> lists the keys of the state map in the order the runtime visits them.\<close>

definition ApplyReboot ::
  "engine \<Rightarrow> string list \<Rightarrow> string \<Rightarrow> go_time \<Rightarrow> engine \<times> event list" where
  "ApplyReboot e order bootID eventTime = fold (reboot_one bootID eventTime) order (e, [])"

definition Engine_Sequence :: "engine \<Rightarrow> uint64" where
  "Engine_Sequence e = eng_seq e"

section \<open>The engine as a machine\<close>

text \<open>One call of each method that changes the engine, and the step it makes.\<close>

datatype engine_op =
    OpDelay "string list"
  | OpRestore service_state
  | OpReplay event
  | OpApply unit_snapshot
  | OpConfirm string go_time event_source
  | OpRecovery event
  | OpAdopt string
  | OpReboot "string list" string go_time

fun engine_step :: "engine \<Rightarrow> engine_op \<Rightarrow> engine \<times> event list" where
  "engine_step e (OpDelay services) = (DelayUpUntilReady e services, [])"
| "engine_step e (OpRestore st) = (RestoreState e st, [])"
| "engine_step e (OpReplay ev) = (Replay e ev, [])"
| "engine_step e (OpApply s) = Apply e s"
| "engine_step e (OpConfirm service at source) =
     (case ConfirmReady e service at source of (e1, r) \<Rightarrow>
        (e1, case r of None \<Rightarrow> [] | Some ev \<Rightarrow> [ev]))"
| "engine_step e (OpRecovery ev) = ApplyRecovery e ev"
| "engine_step e (OpAdopt bootID) = (AdoptBootID e bootID, [])"
| "engine_step e (OpReboot order bootID t) = ApplyReboot e order bootID t"

text \<open>A sequence of calls, and everything they emit.\<close>

fun run_ops :: "('s \<Rightarrow> 'o \<Rightarrow> 's \<times> event list) \<Rightarrow> 's \<Rightarrow> 'o list \<Rightarrow> 's \<times> event list" where
  "run_ops step s [] = (s, [])"
| "run_ops step s (x # xs) =
     (let (s1, e1) = step s x; (s2, e2) = run_ops step s1 xs in (s2, e1 @ e2))"

text \<open>After start-up the engine only sees the calls that are not restores or replays.\<close>

fun live_op :: "engine_op \<Rightarrow> bool" where
  "live_op (OpRestore st) = False"
| "live_op (OpReplay ev) = False"
| "live_op _ = True"

section \<open>Consecutive sequence numbers\<close>

fun numbered_from :: "uint64 \<Rightarrow> event list \<Rightarrow> bool" where
  "numbered_from n [] = True"
| "numbered_from n (ev # evs) = (ev_Sequence ev = n + 1 \<and> numbered_from (n + 1) evs)"

lemma numbered_from_append [simp]:
  "numbered_from n (xs @ ys) \<longleftrightarrow> numbered_from n xs \<and> numbered_from (n + of_nat (length xs)) ys"
  by (induction xs arbitrary: n) (auto simp: algebra_simps)

lemma numbered_from_unat:
  "numbered_from n evs \<Longrightarrow> unat n + length evs < 2 ^ 64 \<Longrightarrow>
   map (\<lambda>ev. unat (ev_Sequence ev)) evs = [Suc (unat n) ..< Suc (unat n + length evs)]"
proof (induction evs arbitrary: n)
  case (Cons ev evs)
  then have n1: "unat (n + 1) = Suc (unat n)"
    by (intro unat_Suc_no_wrap) simp
  with Cons.prems have "map (\<lambda>ev. unat (ev_Sequence ev)) evs
      = [Suc (unat (n + 1)) ..< Suc (unat (n + 1) + length evs)]"
    by (intro Cons.IH) simp_all
  with Cons.prems n1 show ?case
    by (simp add: upt_conv_Cons del: upt_Suc)
qed simp

text \<open>
  The contract of a source of numbered events: every live step numbers what it emits from the
  source's counter onwards and advances the counter by what it emitted.
\<close>

locale numbered_source =
  fixes counter :: "'s \<Rightarrow> uint64"
    and step :: "'s \<Rightarrow> 'o \<Rightarrow> 's \<times> event list"
    and live :: "'o \<Rightarrow> bool"
  assumes step_numbered:
      "live x \<Longrightarrow> step s x = (s', evs) \<Longrightarrow> numbered_from (counter s) evs"
    and step_counter:
      "live x \<Longrightarrow> step s x = (s', evs) \<Longrightarrow> counter s' = counter s + of_nat (length evs)"
begin

lemma run_numbered:
  "list_all live xs \<Longrightarrow> run_ops step s xs = (s', evs) \<Longrightarrow>
     numbered_from (counter s) evs \<and> counter s' = counter s + of_nat (length evs)"
proof (induction xs arbitrary: s s' evs)
  case (Cons x xs)
  obtain s1 e1 where s1: "step s x = (s1, e1)" by (cases "step s x")
  obtain e2 where r: "run_ops step s1 xs = (s', e2)" and evs: "evs = e1 @ e2"
    using Cons.prems(2) s1 by (auto split: prod.splits)
  from Cons.prems(1) have "live x" and l: "list_all live xs" by simp_all
  with s1 have "numbered_from (counter s) e1" and "counter s1 = counter s + of_nat (length e1)"
    by (blast intro: step_numbered step_counter)+
  moreover have "numbered_from (counter s1) e2 \<and> counter s' = counter s1 + of_nat (length e2)"
    using l r by (rule Cons.IH)
  ultimately show ?case by (simp add: evs algebra_simps)
qed simp

lemma run_sequences:
  assumes "list_all live xs" and "run_ops step s xs = (s', evs)"
    and "unat (counter s) + length evs < 2 ^ 64"
  shows "map (\<lambda>ev. unat (ev_Sequence ev)) evs
           = [Suc (unat (counter s)) ..< Suc (unat (counter s) + length evs)]"
  using run_numbered [OF assms(1,2)] assms(3) by (blast intro: numbered_from_unat)

end

text \<open>The candidate loop appends to its accumulator and numbers what it appends.\<close>

lemma candidate_loop_acc:
  "candidate_loop s d cs seq cur p acc =
     (case candidate_loop s d cs seq cur p [] of (q, b, evs) \<Rightarrow> (q, b, acc @ evs))"
proof (induction cs arbitrary: d seq cur p acc)
  case (Cons c cs)
  show ?case
    by (simp add: Cons.IH [of _ _ _ _ "acc @ _"] Cons.IH [of _ _ _ _ "[_]"] Cons.IH [of _ _ _ _ acc]
        split: prod.splits)
qed simp

lemma candidate_loop_numbered:
  "candidate_loop s d cs seq cur p [] = (seq', p', evs) \<Longrightarrow>
     numbered_from seq evs \<and> seq' = seq + of_nat (length evs)"
proof (induction cs arbitrary: d seq cur p seq' p' evs)
  case (Cons c cs)
  show ?case
    using Cons.prems
    by (auto simp: candidate_loop_acc [of _ _ _ _ _ _ "[_]"] systemd_event_def
        split: if_splits prod.splits dest!: Cons.IH)
qed simp

lemma reboot_one_numbered:
  assumes "reboot_one b t k (e, evs) = (e', evs')"
    and "numbered_from n evs" and "eng_seq e = n + of_nat (length evs)"
  shows "numbered_from n evs' \<and> eng_seq e' = n + of_nat (length evs')"
  using assms by (auto simp: reboot_one_def Let_def split: option.splits if_splits)

lemma fold_reboot_numbered:
  assumes "fold (reboot_one b t) ks (e, evs) = (e', evs')"
    and "numbered_from n evs" and "eng_seq e = n + of_nat (length evs)"
  shows "numbered_from n evs' \<and> eng_seq e' = n + of_nat (length evs')"
  using assms
proof (induction ks arbitrary: e evs)
  case (Cons k ks)
  obtain e1 evs1 where "reboot_one b t k (e, evs) = (e1, evs1)"
    by (cases "reboot_one b t k (e, evs)")
  with Cons show ?case
    using reboot_one_numbered [of b t k e evs e1 evs1 n] by simp
qed simp

lemma engine_step_numbered:
  assumes "live_op x" and "engine_step e x = (e', evs)"
  shows "numbered_from (eng_seq e) evs \<and> eng_seq e' = eng_seq e + of_nat (length evs)"
proof (cases x)
  case (OpApply s)
  with assms(2) show ?thesis
    by (auto simp: Apply_def Let_def split: if_splits prod.splits dest: candidate_loop_numbered)
next
  case (OpConfirm service at source)
  with assms(2) show ?thesis
    by (auto simp: ConfirmReady_def Let_def split: if_splits option.splits)
next
  case (OpRecovery ev)
  with assms(2) show ?thesis
    by (auto simp: ApplyRecovery_def Let_def split: if_splits)
next
  case (OpReboot order b t)
  with assms(2) show ?thesis
    using fold_reboot_numbered [of b t order e "[]" e' evs "eng_seq e"]
    by (simp add: ApplyReboot_def)
qed (use assms in \<open>auto simp: DelayUpUntilReady_def AdoptBootID_def\<close>)

interpretation eng_src: numbered_source eng_seq engine_step live_op
  by unfold_locales (use engine_step_numbered in blast)+

section \<open>What a snapshot emits\<close>

lemma ms_of_us_eq [simp]: "ms_of_us us = uint us div 1000"
  by (simp add: ms_of_us_def)

lemma state_or_zero_Some [simp]: "eng_states e k = Some st \<Longrightarrow> state_or_zero e k = st"
  by (simp add: state_or_zero_def)

lemma candidate_loop_subseq:
  "candidate_loop s d cs seq cur p [] = (seq', p', evs) \<Longrightarrow>
     \<exists>cs'. subseq cs' cs \<and> map ev_EventTimeUnixMS evs = map (\<lambda>c. ms_of_us (cand_unixUS c)) cs'
         \<and> map ev_State evs = map cand_state cs' \<and> (\<forall>ev \<in> set evs. ev_Service ev = us_Service s)"
proof (induction cs arbitrary: d seq cur p seq' p' evs)
  case (Cons c cs)
  let ?skip = "cand_state c = StateUp \<and> d \<or> cand_state c = StateDown \<and> p \<and> cur = StateDown"
  show ?case
  proof (cases ?skip)
    case True
    then obtain d' p1 where "candidate_loop s d' cs seq cur p1 [] = (seq', p', evs)"
      using Cons.prems by (auto split: if_splits)
    from Cons.IH [OF this] show ?thesis by auto
  next
    case False
    then obtain p1 evs1 where "candidate_loop s d cs (seq + 1) (cand_state c) p1 [] = (seq', p', evs1)"
      and "evs = systemd_event s (seq + 1) c # evs1"
      using Cons.prems
      by (auto simp: candidate_loop_acc [of _ _ _ _ _ _ "[_]"] split: if_splits prod.splits)
    moreover from Cons.IH [OF this(1)] obtain cs' where "subseq cs' cs"
      and "map ev_EventTimeUnixMS evs1 = map (\<lambda>c. ms_of_us (cand_unixUS c)) cs'"
      and "map ev_State evs1 = map cand_state cs'" and "\<forall>ev \<in> set evs1. ev_Service ev = us_Service s"
      by blast
    ultimately show ?thesis
      by (intro exI [of _ "c # cs'"]) (simp add: systemd_event_def)
  qed
qed simp

lemma candidate_loop_delayed:
  "candidate_loop s True cs seq cur p [] = (seq', p', evs) \<Longrightarrow> \<forall>ev \<in> set evs. ev_State ev \<noteq> StateUp"
proof (induction cs arbitrary: seq cur p seq' p' evs)
  case (Cons c cs)
  show ?case
    using Cons.prems
    by (auto simp: candidate_loop_acc [of _ _ _ _ _ _ "[_]"] systemd_event_def
        split: if_splits prod.splits dest!: Cons.IH)
qed simp

text \<open>The unit entered \<open>active\<close> after everything the engine knew and has not left it since.\<close>

definition started :: "unit_snapshot \<Rightarrow> service_state \<Rightarrow> bool" where
  "started s old \<longleftrightarrow> us_ActiveEnterTimestampUS s > st_LastActiveEnterTimestampUS old \<and>
     ms_of_us (us_ActiveEnterTimestampUS s) > st_LastEventTimeUnixMS old \<and>
     us_ActiveExitTimestampUS s \<le> us_ActiveEnterTimestampUS s"

lemma started_awaits:
  assumes "started s old"
  shows "fst (snd (candidate_loop s True (snapshot_candidates old s) seq cur p evs))"
  using assms by (auto simp: started_def snapshot_candidates_def)

lemma snapshot_candidates_times:
  "c \<in> set (snapshot_candidates old s) \<Longrightarrow> ms_of_us (cand_unixUS c) > st_LastEventTimeUnixMS old"
  by (auto simp: snapshot_candidates_def split: if_splits)

lemma sorted_snapshot_candidates: "sorted (map cand_unixUS (snapshot_candidates old s))"
  by (simp add: snapshot_candidates_def)

lemma sorted_candidate_ms:
  "sorted (map cand_unixUS cs) \<Longrightarrow> sorted (map (\<lambda>c. ms_of_us (cand_unixUS c)) cs)"
  by (simp add: sorted_map sorted_wrt_map) (erule sorted_wrt_mono_rel [rotated], simp add: word_le_def zdiv_mono1)

text \<open>A call of \<open>Apply\<close> either meets the unit for the first time in this boot or compares it.\<close>

lemma Apply_cases:
  assumes "Apply e s = (e', evs)"
  obtains (first) "eng_states e (us_Service s) = None
        \<or> st_BootID (state_or_zero e (us_Service s)) \<noteq> us_BootID s" and "evs = []"
      and "e' = e\<lparr>eng_states := (eng_states e)(us_Service s \<mapsto>
             observed_state s (state_or_zero e (us_Service s)) False)\<rparr>"
    | (later) old seq p where "eng_states e (us_Service s) = Some old" and "st_BootID old = us_BootID s"
      and "candidate_loop s (us_Service s \<in> eng_delayUp e) (snapshot_candidates old s)
             (eng_seq e) (st_Availability old) (st_AwaitingSIP old) [] = (seq, p, evs)"
      and "e' = e\<lparr>eng_seq := seq, eng_states := (eng_states e)(us_Service s \<mapsto>
             note_last_event evs
               (if p then (observed_state s old p)\<lparr>st_Availability := StateDown\<rparr>
                else observed_state s old p))\<rparr>"
proof (cases "eng_states e (us_Service s) = None \<or> st_BootID (state_or_zero e (us_Service s)) \<noteq> us_BootID s")
  case True
  with assms show ?thesis by (auto simp: Apply_def Let_def intro: first)
next
  case False
  then obtain old where "eng_states e (us_Service s) = Some old" "st_BootID old = us_BootID s"
    by auto
  with assms show ?thesis
    by (auto simp: Apply_def Let_def split: prod.splits intro: later)
qed

lemma Apply_events:
  assumes "Apply e s = (e', evs)" and "eng_states e (us_Service s) = Some old"
  shows "sorted (map ev_EventTimeUnixMS evs)"
    and "\<forall>ev \<in> set evs. ev_Service ev = us_Service s \<and> st_LastEventTimeUnixMS old < ev_EventTimeUnixMS ev"
proof -
  have "sorted (map ev_EventTimeUnixMS evs) \<and>
    (\<forall>ev \<in> set evs. ev_Service ev = us_Service s \<and> st_LastEventTimeUnixMS old < ev_EventTimeUnixMS ev)"
    using assms(1)
  proof (cases rule: Apply_cases)
    case (later old' seq p)
    with assms(2) have [simp]: "old' = old" by simp
    obtain cs' where sub: "subseq cs' (snapshot_candidates old s)"
      and times: "map ev_EventTimeUnixMS evs = map (\<lambda>c. ms_of_us (cand_unixUS c)) cs'"
      and svc: "\<forall>ev \<in> set evs. ev_Service ev = us_Service s"
      using candidate_loop_subseq [OF later(3)] by auto
    have "sorted (map cand_unixUS cs')"
      using sub sorted_snapshot_candidates by (rule sorted_map_subseq)
    then have "sorted (map ev_EventTimeUnixMS evs)"
      unfolding times by (rule sorted_candidate_ms)
    moreover have "\<forall>t \<in> set (map ev_EventTimeUnixMS evs). st_LastEventTimeUnixMS old < t"
      unfolding times
      using snapshot_candidates_times subseq_set_subset [OF sub] by auto
    ultimately show ?thesis using svc by auto
  qed simp
  then show "sorted (map ev_EventTimeUnixMS evs)"
    and "\<forall>ev \<in> set evs. ev_Service ev = us_Service s \<and> st_LastEventTimeUnixMS old < ev_EventTimeUnixMS ev"
    by auto
qed

section \<open>Invariant\<close>

text \<open>
  Every stored state is filed under its own service name, a withheld UP is shown as DOWN, and no
  state carries a sequence number the counter has not reached.
\<close>

definition state_inv :: "uint64 \<Rightarrow> string \<Rightarrow> service_state \<Rightarrow> bool" where
  "state_inv seq k st \<longleftrightarrow> st_Service st = k \<and> (st_AwaitingSIP st \<longrightarrow> st_Availability st = StateDown)
     \<and> st_LastSequence st \<le> seq"

definition engine_inv :: "engine \<Rightarrow> bool" where
  "engine_inv e \<longleftrightarrow> (\<forall>k st. eng_states e k = Some st \<longrightarrow> state_inv (eng_seq e) k st)"

text \<open>A persisted state is one that \<open>SaveState\<close> wrote, so it satisfies the second condition.\<close>

fun op_ok :: "engine_op \<Rightarrow> bool" where
  "op_ok (OpRestore st) = (st_AwaitingSIP st \<longrightarrow> st_Availability st = StateDown)"
| "op_ok _ = True"

lemma state_inv_mono: "state_inv a k st \<Longrightarrow> a \<le> b \<Longrightarrow> state_inv b k st"
  by (auto simp: state_inv_def)

lemma engine_inv_upd:
  assumes "engine_inv e" and "eng_seq e \<le> q" and "state_inv q k st"
  shows "engine_inv (e\<lparr>eng_seq := q, eng_states := (eng_states e)(k \<mapsto> st)\<rparr>)"
  using assms by (auto simp: engine_inv_def intro: state_inv_mono)

lemma engine_inv_upd_state:
  assumes "engine_inv e" and "state_inv (eng_seq e) k st"
  shows "engine_inv (e\<lparr>eng_states := (eng_states e)(k \<mapsto> st)\<rparr>)"
  using assms by (auto simp: engine_inv_def)

lemma engine_inv_seq: "engine_inv e \<Longrightarrow> eng_seq e \<le> q \<Longrightarrow> engine_inv (e\<lparr>eng_seq := q\<rparr>)"
  by (auto simp: engine_inv_def intro: state_inv_mono)

lemma engine_inv_lookup:
  "engine_inv e \<Longrightarrow> st_LastSequence (state_or_zero e k) \<le> eng_seq e"
  by (auto simp: engine_inv_def state_inv_def state_or_zero_def zero_service_state_def split: option.splits)

lemma le_add_no_wrap: "unat (n :: uint64) + k < 2 ^ 64 \<Longrightarrow> n \<le> n + of_nat k"
  by (simp add: word_le_nat_alt unat_word_ariths unat_of_nat)

lemma numbered_from_le:
  assumes "numbered_from n evs" and "unat n + length evs < 2 ^ 64" and "ev \<in> set evs"
  shows "ev_Sequence ev \<le> n + of_nat (length evs)"
proof -
  have "unat (ev_Sequence ev) \<in> set [Suc (unat n) ..< Suc (unat n + length evs)]"
    using assms(3) unfolding numbered_from_unat [OF assms(1,2), symmetric] by simp
  then show ?thesis
    using assms(2) by (auto simp: word_le_nat_alt unat_word_ariths unat_of_nat)
qed

lemma Apply_inv:
  assumes inv: "engine_inv e" and run: "Apply e s = (e', evs)"
    and fit: "unat (eng_seq e) + length evs < 2 ^ 64"
  shows "engine_inv e'"
  using run
proof (cases rule: Apply_cases)
  case first
  with inv show ?thesis
    using engine_inv_lookup [OF inv, of "us_Service s"]
    by (auto intro!: engine_inv_upd_state simp: state_inv_def observed_state_def)
next
  case (later old seq p)
  have num: "numbered_from (eng_seq e) evs" and seq: "seq = eng_seq e + of_nat (length evs)"
    using candidate_loop_numbered [OF later(3)] by simp_all
  have le: "eng_seq e \<le> seq"
    unfolding seq using fit by (rule le_add_no_wrap)
  have "st_LastSequence old \<le> seq"
    using engine_inv_lookup [OF inv, of "us_Service s"] later(1) le by simp
  moreover have "evs \<noteq> [] \<Longrightarrow> ev_Sequence (last evs) \<le> seq"
    unfolding seq using num fit by (rule numbered_from_le) simp
  ultimately have "state_inv seq (us_Service s) (note_last_event evs
      (if p then (observed_state s old p)\<lparr>st_Availability := StateDown\<rparr> else observed_state s old p))"
    by (auto simp: state_inv_def note_last_event_def observed_state_def)
  then show ?thesis
    unfolding later(4) by (rule engine_inv_upd [OF inv le])
qed

definition reboot_progress :: "uint64 \<Rightarrow> engine \<times> event list \<Rightarrow> bool" where
  "reboot_progress n acc \<longleftrightarrow> eng_seq (fst acc) = n + of_nat (length (snd acc))
     \<and> (unat n + length (snd acc) < 2 ^ 64 \<longrightarrow> engine_inv (fst acc))"

lemma reboot_one_progress:
  assumes "reboot_progress n acc"
  shows "reboot_progress n (reboot_one b t k acc)"
proof -
  obtain e evs where acc: "acc = (e, evs)" by (cases acc)
  show ?thesis
  proof (cases "\<exists>st. eng_states e k = Some st \<and> st_Availability st = StateUp")
    case False
    with assms acc show ?thesis
      by (auto simp: reboot_one_def reboot_progress_def split: option.splits
          intro!: engine_inv_upd_state)
        (auto simp: engine_inv_def state_inv_def)
  next
    case True
    then obtain st where st: "eng_states e k = Some st" "st_Availability st = StateUp" by blast
    have seq: "eng_seq e = n + of_nat (length evs)"
      using assms acc by (simp add: reboot_progress_def)
    have le: "eng_seq e \<le> eng_seq e + 1" if "unat n + Suc (length evs) < 2 ^ 64"
      using le_add_no_wrap [of "eng_seq e" 1] that
      by (simp add: seq unat_word_ariths unat_of_nat)
    have "engine_inv (e\<lparr>eng_seq := eng_seq e + 1,
        eng_states := (eng_states e)(k \<mapsto> st\<lparr>st_Availability := StateDown, st_BootID := b,
          st_LastEventTimeUnixMS := UnixMilli t, st_LastSequence := eng_seq e + 1\<rparr>)\<rparr>)"
      if fit: "unat n + Suc (length evs) < 2 ^ 64"
    proof (rule engine_inv_upd)
      show inv: "engine_inv e"
        using assms acc fit by (simp add: reboot_progress_def)
      show "eng_seq e \<le> eng_seq e + 1" using fit by (rule le)
      show "state_inv (eng_seq e + 1) k (st\<lparr>st_Availability := StateDown, st_BootID := b,
          st_LastEventTimeUnixMS := UnixMilli t, st_LastSequence := eng_seq e + 1\<rparr>)"
        using inv st by (auto simp: engine_inv_def state_inv_def)
    qed
    with st acc seq show ?thesis
      by (simp add: reboot_one_def reboot_progress_def Let_def algebra_simps)
  qed
qed

lemma fold_reboot_progress:
  "reboot_progress n acc \<Longrightarrow> reboot_progress n (fold (reboot_one b t) ks acc)"
  by (induction ks arbitrary: acc) (simp_all del: split_paired_All add: reboot_one_progress)

lemma ApplyReboot_inv:
  assumes "engine_inv e" and "ApplyReboot e ks b t = (e', evs)"
    and "unat (eng_seq e) + length evs < 2 ^ 64"
  shows "engine_inv e'"
  using fold_reboot_progress [of "eng_seq e" "(e, [])" b t ks] assms
  by (simp add: reboot_progress_def ApplyReboot_def)

lemma Replay_inv: "engine_inv e \<Longrightarrow> engine_inv (Replay e ev)"
proof -
  assume inv: "engine_inv e"
  define e1 where "e1 = (if ev_Sequence ev > eng_seq e then e\<lparr>eng_seq := ev_Sequence ev\<rparr> else e)"
  have inv1: "engine_inv e1" and le: "ev_Sequence ev \<le> eng_seq e1"
    using inv by (auto simp: e1_def intro: engine_inv_seq)
  show ?thesis
    using inv1 le unfolding Replay_def Let_def e1_def [symmetric]
    by (auto intro!: engine_inv_upd_state
        simp: state_inv_def engine_inv_def state_or_zero_def zero_service_state_def split: option.splits)
qed

lemma engine_step_inv:
  assumes "engine_inv e" and "op_ok x" and "engine_step e x = (e', evs)"
    and "unat (eng_seq e) + length evs < 2 ^ 64"
  shows "engine_inv e'"
proof (cases x)
  case (OpConfirm service at source)
  have le: "unat (eng_seq e) + 1 < 2 ^ 64 \<Longrightarrow> eng_seq e \<le> eng_seq e + 1"
    using le_add_no_wrap [of "eng_seq e" 1] by simp
  from assms OpConfirm show ?thesis
    by (auto simp: ConfirmReady_def Let_def split: if_splits option.splits
        intro!: engine_inv_upd le) (auto simp: state_inv_def engine_inv_def)
next
  case (OpRecovery ev)
  have le: "unat (eng_seq e) + 1 < 2 ^ 64 \<Longrightarrow> eng_seq e \<le> eng_seq e + 1"
    using le_add_no_wrap [of "eng_seq e" 1] by simp
  from assms OpRecovery show ?thesis
    by (auto simp: ApplyRecovery_def Let_def state_inv_def split: if_splits intro!: engine_inv_upd le)
next
  case (OpRestore st)
  with assms show ?thesis
    by (auto simp: RestoreState_def Let_def engine_inv_def state_inv_def split: if_splits)
      (meson le_less_trans less_imp_le not_less order_trans)+
next
  case (OpDelay services)
  with assms show ?thesis by (auto simp: DelayUpUntilReady_def engine_inv_def)
next
  case (OpAdopt b)
  with assms show ?thesis by (auto simp: AdoptBootID_def engine_inv_def state_inv_def)
qed (use assms in \<open>auto intro: Apply_inv ApplyReboot_inv Replay_inv\<close>)


text \<open>The engines the process can be in, with everything emitted on the way.\<close>

inductive engine_reach :: "engine \<Rightarrow> event list \<Rightarrow> bool" where
  reach_new: "engine_reach Engine_New []"
| reach_step: "engine_reach e log \<Longrightarrow> op_ok x \<Longrightarrow> engine_step e x = (e', evs) \<Longrightarrow>
     unat (eng_seq e) + length evs < 2 ^ 64 \<Longrightarrow> engine_reach e' (log @ evs)"

lemma engine_reach_inv: "engine_reach e log \<Longrightarrow> engine_inv e"
proof (induction rule: engine_reach.induct)
  case reach_new
  show ?case by (simp add: engine_inv_def Engine_New_def)
next
  case (reach_step e log x e' evs)
  then show ?case by (blast intro: engine_step_inv)
qed

section \<open>The effect of a reboot\<close>

definition up_in :: "engine \<Rightarrow> string \<Rightarrow> bool" where
  "up_in e k \<longleftrightarrow> (case eng_states e k of None \<Rightarrow> False | Some st \<Rightarrow> st_Availability st = StateUp)"

text \<open>What a reboot makes of one stored state, \<open>q\<close> being the sequence number of its event.\<close>

definition rebooted :: "string \<Rightarrow> go_time \<Rightarrow> uint64 \<Rightarrow> service_state \<Rightarrow> service_state" where
  "rebooted b t q st =
     (if st_Availability st = StateUp
      then st\<lparr>st_Availability := StateDown, st_BootID := b,
              st_LastEventTimeUnixMS := UnixMilli t, st_LastSequence := q\<rparr>
      else st\<lparr>st_BootID := b\<rparr>)"

lemma reboot_one_effect:
  "reboot_one b t k (e, evs) = (e', evs') \<Longrightarrow>
     (\<forall>j. j \<noteq> k \<longrightarrow> eng_states e' j = eng_states e j)
     \<and> (\<exists>q. eng_states e' k = map_option (rebooted b t q) (eng_states e k))
     \<and> map ev_Service evs' = map ev_Service evs @ (if up_in e k then [k] else [])
     \<and> (\<forall>ev \<in> set evs'. ev \<in> set evs \<or> ev_State ev = StateDown \<and> ev_Source ev = SourceHostReboot
          \<and> ev_EventTimeUnixMS ev = UnixMilli t \<and> ev_BootID ev = b)"
  by (auto simp: reboot_one_def Let_def rebooted_def up_in_def split: option.splits if_splits)

lemma fold_reboot_effect:
  assumes "distinct ks" and "fold (reboot_one b t) ks (e, evs) = (e', evs')"
  shows "(\<forall>j. j \<notin> set ks \<longrightarrow> eng_states e' j = eng_states e j)
     \<and> (\<forall>k \<in> set ks. \<exists>q. eng_states e' k = map_option (rebooted b t q) (eng_states e k))
     \<and> map ev_Service evs' = map ev_Service evs @ filter (up_in e) ks
     \<and> (\<forall>ev \<in> set evs'. ev \<in> set evs \<or> ev_State ev = StateDown \<and> ev_Source ev = SourceHostReboot
          \<and> ev_EventTimeUnixMS ev = UnixMilli t \<and> ev_BootID ev = b)"
  using assms
proof (induction ks arbitrary: e evs)
  case (Cons k ks)
  obtain e1 evs1 where one: "reboot_one b t k (e, evs) = (e1, evs1)"
    by (cases "reboot_one b t k (e, evs)")
  note eff = reboot_one_effect [OF one]
  have rest: "fold (reboot_one b t) ks (e1, evs1) = (e', evs')" and k: "k \<notin> set ks"
    using Cons.prems one by simp_all
  have same: "eng_states e1 j = eng_states e j" if "j \<in> set ks" for j
    using eff [THEN conjunct1, rule_format, of j] k that by metis
  have up: "filter (up_in e1) ks = filter (up_in e) ks"
    by (rule filter_cong) (simp_all add: up_in_def same)
  from Cons.prems(1) have "distinct ks" by simp
  note IH = Cons.IH [OF this rest]
  show ?case
  proof (intro conjI)
    show "\<forall>j. j \<notin> set (k # ks) \<longrightarrow> eng_states e' j = eng_states e j"
      using IH eff by simp
    show "\<forall>j \<in> set (k # ks). \<exists>q. eng_states e' j = map_option (rebooted b t q) (eng_states e j)"
    proof
      fix j
      assume "j \<in> set (k # ks)"
      then consider "j = k" | "j \<in> set ks" by auto
      then show "\<exists>q. eng_states e' j = map_option (rebooted b t q) (eng_states e j)"
        by cases (use IH eff k in auto, use IH same in metis)
    qed
    show "map ev_Service evs' = map ev_Service evs @ filter (up_in e) (k # ks)"
      using IH eff up by simp
    show "\<forall>ev \<in> set evs'. ev \<in> set evs \<or> ev_State ev = StateDown \<and> ev_Source ev = SourceHostReboot
          \<and> ev_EventTimeUnixMS ev = UnixMilli t \<and> ev_BootID ev = b"
      using IH eff by blast
  qed
qed simp

section \<open>Replaying the event log\<close>

text \<open>The replay loop of \<open>main\<close> at start-up.\<close>

definition Replay_all :: "engine \<Rightarrow> event list \<Rightarrow> engine" where
  "Replay_all e evs = fold (\<lambda>ev e. Replay e ev) evs e"

lemma Replay_all_simps [simp]:
  "Replay_all e [] = e"
  "Replay_all e (ev # evs) = Replay_all (Replay e ev) evs"
  "Replay_all e (xs @ ys) = Replay_all (Replay_all e xs) ys"
  by (simp_all add: Replay_all_def)

text \<open>What duplicate suppression depends on: the newest event time and number of a service.\<close>

definition last_info :: "engine \<Rightarrow> string \<Rightarrow> int \<times> uint64" where
  "last_info e k = (st_LastEventTimeUnixMS (state_or_zero e k), st_LastSequence (state_or_zero e k))"

definition tracks :: "engine \<Rightarrow> engine \<Rightarrow> bool" where
  "tracks e r \<longleftrightarrow> eng_seq e = eng_seq r \<and> (\<forall>k. last_info e k = last_info r k)"

text \<open>An \<open>int64\<close> millisecond timestamp that can still be incremented.\<close>

definition time_ok :: "int \<Rightarrow> bool" where
  "time_ok t \<longleftrightarrow> - (2 ^ 63) \<le> t \<and> t < 2 ^ 63 - 1"

definition headroom :: "engine \<Rightarrow> bool" where
  "headroom e \<longleftrightarrow> (\<forall>k. time_ok (fst (last_info e k)))"

fun track_op :: "engine_op \<Rightarrow> bool" where
  "track_op (OpRestore st) = False"
| "track_op (OpReplay ev) = False"
| "track_op (OpReboot ks b t) = False"
| "track_op (OpRecovery ev) = (ev_Service ev \<noteq> [] \<and> 0 \<le> ev_EventTimeUnixMS ev)"
| "track_op _ = True"

lemma track_op_live: "track_op x \<Longrightarrow> live_op x" and track_op_ok: "track_op x \<Longrightarrow> op_ok x"
  by (cases x; simp)+

lemma Replay_last_info:
  assumes "fst (last_info r (ev_Service ev)) \<le> ev_EventTimeUnixMS ev"
  shows "last_info (Replay r ev) k =
    (if k = ev_Service ev then (ev_EventTimeUnixMS ev, ev_Sequence ev) else last_info r k)"
  using assms
  by (auto simp: Replay_def last_info_def Let_def state_or_zero_def zero_service_state_def split: option.splits)

lemma Replay_seq: "eng_seq (Replay r ev) = max (eng_seq r) (ev_Sequence ev)"
  by (auto simp: Replay_def Let_def max_def)

text \<open>The last entry for \<open>k\<close> of an event list, if it has one.\<close>

fun newest :: "string \<Rightarrow> event list \<Rightarrow> int \<times> uint64 \<Rightarrow> int \<times> uint64" where
  "newest k [] d = d"
| "newest k (ev # evs) d =
     newest k evs (if k = ev_Service ev then (ev_EventTimeUnixMS ev, ev_Sequence ev) else d)"

fun times_from :: "(string \<Rightarrow> int) \<Rightarrow> event list \<Rightarrow> bool" where
  "times_from f [] = True"
| "times_from f (ev # evs) = (f (ev_Service ev) \<le> ev_EventTimeUnixMS ev
     \<and> times_from (f(ev_Service ev := ev_EventTimeUnixMS ev)) evs)"

lemma Replay_all_info:
  assumes "numbered_from (eng_seq r) evs" and "unat (eng_seq r) + length evs < 2 ^ 64"
    and "times_from (\<lambda>k. fst (last_info r k)) evs"
  shows "eng_seq (Replay_all r evs) = eng_seq r + of_nat (length evs)
    \<and> (\<forall>k. last_info (Replay_all r evs) k = newest k evs (last_info r k))"
  using assms
proof (induction evs arbitrary: r)
  case (Cons ev evs)
  have lt: "eng_seq r < eng_seq r + 1"
    using Cons.prems(2) by (simp add: word_less_nat_alt unat_Suc_no_wrap)
  then have seq: "eng_seq (Replay r ev) = eng_seq r + 1"
    using Cons.prems(1) by (simp add: Replay_seq max_def)
  have info: "last_info (Replay r ev) k =
      (if k = ev_Service ev then (ev_EventTimeUnixMS ev, ev_Sequence ev) else last_info r k)" for k
    using Cons.prems(3) by (intro Replay_last_info) simp
  have "(\<lambda>k. fst (last_info (Replay r ev) k))
      = (\<lambda>k. fst (last_info r k))(ev_Service ev := ev_EventTimeUnixMS ev)"
    by (auto simp: info)
  then have "times_from (\<lambda>k. fst (last_info (Replay r ev) k)) evs"
    using Cons.prems(3) by simp
  moreover have "numbered_from (eng_seq (Replay r ev)) evs"
    and "unat (eng_seq (Replay r ev)) + length evs < 2 ^ 64"
    using Cons.prems(1,2) by (simp_all add: seq unat_Suc_no_wrap)
  ultimately show ?case
    using Cons.IH [of "Replay r ev"] by (simp add: seq info algebra_simps)
qed simp

lemma times_from_sorted:
  assumes "\<forall>ev \<in> set evs. ev_Service ev = s \<and> f s \<le> ev_EventTimeUnixMS ev"
    and "sorted (map ev_EventTimeUnixMS evs)"
  shows "times_from f evs"
  using assms by (induction evs arbitrary: f) auto

lemma newest_single:
  assumes "\<forall>ev \<in> set evs. ev_Service ev = s"
  shows "newest k evs d = (if evs = [] \<or> k \<noteq> s then d
     else (ev_EventTimeUnixMS (last evs), ev_Sequence (last evs)))"
  using assms by (induction evs arbitrary: d) auto

text \<open>One live call: what it emits is in order for every service and updates the newest entries.\<close>

definition emits_in_order :: "engine \<Rightarrow> engine \<Rightarrow> event list \<Rightarrow> bool" where
  "emits_in_order e e' evs \<longleftrightarrow> times_from (\<lambda>k. fst (last_info e k)) evs
     \<and> (\<forall>k. last_info e' k = newest k evs (last_info e k))"

lemma Apply_in_order:
  assumes run: "Apply e s = (e', evs)"
  shows "emits_in_order e e' evs"
  using run
proof (cases rule: Apply_cases)
  case first
  then show ?thesis
    by (auto simp: emits_in_order_def last_info_def state_or_zero_def observed_state_def)
next
  case (later old seq p)
  note facts = Apply_events [OF run later(1)]
  have svc: "\<forall>ev \<in> set evs. ev_Service ev = us_Service s" using facts(2) by blast
  have "times_from (\<lambda>k. fst (last_info e k)) evs"
    using facts later(1) by (intro times_from_sorted [where s = "us_Service s"]) (auto simp: last_info_def)
  moreover have "last_info e' k = newest k evs (last_info e k)" for k
    unfolding newest_single [OF svc] later(4)
    using later(1) by (auto simp: last_info_def state_or_zero_def note_last_event_def observed_state_def)
  ultimately show ?thesis by (simp add: emits_in_order_def)
qed

lemma engine_step_in_order:
  assumes "track_op x" and "engine_inv e" and "headroom e" and "engine_step e x = (e', evs)"
  shows "emits_in_order e e' evs"
proof (cases x)
  case (OpConfirm service at source)
  have "wrap64 (fst (last_info e service) + 1) = fst (last_info e service) + 1"
    using assms(3) [unfolded headroom_def, rule_format, of service]
    by (intro wrap64_id) (simp_all add: time_ok_def)
  with assms(4) OpConfirm show ?thesis
    by (auto simp: ConfirmReady_def Let_def emits_in_order_def last_info_def state_or_zero_def
        split: option.splits if_splits)
next
  case (OpRecovery ev)
  have "eng_states e (ev_Service ev) \<noteq> None \<Longrightarrow> st_Service (state_or_zero e (ev_Service ev)) \<noteq> []"
    using assms(1,2) OpRecovery by (auto simp: engine_inv_def state_inv_def)
  with assms(1,4) OpRecovery show ?thesis
    by (auto simp: ApplyRecovery_def Let_def emits_in_order_def last_info_def state_or_zero_def
        zero_service_state_def split: option.splits if_splits)
next
  case (OpApply s)
  with assms(4) show ?thesis by (simp add: Apply_in_order)
qed (use assms in \<open>auto simp: emits_in_order_def last_info_def state_or_zero_def DelayUpUntilReady_def
       AdoptBootID_def split: option.splits\<close>)

lemma step_tracks:
  assumes "track_op x" and "engine_inv e" and "headroom e" and "engine_step e x = (e', evs)"
    and "unat (eng_seq e) + length evs < 2 ^ 64" and "tracks e r"
  shows "tracks e' (Replay_all r evs)"
proof -
  have ord: "emits_in_order e e' evs"
    by (rule engine_step_in_order [OF assms(1-4)])
  have num: "numbered_from (eng_seq e) evs" "eng_seq e' = eng_seq e + of_nat (length evs)"
    using engine_step_numbered [OF track_op_live [OF assms(1)] assms(4)] by simp_all
  have "times_from (\<lambda>k. fst (last_info r k)) evs"
    using ord assms(6) by (simp add: emits_in_order_def tracks_def)
  then show ?thesis
    using Replay_all_info [of r evs] num assms(5,6) ord
    by (simp add: tracks_def emits_in_order_def)
qed

lemma step_headroom:
  assumes "emits_in_order e e' evs" and "headroom e"
    and "\<forall>ev \<in> set evs. time_ok (ev_EventTimeUnixMS ev)"
  shows "headroom e'"
proof -
  have "time_ok (fst (newest k evs d))" if "time_ok (fst d)" for k d
    using that assms(3) by (induction evs arbitrary: d) auto
  with assms(1,2) show ?thesis by (simp add: headroom_def emits_in_order_def)
qed

text \<open>The newest event time of a service never goes back.\<close>

lemma newest_mono:
  assumes "times_from f evs" and "fst d \<le> f k"
  shows "fst d \<le> fst (newest k evs d)"
  using assms
proof (induction evs arbitrary: f d)
  case (Cons ev evs)
  show ?case
  proof (cases "k = ev_Service ev")
    case True
    then have "fst (ev_EventTimeUnixMS ev, ev_Sequence ev) \<le> fst (newest k evs (ev_EventTimeUnixMS ev, ev_Sequence ev))"
      using Cons.prems by (intro Cons.IH [of "f(ev_Service ev := ev_EventTimeUnixMS ev)"]) (simp_all del: fun_upd_apply, simp)
    then show ?thesis using Cons.prems True by simp
  next
    case False
    have "fst d \<le> fst (newest k evs d)"
      using Cons.prems False by (intro Cons.IH [of "f(ev_Service ev := ev_EventTimeUnixMS ev)"]) (simp_all del: fun_upd_apply, simp)
    then show ?thesis using False by simp
  qed
qed simp

lemma engine_step_fits:
  assumes "live_op x" and "engine_step e x = (e', evs)"
  shows "unat (eng_seq e) + length evs + n < 2 ^ 64 \<Longrightarrow> unat (eng_seq e') + n < 2 ^ 64"
  using engine_step_numbered [OF assms] by (simp add: unat_word_ariths unat_of_nat)

lemma run_last_mono:
  "list_all track_op xs \<Longrightarrow> engine_inv e \<Longrightarrow> headroom e \<Longrightarrow> run_ops engine_step e xs = (e', evs) \<Longrightarrow>
   unat (eng_seq e) + length evs < 2 ^ 64 \<Longrightarrow> \<forall>ev \<in> set evs. time_ok (ev_EventTimeUnixMS ev) \<Longrightarrow>
   fst (last_info e k) \<le> fst (last_info e' k)"
proof (induction xs arbitrary: e evs)
  case (Cons x xs)
  obtain e1 evs1 evs2 where one: "engine_step e x = (e1, evs1)"
    and rest: "run_ops engine_step e1 xs = (e', evs2)" and evs: "evs = evs1 @ evs2"
    using Cons.prems(4) by (auto split: prod.splits)
  have x: "track_op x" using Cons.prems(1) by simp
  note ord = engine_step_in_order [OF x Cons.prems(2,3) one]
  have "unat (eng_seq e) + length evs1 < 2 ^ 64" using Cons.prems(5) evs by simp
  then have inv1: "engine_inv e1" using engine_step_inv [OF Cons.prems(2) track_op_ok [OF x] one] by simp
  have "fst (last_info e k) \<le> fst (last_info e1 k)"
    using ord newest_mono [of "\<lambda>k. fst (last_info e k)" evs1 "last_info e k" k] by (simp add: emits_in_order_def)
  also have "\<dots> \<le> fst (last_info e' k)"
  proof (rule Cons.IH [OF _ inv1 _ rest])
    show "headroom e1" using step_headroom [OF ord Cons.prems(3)] Cons.prems(6) evs by simp
    show "unat (eng_seq e1) + length evs2 < 2 ^ 64"
      using engine_step_fits [OF track_op_live [OF x] one, of "length evs2"] Cons.prems(5) evs by simp
  qed (use Cons.prems(1,6) evs in simp_all)
  finally show ?case .
qed simp

lemma Apply_newer: "x \<in> set (snd (Apply e s)) \<Longrightarrow> fst (last_info e (us_Service s)) < ev_EventTimeUnixMS x"
proof -
  obtain e' evs where run: "Apply e s = (e', evs)" by (cases "Apply e s")
  assume "x \<in> set (snd (Apply e s))"
  then have x: "x \<in> set evs" using run by simp
  from run show ?thesis
  proof (cases rule: Apply_cases)
    case (later old seq p)
    then show ?thesis using Apply_events [OF run later(1)] x by (auto simp: last_info_def)
  qed (use x in simp)
qed

lemma run_tracks:
  "list_all track_op xs \<Longrightarrow> engine_inv e \<Longrightarrow> headroom e \<Longrightarrow> run_ops engine_step e xs = (e', evs) \<Longrightarrow>
   unat (eng_seq e) + length evs < 2 ^ 64 \<Longrightarrow> \<forall>ev \<in> set evs. time_ok (ev_EventTimeUnixMS ev) \<Longrightarrow>
   tracks e r \<Longrightarrow> tracks e' (Replay_all r evs)"
proof (induction xs arbitrary: e r evs)
  case (Cons x xs)
  obtain e1 evs1 evs2 where one: "engine_step e x = (e1, evs1)"
    and rest: "run_ops engine_step e1 xs = (e', evs2)" and evs: "evs = evs1 @ evs2"
    using Cons.prems(4) by (auto split: prod.splits)
  have x: "track_op x" and xs: "list_all track_op xs"
    using Cons.prems(1) by simp_all
  have fit1: "unat (eng_seq e) + length evs1 < 2 ^ 64"
    using Cons.prems(5) evs by simp
  have inv1: "engine_inv e1"
    by (rule engine_step_inv [OF Cons.prems(2) track_op_ok [OF x] one fit1])
  have head1: "headroom e1"
    using step_headroom [OF engine_step_in_order [OF x Cons.prems(2,3) one] Cons.prems(3)]
      Cons.prems(6) evs by simp
  have "eng_seq e1 = eng_seq e + of_nat (length evs1)"
    using engine_step_numbered [OF track_op_live [OF x] one] by simp
  then have "unat (eng_seq e1) + length evs2 < 2 ^ 64"
    using Cons.prems(5) evs by (simp add: unat_word_ariths unat_of_nat)
  then have "tracks e' (Replay_all (Replay_all r evs1) evs2)"
    using Cons.IH [OF xs inv1 head1 rest] step_tracks [OF x Cons.prems(2,3) one fit1 Cons.prems(7)]
      Cons.prems(6) evs by simp
  then show ?case by (simp add: evs)
qed simp

section \<open>Snapshots without news\<close>

text \<open>A stored state that a snapshot would reproduce: nothing is newer and every field agrees.\<close>

definition settled :: "unit_snapshot \<Rightarrow> service_state \<Rightarrow> bool" where
  "settled s st \<longleftrightarrow> st_BootID st = us_BootID s \<and> snapshot_candidates st s = []
     \<and> (if st_AwaitingSIP st then (observed_state s st True)\<lparr>st_Availability := StateDown\<rparr>
        else observed_state s st False) = st"

lemma settled_Apply:
  assumes "\<exists>st. eng_states e (us_Service s) = Some st \<and> settled s st"
  shows "Apply e s = (e, [])"
proof -
  obtain st where st: "eng_states e (us_Service s) = Some st" "settled s st"
    using assms by blast
  then have "(eng_states e)(us_Service s \<mapsto> st) = eng_states e"
    by (simp add: map_upd_triv)
  with st show ?thesis
    by (cases "st_AwaitingSIP st") (simp_all add: Apply_def settled_def note_last_event_def)
qed

lemma settled_observed:
  "settled s (note_last_event evs (if p then (observed_state s old p)\<lparr>st_Availability := StateDown\<rparr>
     else observed_state s old p))"
  by (simp add: settled_def snapshot_candidates_def observed_state_def note_last_event_def)

lemma Apply_settles:
  "\<exists>st. eng_states (fst (Apply e s)) (us_Service s) = Some st \<and> settled s st"
proof -
  obtain e' evs where run: "Apply e s = (e', evs)" by (cases "Apply e s")
  then show ?thesis
  proof (cases rule: Apply_cases)
    case first
    with run settled_observed [of s "[]" False "state_or_zero e (us_Service s)"] show ?thesis
      by (simp add: note_last_event_def)
  next
    case (later old seq p)
    with run settled_observed [of s evs p old] show ?thesis by simp
  qed
qed

section \<open>Properties\<close>

text \<open>The unit of the engine's own tests, for the concrete instances below.\<close>

definition sample_snapshot :: "string \<Rightarrow> uint64 \<Rightarrow> uint64 \<Rightarrow> unit_snapshot" where
  "sample_snapshot state enter exit =
     \<lparr>us_Service = ''scscf.service'', us_ActiveState = state, us_SubState = state,
      us_ActiveEnterTimestampUS = enter, us_ActiveExitTimestampUS = exit,
      us_ActiveEnterTimestampMonotonicUS = enter, us_ActiveExitTimestampMonotonicUS = exit,
      us_BootID = ''boot-1'', us_ObservedAt = 0\<rparr>"

definition sample_ops :: "engine_op list" where
  "sample_ops = [OpApply (sample_snapshot ''active'' 1000 0), OpApply (sample_snapshot ''active'' 3000 2000),
     OpDelay [''scscf.service''], OpApply (sample_snapshot ''inactive'' 3000 5000),
     OpApply (sample_snapshot ''active'' 7000 5000), OpConfirm ''scscf.service'' 9000000 SourceSIP]"

lemmas engine_eval = sample_snapshot_def sample_ops_def Engine_New_def Apply_def DelayUpUntilReady_def
  ConfirmReady_def ApplyRecovery_def state_or_zero_def observed_state_def note_last_event_def
  snapshot_candidates_def systemd_event_def engine_availability_def UnixMilli_def zero_service_state_def
  source_defs

lemma sample_run:
  "map (\<lambda>ev. (unat (ev_Sequence ev), ev_State ev, ev_EventTimeUnixMS ev))
     (snd (run_ops engine_step Engine_New sample_ops))
   = [(1, StateDown, 2), (2, StateUp, 3), (3, StateDown, 5), (4, StateUp, 9)]"
  by (simp add: engine_eval)

lemma sample_run_fits:
  "list_all live_op sample_ops" "length (snd (run_ops engine_step Engine_New sample_ops)) = 4"
  "eng_seq Engine_New = 0"
  using arg_cong [OF sample_run, of length] by (simp_all add: sample_ops_def Engine_New_def)

text \<open>C8. Sequence numbers: whatever sequence of snapshots, probe answers, recovered events, boot
  changes and reboots the engine processes, in any interleaving, the events it emits carry the
  consecutive numbers that follow its counter, as long as the 64-bit counter does not wrap.\<close>

theorem live_run_sequences:
  assumes "list_all live_op ops" and "run_ops engine_step e ops = (e', evs)"
    and "unat (eng_seq e) + length evs < 2 ^ 64"
  shows "map (\<lambda>ev. unat (ev_Sequence ev)) evs
           = [Suc (unat (eng_seq e)) ..< Suc (unat (eng_seq e) + length evs)]"
  using assms by (rule eng_src.run_sequences)

theorem live_run_sequences_witness:
  "map (\<lambda>ev. unat (ev_Sequence ev)) (snd (run_ops engine_step Engine_New sample_ops)) = [1, 2, 3, 4]"
  using live_run_sequences [of sample_ops Engine_New "fst (run_ops engine_step Engine_New sample_ops)"
      "snd (run_ops engine_step Engine_New sample_ops)"] sample_run_fits
  by (simp add: upt_rec)

text \<open>C26. Invariant: in every state the engine can reach from its start, through any mixture of
  restores, replays, snapshots, probe answers, recoveries and reboots, each state is stored under
  its own service name, a unit whose UP is held back for a probe is reported DOWN, and no state
  refers to a sequence number beyond the counter.\<close>

theorem reachable_states_wellformed:
  assumes "engine_reach e log" and "eng_states e service = Some st"
  shows "st_Service st = service \<and> (st_AwaitingSIP st \<longrightarrow> st_Availability st = StateDown)
    \<and> st_LastSequence st \<le> eng_seq e"
  using engine_reach_inv [OF assms(1)] assms(2) by (auto simp: engine_inv_def state_inv_def)

theorem reachable_states_wellformed_witness:
  "\<exists>e st. engine_reach e [] \<and> eng_states e ''scscf.service'' = Some st \<and> st_Service st = ''scscf.service''"
proof -
  let ?s = "sample_snapshot ''active'' 1000 0"
  have r: "engine_reach (fst (Apply Engine_New ?s)) ([] @ snd (Apply Engine_New ?s))"
    by (rule engine_reach.reach_step [OF engine_reach.reach_new, of "OpApply ?s"])
      (simp_all add: engine_eval)
  have s: "eng_states (fst (Apply Engine_New ?s)) ''scscf.service''
      = Some (observed_state ?s zero_service_state False)"
    by (simp add: Apply_def Engine_New_def state_or_zero_def sample_snapshot_def)
  show ?thesis
    using r s reachable_states_wellformed [OF r s]
    by (intro exI conjI) (auto simp: engine_eval)
qed

text \<open>C16. Restart: replaying the events that a run of snapshots, probe answers and recovered transitions emitted,
  the transitions of a named unit and at a non-negative time, brings a second engine to the same sequence
  counter and, for every service, to the same newest event time and number as the engine that
  emitted them, so duplicate suppression after a restart continues where the process stopped. The
  second engine is one that agreed at the beginning of the run, for instance an empty one. The run has no
  host reboot, whose events may be older than the last event of a service, and neither the counter nor a
  time leaves its range.\<close>

theorem replay_restores_progress:
  assumes "list_all track_op ops" and "engine_inv e" and "headroom e"
    and "run_ops engine_step e ops = (e', evs)"
    and "unat (eng_seq e) + length evs < 2 ^ 64"
    and "\<forall>ev \<in> set evs. time_ok (ev_EventTimeUnixMS ev)"
    and "tracks e r"
  shows "tracks e' (Replay_all r evs)"
  using assms by (rule run_tracks)

theorem replay_restores_progress_witness:
  "tracks (fst (run_ops engine_step Engine_New sample_ops))
     (Replay_all Engine_New (snd (run_ops engine_step Engine_New sample_ops)))"
proof (rule replay_restores_progress [of sample_ops Engine_New])
  show "list_all track_op sample_ops" by (simp add: sample_ops_def)
  show "engine_inv Engine_New" and "tracks Engine_New Engine_New"
    by (simp_all add: engine_inv_def Engine_New_def tracks_def)
  show "headroom Engine_New"
    by (simp add: headroom_def last_info_def time_ok_def engine_eval)
  show "unat (eng_seq Engine_New) + length (snd (run_ops engine_step Engine_New sample_ops)) < 2 ^ 64"
    using sample_run_fits by simp
  have "ev_EventTimeUnixMS ev \<in> {2, 3, 5, 9}" if "ev \<in> set (snd (run_ops engine_step Engine_New sample_ops))" for ev
    using that arg_cong [OF sample_run, of "\<lambda>xs. set (map (\<lambda>(a, b, c). c) xs)"] by force
  then show "\<forall>ev \<in> set (snd (run_ops engine_step Engine_New sample_ops)). time_ok (ev_EventTimeUnixMS ev)"
    by (fastforce simp: time_ok_def)
qed simp

text \<open>Repeating a snapshot changes nothing: the second \<open>Apply\<close> of the same snapshot emits no
  event and leaves the whole engine as it was, whatever the engine and the snapshot.\<close>

lemma Apply_idempotent: "Apply (fst (Apply e s)) s = (fst (Apply e s), [])"
  using settled_Apply [OF Apply_settles] by blast

text \<open>C18. Order and freshness: the events one snapshot yields are all for its unit, are in timestamp
  order, are numbered consecutively and are each strictly newer than the last event recorded for
  that unit, whose record they then replace.\<close>

theorem Apply_ordered_and_fresh:
  assumes "Apply e s = (e', evs)" and "eng_states e (us_Service s) = Some old"
  shows "sorted (map ev_EventTimeUnixMS evs)
    \<and> (\<forall>ev \<in> set evs. ev_Service ev = us_Service s \<and> st_LastEventTimeUnixMS old < ev_EventTimeUnixMS ev)
    \<and> numbered_from (eng_seq e) evs
    \<and> last_info e' (us_Service s) = (if evs = [] then last_info e (us_Service s)
           else (ev_EventTimeUnixMS (last evs), ev_Sequence (last evs)))"
proof -
  note ev = Apply_events [OF assms]
  have "numbered_from (eng_seq e) evs"
    using engine_step_numbered [of "OpApply s" e e' evs] assms(1) by simp
  moreover have "\<forall>ev \<in> set evs. ev_Service ev = us_Service s" using ev(2) by blast
  then have "newest (us_Service s) evs d = (if evs = [] then d
      else (ev_EventTimeUnixMS (last evs), ev_Sequence (last evs)))" for d
    by (simp add: newest_single [where s = "us_Service s"])
  then have "last_info e' (us_Service s) = (if evs = [] then last_info e (us_Service s)
      else (ev_EventTimeUnixMS (last evs), ev_Sequence (last evs)))"
    using Apply_in_order [OF assms(1)] by (simp add: emits_in_order_def)
  ultimately show ?thesis using ev by blast
qed

definition sample_engine :: engine where
  "sample_engine = fst (Apply Engine_New (sample_snapshot ''active'' 1000 0))"

theorem Apply_ordered_and_fresh_witness:
  "map ev_EventTimeUnixMS (snd (Apply sample_engine (sample_snapshot ''active'' 3000 2000))) = [2, 3]
   \<and> sorted (map ev_EventTimeUnixMS (snd (Apply sample_engine (sample_snapshot ''active'' 3000 2000))))"
proof
  let ?s = "sample_snapshot ''active'' 3000 2000"
  show "map ev_EventTimeUnixMS (snd (Apply sample_engine ?s)) = [2, 3]"
    by (simp add: sample_engine_def engine_eval)
  have old: "\<exists>old. eng_states sample_engine (us_Service ?s) = Some old"
    by (simp add: sample_engine_def engine_eval)
  show "sorted (map ev_EventTimeUnixMS (snd (Apply sample_engine ?s)))"
    using old Apply_ordered_and_fresh [of sample_engine ?s "fst (Apply sample_engine ?s)"
        "snd (Apply sample_engine ?s)"] by auto
qed



text \<open>Probe answers: an answer is accepted exactly when the unit awaits one; it then yields one UP
  event, stamped strictly after the last recorded event and numbered next, the unit is UP and no
  longer waiting, and any further answer, with any time and source, is discarded.\<close>

theorem ConfirmReady_releases_once:
  assumes "eng_states e service = Some st" and "time_ok (st_LastEventTimeUnixMS st)"
  shows "if st_AwaitingSIP st
    then \<exists>e' ev st'. ConfirmReady e service at source = (e', Some ev)
           \<and> ev_State ev = StateUp \<and> ev_Service ev = service \<and> ev_Source ev = source
           \<and> ev_Sequence ev = eng_seq e + 1
           \<and> ev_EventTimeUnixMS ev = max (UnixMilli at) (st_LastEventTimeUnixMS st + 1)
           \<and> eng_states e' service = Some st' \<and> st_Availability st' = StateUp \<and> \<not> st_AwaitingSIP st'
           \<and> (\<forall>at' source'. ConfirmReady e' service at' source' = (e', None))
    else ConfirmReady e service at source = (e, None)"
proof -
  have "wrap64 (st_LastEventTimeUnixMS st + 1) = st_LastEventTimeUnixMS st + 1"
    using assms(2) by (intro wrap64_id) (simp_all add: time_ok_def)
  then show ?thesis
    using assms(1) by (auto simp: ConfirmReady_def Let_def)
qed

theorem ConfirmReady_releases_once_witness:
  "\<exists>e' ev. ConfirmReady (Engine_New\<lparr>eng_states := [''a'' \<mapsto> zero_service_state
       \<lparr>st_AwaitingSIP := True, st_Availability := StateDown, st_LastEventTimeUnixMS := 7\<rparr>]\<rparr>) ''a'' 3000000 SourceDNS
     = (e', Some ev) \<and> ev_EventTimeUnixMS ev = 8"
  using ConfirmReady_releases_once [of "Engine_New\<lparr>eng_states := [''a'' \<mapsto> zero_service_state
       \<lparr>st_AwaitingSIP := True, st_Availability := StateDown, st_LastEventTimeUnixMS := 7\<rparr>]\<rparr>" "''a''"
      "zero_service_state\<lparr>st_AwaitingSIP := True, st_Availability := StateDown, st_LastEventTimeUnixMS := 7\<rparr>"
      3000000 SourceDNS]
  by (auto simp: time_ok_def UnixMilli_def)

text \<open>A snapshot with no newer timestamp than a journal transition, right after it, emits nothing, whether the
  transition was accepted or was itself a duplicate.\<close>

lemma recovered_event_not_in_next_snapshot:
  assumes "us_Service s = ev_Service ev"
    and "ms_of_us (us_ActiveEnterTimestampUS s) \<le> ev_EventTimeUnixMS ev"
    and "ms_of_us (us_ActiveExitTimestampUS s) \<le> ev_EventTimeUnixMS ev"
  shows "snd (Apply (fst (ApplyRecovery e ev)) s) = []"
proof -
  have "ev_EventTimeUnixMS ev \<le> st_LastEventTimeUnixMS (state_or_zero (fst (ApplyRecovery e ev)) (us_Service s))"
    using assms(1) by (auto simp: ApplyRecovery_def Let_def state_or_zero_def)
  then have "snapshot_candidates (state_or_zero (fst (ApplyRecovery e ev)) (us_Service s)) s = []"
    using assms(2,3) by (auto simp: snapshot_candidates_def)
  then show ?thesis by (simp add: Apply_def Let_def)
qed

text \<open>C22. Deduplication: once the journal has delivered a transition of a unit, no later snapshot reports it
  again. Over any snapshots, probe answers and further recovered transitions in between, of this unit and of
  others and without a host reboot, every event that a snapshot of the unit yields is strictly newer than
  the recovered one, whether that was accepted or was itself a duplicate. The times are those an \<open>int64\<close>
  holds and the sequence counter does not wrap.\<close>

theorem recovered_event_not_reported_again:
  assumes "engine_inv e" and "headroom e" and "ev_Service ev \<noteq> []" and "0 \<le> ev_EventTimeUnixMS ev"
    and "list_all track_op ops" and "run_ops engine_step e (OpRecovery ev # ops) = (e', evs)"
    and "unat (eng_seq e) + length evs < 2 ^ 64" and "\<forall>x \<in> set evs. time_ok (ev_EventTimeUnixMS x)"
    and "us_Service s = ev_Service ev" and "x \<in> set (snd (Apply e' s))"
  shows "ev_EventTimeUnixMS ev < ev_EventTimeUnixMS x"
proof -
  obtain e1 evs1 evs2 where one: "ApplyRecovery e ev = (e1, evs1)" and rest: "run_ops engine_step e1 ops = (e', evs2)"
    and evs: "evs = evs1 @ evs2"
    using assms(6) by (auto split: prod.splits)
  have t: "track_op (OpRecovery ev)" and step: "engine_step e (OpRecovery ev) = (e1, evs1)"
    using assms(3,4) one by simp_all
  have fit: "unat (eng_seq e) + length evs1 < 2 ^ 64" "unat (eng_seq e1) + length evs2 < 2 ^ 64"
    using assms(7) engine_step_fits [OF track_op_live [OF t] step] by (simp_all add: evs)
  have inv: "engine_inv e1" "headroom e1"
    using engine_step_inv [OF assms(1) track_op_ok [OF t] step fit(1)] step_headroom [OF engine_step_in_order [OF t assms(1,2) step] assms(2)]
      assms(8) by (simp_all add: evs)
  have "ev_EventTimeUnixMS ev \<le> fst (last_info e1 (ev_Service ev))"
    using one by (auto simp: ApplyRecovery_def Let_def last_info_def state_or_zero_def split: if_splits)
  also have "\<dots> \<le> fst (last_info e' (us_Service s))"
    using run_last_mono [OF assms(5) inv rest fit(2)] assms(8,9) by (simp add: evs)
  also have "\<dots> < ev_EventTimeUnixMS x" using Apply_newer assms(10) by simp
  finally show ?thesis .
qed

theorem recovered_event_not_reported_again_witness:
  "list_all (\<lambda>x. 3 < ev_EventTimeUnixMS x) (snd (Apply (fst (ApplyRecovery Engine_New
      \<lparr>ev_Sequence = 0, ev_Service = ''scscf.service'', ev_State = StateDown, ev_EventTimeUnixMS = 3,
       ev_EventTimeMonotonicUS = 0, ev_BootID = ''boot-1'', ev_Source = SourceRecovery,
       ev_SystemdActiveState = ''down'', ev_SystemdSubState = []\<rparr>))
     (sample_snapshot ''active'' 9000 3000)))"
proof -
  let ?ev = "\<lparr>ev_Sequence = 0, ev_Service = ''scscf.service'', ev_State = StateDown, ev_EventTimeUnixMS = 3,
       ev_EventTimeMonotonicUS = 0, ev_BootID = ''boot-1'', ev_Source = SourceRecovery,
       ev_SystemdActiveState = ''down'', ev_SystemdSubState = []\<rparr>"
  obtain e1 evs where a: "ApplyRecovery Engine_New ?ev = (e1, evs)" "map ev_EventTimeUnixMS evs = [3]"
    by (simp add: ApplyRecovery_def Engine_New_def state_or_zero_def zero_service_state_def)
  have h: "engine_inv Engine_New" "headroom Engine_New"
    by (simp_all add: engine_inv_def headroom_def last_info_def time_ok_def engine_eval)
  have l: "length evs = 1" using arg_cong [OF a(2), of length] by simp
  have tm: "\<forall>x \<in> set evs. time_ok (ev_EventTimeUnixMS x)" using a(2) by (auto simp: time_ok_def)
  have run: "run_ops engine_step Engine_New [OpRecovery ?ev] = (e1, evs)" using a(1) by simp
  have "3 < ev_EventTimeUnixMS x" if "x \<in> set (snd (Apply e1 (sample_snapshot ''active'' 9000 3000)))" for x
    using recovered_event_not_reported_again [OF h _ _ _ run, of "sample_snapshot ''active'' 9000 3000" x] that l tm
    by (simp add: sample_snapshot_def Engine_New_def)
  then show ?thesis using a(1) by (simp add: list_all_iff)
qed

text \<open>C20. Host reboot: in whatever order the runtime visits the stored services, exactly those that
  were UP receive one DOWN event each, in that order, stamped with the boot time and the new boot
  identifier; afterwards every stored service carries the new boot identifier and none is UP.\<close>

theorem reboot_marks_exactly_the_up_services:
  assumes "distinct order" and "set order = dom (eng_states e)"
    and "ApplyReboot e order bootID t = (e', evs)"
  shows "map ev_Service evs = filter (up_in e) order
    \<and> (\<forall>ev \<in> set evs. ev_State ev = StateDown \<and> ev_Source ev = SourceHostReboot
          \<and> ev_EventTimeUnixMS ev = UnixMilli t \<and> ev_BootID ev = bootID)
    \<and> dom (eng_states e') = dom (eng_states e)
    \<and> (\<forall>k st. eng_states e' k = Some st \<longrightarrow> st_BootID st = bootID \<and> st_Availability st \<noteq> StateUp)"
proof -
  note eff = fold_reboot_effect [OF assms(1) assms(3) [unfolded ApplyReboot_def]]
  have st: "\<exists>q. eng_states e' k = map_option (rebooted bootID t q) (eng_states e k)" for k
  proof (cases "k \<in> set order")
    case False
    then have "eng_states e k = None" using assms(2) by (simp add: domIff)
    moreover have "eng_states e' k = eng_states e k" using eff False by blast
    ultimately show ?thesis by simp
  qed (use eff in blast)
  have "dom (eng_states e') = dom (eng_states e)"
    using st by (auto simp: dom_def) (metis map_option_is_None option.exhaust_sel option.distinct(1))+
  moreover have "st_BootID s' = bootID \<and> st_Availability s' \<noteq> StateUp" if "eng_states e' k = Some s'" for k s'
    using st [of k] that by (cases "eng_states e k") (auto simp: rebooted_def split: if_splits)
  ultimately show ?thesis using eff by simp
qed

definition sample_boot_engine :: engine where
  "sample_boot_engine = Engine_New\<lparr>eng_states :=
     [''a'' \<mapsto> zero_service_state\<lparr>st_Service := ''a'', st_Availability := StateUp\<rparr>,
      ''b'' \<mapsto> zero_service_state\<lparr>st_Service := ''b'', st_Availability := StateDown\<rparr>]\<rparr>"

theorem reboot_marks_exactly_the_up_services_witness:
  "map ev_Service (snd (ApplyReboot sample_boot_engine [''b'', ''a''] ''new'' 0)) = [''a'']"
  using reboot_marks_exactly_the_up_services [of "[''b'', ''a'']" sample_boot_engine "''new''" 0
      "fst (ApplyReboot sample_boot_engine [''b'', ''a''] ''new'' 0)"
      "snd (ApplyReboot sample_boot_engine [''b'', ''a''] ''new'' 0)"]
  by (auto simp: sample_boot_engine_def up_in_def)

text \<open>Adopting a boot identifier does not silence a reboot: \<open>AdoptBootID\<close> leaves every
  availability as it is, so a following \<open>ApplyReboot\<close> emits exactly the events it would have
  emitted without it. The start-up path that adopts the identifier in order not to republish
  downtime therefore still publishes it.\<close>

lemma adopting_boot_id_does_not_suppress_reboot:
  "snd (ApplyReboot (AdoptBootID e b) order bootID t) = snd (ApplyReboot e order bootID t)"
proof -
  define rel :: "engine \<times> event list \<Rightarrow> engine \<times> event list \<Rightarrow> bool" where
    "rel x y \<longleftrightarrow> snd x = snd y \<and> eng_seq (fst x) = eng_seq (fst y)
       \<and> (\<forall>k. map_option st_Availability (eng_states (fst x) k) = map_option st_Availability (eng_states (fst y) k))"
    for x y
  have step: "rel (reboot_one bootID t k x) (reboot_one bootID t k y)" if "rel x y" for x y k
  proof -
    have k: "map_option st_Availability (eng_states (fst x) k) = map_option st_Availability (eng_states (fst y) k)"
      using that by (simp add: rel_def)
    show ?thesis
      using that k
      by (cases x; cases y; cases "eng_states (fst x) k"; cases "eng_states (fst y) k")
        (auto simp: rel_def reboot_one_def Let_def)
  qed
  have "rel (fold (reboot_one bootID t) order x) (fold (reboot_one bootID t) order y)" if "rel x y" for x y
    using that by (induction order arbitrary: x y) (simp_all del: split_paired_All add: step)
  moreover have "rel (AdoptBootID e b, []) (e, [])"
    by (simp add: rel_def AdoptBootID_def option.map_comp comp_def)
  ultimately show ?thesis by (simp add: rel_def ApplyReboot_def)
qed

end
