(* ===== verification/GoJson.thy ===== *)
theory GoJson
  imports GoStrings
begin

text \<open>
  The part of Go's \<open>encoding/json\<close> that the exporter uses: \<open>Marshal\<close> and \<open>Unmarshal\<close> of structs with
  string, integer and boolean fields, for the event log, the state file, the delivery checkpoints
  and the records of the journal.

  \<open>json_print\<close> is the compact text \<open>Marshal\<close> writes, with its HTML-safe string escapes;
  \<open>json_parse\<close> accepts the syntax the decoder's validity check accepts (white space, all escapes,
  surrogate pairs, the number grammar) and replaces invalid UTF-8 as the decoder does. The parser
  spends one unit of fuel per nested call and is started with the length of its input, which
  \<open>json_roundtrip\<close> shows to be enough for every printed value. Struct fields are matched without
  regard to ASCII case; a value of the wrong type is an error and null leaves a field as it is.
\<close>

datatype json =
    JNull
  | JBool bool
  | JNum string
  | JStr string
  | JArr "json list"
  | JObj "(string \<times> json) list"

section \<open>UTF-8\<close>

abbreviation byte :: "char \<Rightarrow> nat" where
  "byte c \<equiv> of_char c"

definition in_range :: "nat \<Rightarrow> nat \<Rightarrow> char \<Rightarrow> bool" where
  "in_range lo hi c \<longleftrightarrow> lo \<le> byte c \<and> byte c \<le> hi"

text \<open>The length of the well-formed encoding a string begins with; 0 if there is none.\<close>

fun utf8_len :: "string \<Rightarrow> nat" where
  "utf8_len [] = 0"
| "utf8_len (a # s) =
     (if byte a < 0x80 then 1
      else case s of [] \<Rightarrow> 0
      | b # s1 \<Rightarrow>
        if in_range 0xC2 0xDF a then (if in_range 0x80 0xBF b then 2 else 0)
        else case s1 of [] \<Rightarrow> 0
        | c # s2 \<Rightarrow>
          if in_range 0xE0 0xEF a
          then (if in_range (if byte a = 0xE0 then 0xA0 else 0x80) (if byte a = 0xED then 0x9F else 0xBF) b
                   \<and> in_range 0x80 0xBF c then 3 else 0)
          else case s2 of [] \<Rightarrow> 0
          | d # s3 \<Rightarrow>
            if in_range 0xF0 0xF4 a
               \<and> in_range (if byte a = 0xF0 then 0x90 else 0x80) (if byte a = 0xF4 then 0x8F else 0xBF) b
               \<and> in_range 0x80 0xBF c \<and> in_range 0x80 0xBF d
            then 4 else 0)"

definition utf8_of_rune :: "nat \<Rightarrow> string" where
  "utf8_of_rune r =
     (if r < 0x80 then [char_of r]
      else if r < 0x800 then [char_of (0xC0 + r div 0x40), char_of (0x80 + r mod 0x40)]
      else if r < 0x10000
      then [char_of (0xE0 + r div 0x1000), char_of (0x80 + r div 0x40 mod 0x40), char_of (0x80 + r mod 0x40)]
      else [char_of (0xF0 + r div 0x40000), char_of (0x80 + r div 0x1000 mod 0x40),
            char_of (0x80 + r div 0x40 mod 0x40), char_of (0x80 + r mod 0x40)])"

definition rune_error :: string where
  "rune_error = utf8_of_rune 0xFFFD"

section \<open>Printing\<close>

definition hex_char :: "nat \<Rightarrow> char" where
  "hex_char d = (if d < 10 then char_of (48 + d) else char_of (87 + d))"

text \<open>The escape of one ASCII byte.\<close>

definition esc_char :: "char \<Rightarrow> string" where
  "esc_char c =
     (if c = CHR 0x22 then [CHR 0x5C, CHR 0x22]
      else if c = CHR 0x5C then [CHR 0x5C, CHR 0x5C]
      else if c = CHR 0x08 then [CHR 0x5C, CHR ''b'']
      else if c = CHR 0x0C then [CHR 0x5C, CHR ''f'']
      else if c = CHR 0x0A then [CHR 0x5C, CHR ''n'']
      else if c = CHR 0x0D then [CHR 0x5C, CHR ''r'']
      else if c = CHR 0x09 then [CHR 0x5C, CHR ''t'']
      else if byte c < 0x20 \<or> c \<in> {CHR ''<'', CHR ''>'', CHR 0x26}
      then [CHR 0x5C, CHR ''u'', CHR ''0'', CHR ''0'', hex_char (byte c div 16), hex_char (byte c mod 16)]
      else [c])"

function esc_str :: "string \<Rightarrow> string" where
  "esc_str [] = []"
| "esc_str (c # s) =
     (if byte c < 0x80 then esc_char c @ esc_str s
      else let n = utf8_len (c # s) in
        if n = 0 then CHR 0x5C # ''ufffd'' @ esc_str s
        else if take n (c # s) = [CHR 0xE2, CHR 0x80, CHR 0xA8] then CHR 0x5C # ''u2028'' @ esc_str (drop n (c # s))
        else if take n (c # s) = [CHR 0xE2, CHR 0x80, CHR 0xA9] then CHR 0x5C # ''u2029'' @ esc_str (drop n (c # s))
        else take n (c # s) @ esc_str (drop n (c # s)))"
  by pat_completeness auto
termination
  by (relation "measure length") auto

definition print_str :: "string \<Rightarrow> string" where
  "print_str s = CHR 0x22 # esc_str s @ [CHR 0x22]"

fun json_print :: "json \<Rightarrow> string"
  and print_elems :: "json list \<Rightarrow> string"
  and print_members :: "(string \<times> json) list \<Rightarrow> string" where
  "json_print JNull = ''null''"
| "json_print (JBool b) = (if b then ''true'' else ''false'')"
| "json_print (JNum t) = t"
| "json_print (JStr s) = print_str s"
| "json_print (JArr xs) = CHR ''['' # (if xs = [] then '']'' else print_elems xs)"
| "json_print (JObj ms) = CHR 0x7B # (if ms = [] then [CHR 0x7D] else print_members ms)"
| "print_elems [] = []"
| "print_elems (x # xs) = json_print x @ (if xs = [] then '']'' else CHR '','' # print_elems xs)"
| "print_members [] = []"
| "print_members (m # ms) = print_str (fst m) @ CHR '':'' # json_print (snd m)
     @ (if ms = [] then [CHR 0x7D] else CHR '','' # print_members ms)"

section \<open>Parsing\<close>

definition json_ws :: "char \<Rightarrow> bool" where
  "json_ws c \<longleftrightarrow> c \<in> {CHR 0x20, CHR 0x09, CHR 0x0A, CHR 0x0D}"

definition skip_ws :: "string \<Rightarrow> string" where
  "skip_ws s = dropWhile json_ws s"

definition hex_val :: "char \<Rightarrow> nat option" where
  "hex_val c = (if is_digit c then Some (digit_val c)
     else if in_range 97 102 c then Some (byte c - 87)
     else if in_range 65 70 c then Some (byte c - 55) else None)"

text \<open>Four hexadecimal digits and what follows them.\<close>

fun hex4 :: "string \<Rightarrow> (nat \<times> string) option" where
  "hex4 (a # b # c # d # s) =
     (case (hex_val a, hex_val b, hex_val c, hex_val d) of
        (Some w, Some x, Some y, Some z) \<Rightarrow> Some (((w * 16 + x) * 16 + y) * 16 + z, s)
      | _ \<Rightarrow> None)"
| "hex4 _ = None"

text \<open>
  A rune given by \<open>\u\<close> escapes, \<open>s\<close> being the text after the \<open>u\<close>: a surrogate pair is combined, a
  surrogate without its partner is replaced.
\<close>

definition parse_rune :: "string \<Rightarrow> (string \<times> string) option" where
  "parse_rune s =
     (case hex4 s of None \<Rightarrow> None
      | Some (r, s1) \<Rightarrow>
        if 0xD800 \<le> r \<and> r < 0xE000
        then (if r < 0xDC00 \<and> take 2 s1 = [CHR 0x5C, CHR ''u'']
              then (case hex4 (drop 2 s1) of None \<Rightarrow> Some (rune_error, s1)
                    | Some (r2, s2) \<Rightarrow>
                      if 0xDC00 \<le> r2 \<and> r2 < 0xE000
                      then Some (utf8_of_rune (0x10000 + (r - 0xD800) * 0x400 + (r2 - 0xDC00)), s2)
                      else Some (rune_error, s1))
              else Some (rune_error, s1))
        else Some (utf8_of_rune r, s1))"

definition unescape :: "char \<Rightarrow> char option" where
  "unescape c =
     (if c \<in> {CHR 0x22, CHR 0x5C, CHR 0x2F} then Some c
      else if c = CHR ''b'' then Some CHR 0x08
      else if c = CHR ''f'' then Some CHR 0x0C
      else if c = CHR ''n'' then Some CHR 0x0A
      else if c = CHR ''r'' then Some CHR 0x0D
      else if c = CHR ''t'' then Some CHR 0x09 else None)"

definition cons_str :: "string \<Rightarrow> (string \<times> string) option \<Rightarrow> (string \<times> string) option" where
  "cons_str p r = map_option (\<lambda>(v, s). (p @ v, s)) r"

lemma hex4_length: "hex4 s = Some (r, s') \<Longrightarrow> length s' < length s"
  by (cases s rule: hex4.cases) (auto split: option.splits)

lemma parse_rune_length: "parse_rune s = Some (p, s') \<Longrightarrow> length s' < length s"
  by (auto simp: parse_rune_def split: option.splits if_splits dest!: hex4_length)

text \<open>The body of a string, after its opening quote; the result is the value and the rest.\<close>

function parse_str :: "string \<Rightarrow> (string \<times> string) option" where
  "parse_str [] = None"
| "parse_str (c # s) =
     (if c = CHR 0x22 then Some ([], s)
      else if c = CHR 0x5C then
        (case s of [] \<Rightarrow> None
         | e # s1 \<Rightarrow>
           if e = CHR ''u'' then
             (case parse_rune s1 of None \<Rightarrow> None | Some (p, s2) \<Rightarrow> cons_str p (parse_str s2))
           else (case unescape e of None \<Rightarrow> None | Some b \<Rightarrow> cons_str [b] (parse_str s1)))
      else if byte c < 0x20 then None
      else if byte c < 0x80 then cons_str [c] (parse_str s)
      else let n = utf8_len (c # s) in
        if n = 0 then cons_str rune_error (parse_str s)
        else cons_str (take n (c # s)) (parse_str (drop n (c # s))))"
  by pat_completeness auto
termination
  by (relation "measure length") (auto dest: parse_rune_length)

text \<open>A number literal and the rest: an optional minus, no leading zeros, fraction, exponent.\<close>

definition parse_frac :: "string \<Rightarrow> (string \<times> string) option" where
  "parse_frac s =
     (case s of [] \<Rightarrow> Some ([], s)
      | c # r \<Rightarrow> if c \<noteq> CHR ''.'' then Some ([], s)
          else if takeWhile is_digit r = [] then None
          else Some (c # takeWhile is_digit r, dropWhile is_digit r))"

definition parse_exp :: "string \<Rightarrow> (string \<times> string) option" where
  "parse_exp s =
     (case s of [] \<Rightarrow> Some ([], s)
      | c # r \<Rightarrow> if c \<noteq> CHR ''e'' \<and> c \<noteq> CHR ''E'' then Some ([], s)
          else let (sg, r1) = (case r of [] \<Rightarrow> ([], r)
                 | d # r' \<Rightarrow> if d = CHR ''-'' \<or> d = CHR ''+'' then ([d], r') else ([], r))
               in if takeWhile is_digit r1 = [] then None
                  else Some (c # sg @ takeWhile is_digit r1, dropWhile is_digit r1))"

definition parse_num :: "string \<Rightarrow> (string \<times> string) option" where
  "parse_num s =
     (let (m, s1) = (case s of [] \<Rightarrow> ([], s) | c # r \<Rightarrow> if c = CHR ''-'' then ([c], r) else ([], s)) in
      case s1 of [] \<Rightarrow> None
      | c # r \<Rightarrow>
        if \<not> is_digit c then None
        else
          let (i, s2) = (if c = CHR ''0'' then ([c], r) else (takeWhile is_digit s1, dropWhile is_digit s1)) in
          case parse_frac s2 of None \<Rightarrow> None
          | Some (f, s3) \<Rightarrow> (case parse_exp s3 of None \<Rightarrow> None | Some (x, s4) \<Rightarrow> Some (m @ i @ f @ x, s4)))"

definition parse_lit :: "string \<Rightarrow> json \<Rightarrow> string \<Rightarrow> (json \<times> string) option" where
  "parse_lit w j s = (if HasPrefix s w then Some (j, drop (length w) s) else None)"

fun parse_value :: "nat \<Rightarrow> string \<Rightarrow> (json \<times> string) option"
  and parse_elems :: "nat \<Rightarrow> string \<Rightarrow> (json list \<times> string) option"
  and parse_members :: "nat \<Rightarrow> string \<Rightarrow> ((string \<times> json) list \<times> string) option" where
  "parse_value 0 s = None"
| "parse_value (Suc n) s =
     (case skip_ws s of [] \<Rightarrow> None
      | c # r \<Rightarrow>
        if c = CHR 0x22 then map_option (\<lambda>(v, t). (JStr v, t)) (parse_str r)
        else if c = CHR 0x7B then
          (if take 1 (skip_ws r) = [CHR 0x7D] then Some (JObj [], drop 1 (skip_ws r))
           else map_option (\<lambda>(ms, t). (JObj ms, t)) (parse_members n r))
        else if c = CHR ''['' then
          (if take 1 (skip_ws r) = '']'' then Some (JArr [], drop 1 (skip_ws r))
           else map_option (\<lambda>(xs, t). (JArr xs, t)) (parse_elems n r))
        else if c = CHR ''n'' then parse_lit ''null'' JNull (c # r)
        else if c = CHR ''t'' then parse_lit ''true'' (JBool True) (c # r)
        else if c = CHR ''f'' then parse_lit ''false'' (JBool False) (c # r)
        else map_option (\<lambda>(t, u). (JNum t, u)) (parse_num (c # r)))"
| "parse_elems 0 s = None"
| "parse_elems (Suc n) s =
     (case parse_value n s of None \<Rightarrow> None
      | Some (j, r) \<Rightarrow>
        (case skip_ws r of [] \<Rightarrow> None
         | c # t \<Rightarrow> if c = CHR '']'' then Some ([j], t)
            else if c = CHR '','' then map_option (\<lambda>(js, u). (j # js, u)) (parse_elems n t)
            else None))"
| "parse_members 0 s = None"
| "parse_members (Suc n) s =
     (case skip_ws s of [] \<Rightarrow> None
      | q # r \<Rightarrow>
        if q \<noteq> CHR 0x22 then None
        else (case parse_str r of None \<Rightarrow> None
          | Some (k, r1) \<Rightarrow>
            (case skip_ws r1 of [] \<Rightarrow> None
             | cl # r2 \<Rightarrow>
               if cl \<noteq> CHR '':'' then None
               else (case parse_value n r2 of None \<Rightarrow> None
                 | Some (j, r3) \<Rightarrow>
                   (case skip_ws r3 of [] \<Rightarrow> None
                    | c # t \<Rightarrow> if c = CHR 0x7D then Some ([(k, j)], t)
                       else if c = CHR '','' then map_option (\<lambda>(ms, u). ((k, j) # ms, u)) (parse_members n t)
                       else None)))))"

definition json_parse :: "string \<Rightarrow> json option" where
  "json_parse s =
     (case parse_value (length s) s of None \<Rightarrow> None
      | Some (j, r) \<Rightarrow> if skip_ws r = [] then Some j else None)"

section \<open>Round trip\<close>

definition ascii :: "string \<Rightarrow> bool" where
  "ascii s \<longleftrightarrow> list_all (\<lambda>c. byte c < 0x80) s"

definition int_lit :: "string \<Rightarrow> bool" where
  "int_lit t \<longleftrightarrow> (\<exists>i. t = show_int i)"

fun json_ok :: "json \<Rightarrow> bool" where
  "json_ok JNull = True"
| "json_ok (JBool b) = True"
| "json_ok (JNum t) = int_lit t"
| "json_ok (JStr s) = ascii s"
| "json_ok (JArr xs) = list_all json_ok xs"
| "json_ok (JObj ms) = list_all (\<lambda>m. ascii (fst m) \<and> json_ok (snd m)) ms"

lemma hex_val_char: "d < 16 \<Longrightarrow> hex_val (hex_char d) = Some d"
  by (auto simp: hex_val_def hex_char_def is_digit_def digit_val_def in_range_def)

lemma char_of_byte [simp]: "char_of (byte c) = c"
  by simp

lemma hex4_esc:
  assumes "byte c < 0x80"
  shows "hex4 (CHR ''0'' # CHR ''0'' # hex_char (byte c div 16) # hex_char (byte c mod 16) # t)
    = Some (byte c, t)"
proof -
  have z: "hex_val CHR ''0'' = Some 0" by (simp add: hex_val_def is_digit_def digit_val_def)
  have "byte c div 16 < 16" using assms by simp
  then show ?thesis by (simp add: z hex_val_char)
qed

lemma three_cases:
  "(P \<Longrightarrow> R) \<Longrightarrow> (\<not> P \<Longrightarrow> A \<or> B \<Longrightarrow> R) \<Longrightarrow> (\<not> P \<Longrightarrow> \<not> A \<Longrightarrow> \<not> B \<Longrightarrow> R) \<Longrightarrow> R"
  by blast

lemma parse_esc_char:
  assumes "byte c < 0x80"
  shows "parse_str (esc_char c @ t) = cons_str [c] (parse_str t)"
proof -
  consider (named) "c \<in> {CHR 0x22, CHR 0x5C, CHR 0x08, CHR 0x0C, CHR 0x0A, CHR 0x0D, CHR 0x09}"
    | (hex) "c \<notin> {CHR 0x22, CHR 0x5C, CHR 0x08, CHR 0x0C, CHR 0x0A, CHR 0x0D, CHR 0x09}"
        "byte c < 0x20 \<or> c \<in> {CHR ''<'', CHR ''>'', CHR 0x26}"
    | (plain) "c \<notin> {CHR 0x22, CHR 0x5C, CHR 0x08, CHR 0x0C, CHR 0x0A, CHR 0x0D, CHR 0x09}"
        "\<not> byte c < 0x20" "c \<notin> {CHR ''<'', CHR ''>'', CHR 0x26}"
    by (rule three_cases)
  then show ?thesis
  proof cases
    case named
    then show ?thesis by (auto simp: esc_char_def unescape_def)
  next
    case hex
    have rune: "parse_rune (CHR ''0'' # CHR ''0'' # hex_char (byte c div 16) # hex_char (byte c mod 16) # t)
        = Some ([c], t)"
      using assms by (simp add: parse_rune_def hex4_esc utf8_of_rune_def del: hex4.simps)
    have "esc_char c = [CHR 0x5C, CHR ''u'', CHR ''0'', CHR ''0'', hex_char (byte c div 16), hex_char (byte c mod 16)]"
      using hex by (auto simp: esc_char_def)
    then show ?thesis by (simp add: rune)
  next
    case plain
    then have "esc_char c = [c]" by (auto simp: esc_char_def)
    with plain assms show ?thesis by simp
  qed
qed

lemma esc_str_ascii: "ascii s \<Longrightarrow> esc_str s = concat (map esc_char s)"
  by (induction s) (auto simp: ascii_def)

lemma parse_esc_str: "ascii s \<Longrightarrow> parse_str (esc_str s @ CHR 0x22 # t) = Some (s, t)"
proof (induction s)
  case Nil
  then show ?case by simp
next
  case (Cons c s)
  then have c: "byte c < 0x80" and s: "ascii s" by (simp_all add: ascii_def)
  then have "parse_str (esc_str (c # s) @ CHR 0x22 # t) = cons_str [c] (parse_str (esc_str s @ CHR 0x22 # t))"
    by (simp add: parse_esc_char del: parse_str.simps)
  with Cons.IH [OF s] show ?case by (simp add: cons_str_def)
qed

text \<open>What may follow a number so that it ends there.\<close>

definition num_stop :: "string \<Rightarrow> bool" where
  "num_stop r \<longleftrightarrow> (case r of [] \<Rightarrow> True
     | c # _ \<Rightarrow> \<not> is_digit c \<and> c \<noteq> CHR ''.'' \<and> c \<noteq> CHR ''e'' \<and> c \<noteq> CHR ''E'')"

lemma num_stop_simps [simp]:
  "num_stop []" "num_stop (CHR '','' # r)" "num_stop (CHR 0x7D # r)" "num_stop (CHR '']'' # r)"
  by (simp_all add: num_stop_def is_digit_def)

lemma digits_then_stop:
  assumes "list_all is_digit ds" and "num_stop r"
  shows "takeWhile is_digit (ds @ r) = ds" and "dropWhile is_digit (ds @ r) = r"
  using assms by (induction ds) (auto simp: num_stop_def split: list.splits)

lemma frac_exp_stop: "num_stop r \<Longrightarrow> parse_frac r = Some ([], r)" "num_stop r \<Longrightarrow> parse_exp r = Some ([], r)"
  by (auto simp: parse_frac_def parse_exp_def num_stop_def split: list.splits)

lemma parse_num_nat:
  assumes "num_stop r"
  shows "parse_num (show_nat n @ r) = Some (show_nat n, r)"
    and "parse_num (CHR ''-'' # show_nat n @ r) = Some (CHR ''-'' # show_nat n, r)"
proof -
  obtain c ds where cs: "show_nat n = c # ds" by (cases "show_nat n") auto
  have c: "is_digit c" and all: "list_all is_digit (c # ds)"
    using show_nat_digits [of n] cs by simp_all
  then have cm: "c \<noteq> CHR ''-''" by auto
  have zero: "ds = []" if "c = CHR ''0''"
    using that show_nat_leading [of n] cs by (cases "n = 0") (simp_all add: show_nat.simps)
  note stop = digits_then_stop [OF all assms] frac_exp_stop [OF assms]
  show "parse_num (show_nat n @ r) = Some (show_nat n, r)"
    using c cm zero stop by (cases "c = CHR ''0''") (simp_all add: parse_num_def cs)
  show "parse_num (CHR ''-'' # show_nat n @ r) = Some (CHR ''-'' # show_nat n, r)"
    using c cm zero stop by (cases "c = CHR ''0''") (simp_all add: parse_num_def cs)
qed

lemma parse_num_int: "int_lit t \<Longrightarrow> num_stop r \<Longrightarrow> parse_num (t @ r) = Some (t, r)"
  by (auto simp: int_lit_def show_int_def parse_num_nat)

lemma int_lit_hd: "int_lit t \<Longrightarrow> \<exists>c s. t = c # s \<and> (c = CHR ''-'' \<or> is_digit c)"
proof -
  assume "int_lit t"
  then obtain i where t: "t = show_int i" by (auto simp: int_lit_def)
  show ?thesis
    using hd_show_nat [of "nat i"]
    by (cases "show_nat (nat i)") (auto simp: t show_int_def)
qed

lemma json_print_hd:
  assumes "json_ok j"
  shows "\<exists>c s. json_print j = c # s \<and> \<not> json_ws c \<and> c \<noteq> CHR '']''"
proof (cases j)
  case (JNum t)
  with assms have "int_lit t" by simp
  then obtain c s where "t = c # s" "c = CHR ''-'' \<or> is_digit c"
    using int_lit_hd by blast
  then show ?thesis by (auto simp: JNum json_ws_def is_digit_def)
qed (auto simp: print_str_def json_ws_def)

lemma skip_ws_value: "json_ok j \<Longrightarrow> skip_ws (json_print j @ r) = json_print j @ r"
  using json_print_hd [of j] by (auto simp: skip_ws_def)

lemma skip_ws_Cons [simp]: "\<not> json_ws c \<Longrightarrow> skip_ws (c # r) = c # r"
  by (simp add: skip_ws_def)

lemma json_ws_not [simp]:
  "\<not> json_ws CHR 0x22" "\<not> json_ws CHR '',''" "\<not> json_ws CHR '':''" "\<not> json_ws CHR 0x7D" "\<not> json_ws CHR '']''"
  "\<not> json_ws CHR 0x7B" "\<not> json_ws CHR ''[''"
  by (simp_all add: json_ws_def)

lemma parse_value_num:
  assumes "int_lit t" and "num_stop r"
  shows "parse_value (Suc n) (t @ r) = Some (JNum t, r)"
proof -
  obtain c s where t: "t = c # s" and c: "c = CHR ''-'' \<or> is_digit c"
    using int_lit_hd [OF assms(1)] by blast
  have "\<not> json_ws c" and "c \<noteq> CHR 0x22" and "c \<noteq> CHR 0x7B" and "c \<noteq> CHR ''[''"
    and "c \<noteq> CHR ''n''" and "c \<noteq> CHR ''t''" and "c \<noteq> CHR ''f''"
    using c by (auto simp: json_ws_def is_digit_def)
  then show ?thesis
    using parse_num_int [OF assms] by (simp add: t)
qed

lemma parse_value_lit:
  "parse_value (Suc n) (''null'' @ r) = Some (JNull, r)"
  "parse_value (Suc n) (''true'' @ r) = Some (JBool True, r)"
  "parse_value (Suc n) (''false'' @ r) = Some (JBool False, r)"
  by (simp_all add: parse_lit_def HasPrefix_def json_ws_def)

lemma json_print_nonempty: "json_ok j \<Longrightarrow> 0 < length (json_print j)"
  using json_print_hd [of j] by auto

lemma json_roundtrip_mutual:
  shows "json_ok j \<Longrightarrow> length (json_print j) \<le> n \<Longrightarrow> num_stop r \<Longrightarrow>
      parse_value n (json_print j @ r) = Some (j, r)"
    and "list_all json_ok xs \<Longrightarrow> xs \<noteq> [] \<Longrightarrow> length (print_elems xs) \<le> n \<Longrightarrow>
      parse_elems n (print_elems xs @ r) = Some (xs, r)"
    and "list_all (\<lambda>m. ascii (fst m) \<and> json_ok (snd m)) ms \<Longrightarrow> ms \<noteq> [] \<Longrightarrow>
      length (print_members ms) \<le> n \<Longrightarrow> parse_members n (print_members ms @ r) = Some (ms, r)"
proof (induction j and xs and ms arbitrary: n r and n r and n r
    rule: json_print_print_elems_print_members.induct)
  case (3 t)
  then obtain m where "n = Suc m" using json_print_nonempty [of "JNum t"] by (cases n) auto
  with "3.prems" show ?case using parse_value_num by (simp del: parse_value.simps)
next
  case (4 s)
  then obtain m where "n = Suc m" by (cases n) (auto simp: print_str_def)
  with 4 show ?case by (simp add: print_str_def parse_esc_str)
next
  case (5 xs)
  then obtain m where n: "n = Suc m" by (cases n) auto
  show ?case
  proof (cases xs)
    case Nil
    then show ?thesis by (simp add: n)
  next
    case (Cons x ys)
    then have "take 1 (skip_ws (print_elems xs @ r)) \<noteq> '']''"
      using "5.prems"(1) json_print_hd [of x] by (auto simp: skip_ws_def)
    then show ?thesis
      using 5 Cons by (simp add: n)
  qed
next
  case (6 ms)
  then obtain m where n: "n = Suc m" by (cases n) auto
  show ?case
  proof (cases ms)
    case Nil
    then show ?thesis by (simp add: n)
  next
    case (Cons x ys)
    then have "take 1 (skip_ws (print_members ms @ r)) \<noteq> [CHR 0x7D]"
      by (auto simp: print_str_def)
    then show ?thesis
      using 6 Cons by (simp add: n)
  qed
next
  case (8 x xs)
  then obtain m where n: "n = Suc m" using json_print_nonempty [of x] by (cases n) auto
  let ?t = "if xs = [] then CHR '']'' # r else CHR '','' # print_elems xs @ r"
  have "parse_value m (json_print x @ ?t) = Some (x, ?t)"
    using "8.prems" by (intro "8.IH"(1)) (auto simp: n split: if_splits)
  moreover have "xs \<noteq> [] \<Longrightarrow> parse_elems m (print_elems xs @ r) = Some (xs, r)"
    using "8.prems" json_print_nonempty [of x] by (intro "8.IH"(2)) (auto simp: n)
  ultimately show ?case by (cases "xs = []") (simp_all add: n)
next
  case (10 x xs)
  obtain k v where x: "x = (k, v)" by (cases x)
  obtain m where n: "n = Suc m" using "10.prems" by (cases n) (auto simp: print_str_def)
  let ?t = "if xs = [] then CHR 0x7D # r else CHR '','' # print_members xs @ r"
  have "parse_value m (json_print v @ ?t) = Some (v, ?t)"
    using "10.prems" "10.IH"(1) [of m ?t] by (auto simp: n x print_str_def split: if_splits)
  moreover have "xs \<noteq> [] \<Longrightarrow> parse_members m (print_members xs @ r) = Some (xs, r)"
    using "10.prems" by (intro "10.IH"(2)) (auto simp: n)
  moreover have "parse_str (esc_str k @ CHR 0x22 # u) = Some (k, u)" for u
    using "10.prems"(1) x by (intro parse_esc_str) simp
  ultimately show ?case by (cases "xs = []") (simp_all add: n x print_str_def)
next
  case 1
  then obtain m where "n = Suc m" by (cases n) auto
  then show ?case using parse_value_lit(1) by (simp only: json_print.simps)
next
  case (2 b)
  then obtain m where "n = Suc m" by (cases n; cases b) auto
  then show ?case using parse_value_lit(2,3) by (cases b) (simp_all only: json_print.simps if_True if_False)
qed auto

lemma json_roundtrip: "json_ok j \<Longrightarrow> json_parse (json_print j) = Some j"
  using json_roundtrip_mutual(1) [of j "length (json_print j)" "[]"]
  by (simp add: json_parse_def skip_ws_def)

lemma json_roundtrip_line:
  assumes "json_ok j"
  shows "json_parse (json_print j @ [nl]) = Some j"
proof -
  have "num_stop [nl]" by (simp add: num_stop_def nl_def is_digit_def)
  with assms have "parse_value (length (json_print j @ [nl])) (json_print j @ [nl]) = Some (j, [nl])"
    by (intro json_roundtrip_mutual(1)) simp_all
  moreover have "skip_ws [nl] = []" by (simp add: skip_ws_def json_ws_def nl_def)
  ultimately show ?thesis by (simp add: json_parse_def)
qed

section \<open>Structs\<close>

text \<open>
  A struct is described by the names of its fields, each with the assignment of a decoded value;
  \<open>None\<close> is a type error. Members that name no field are ignored.
\<close>

type_synonym 'r json_fields = "(string \<times> (json \<Rightarrow> 'r \<Rightarrow> 'r option)) list"

fun find_field :: "'r json_fields \<Rightarrow> string \<Rightarrow> (json \<Rightarrow> 'r \<Rightarrow> 'r option) option" where
  "find_field [] k = None"
| "find_field ((name, put) # fs) k = (if ToLower name = ToLower k then Some put else find_field fs k)"

fun decode_members :: "'r json_fields \<Rightarrow> (string \<times> json) list \<Rightarrow> 'r \<Rightarrow> 'r option" where
  "decode_members fs [] r = Some r"
| "decode_members fs ((k, j) # ms) r =
     (case find_field fs k of None \<Rightarrow> decode_members fs ms r
      | Some put \<Rightarrow> (case put j r of None \<Rightarrow> None | Some r1 \<Rightarrow> decode_members fs ms r1))"

definition decode_struct :: "'r json_fields \<Rightarrow> 'r \<Rightarrow> json \<Rightarrow> 'r option" where
  "decode_struct fs zero j =
     (case j of JNull \<Rightarrow> Some zero | JObj ms \<Rightarrow> decode_members fs ms zero | _ \<Rightarrow> None)"

definition put_string :: "(string \<Rightarrow> 'r \<Rightarrow> 'r) \<Rightarrow> json \<Rightarrow> 'r \<Rightarrow> 'r option" where
  "put_string upd j r = (case j of JNull \<Rightarrow> Some r | JStr s \<Rightarrow> Some (upd s r) | _ \<Rightarrow> None)"

definition put_bool :: "(bool \<Rightarrow> 'r \<Rightarrow> 'r) \<Rightarrow> json \<Rightarrow> 'r \<Rightarrow> 'r option" where
  "put_bool upd j r = (case j of JNull \<Rightarrow> Some r | JBool b \<Rightarrow> Some (upd b r) | _ \<Rightarrow> None)"

text \<open>An unsigned field of \<open>w\<close> bits: a value that does not fit is an error.\<close>

definition put_uint :: "nat \<Rightarrow> (nat \<Rightarrow> 'r \<Rightarrow> 'r) \<Rightarrow> json \<Rightarrow> 'r \<Rightarrow> 'r option" where
  "put_uint w upd j r =
     (case j of JNull \<Rightarrow> Some r
      | JNum t \<Rightarrow> (case ParseUint64 t of None \<Rightarrow> None | Some n \<Rightarrow> if n < 2 ^ w then Some (upd n r) else None)
      | _ \<Rightarrow> None)"

definition put_int64 :: "(int \<Rightarrow> 'r \<Rightarrow> 'r) \<Rightarrow> json \<Rightarrow> 'r \<Rightarrow> 'r option" where
  "put_int64 upd j r =
     (case j of JNull \<Rightarrow> Some r
      | JNum t \<Rightarrow> (case ParseInt64 t of None \<Rightarrow> None | Some i \<Rightarrow> Some (upd i r))
      | _ \<Rightarrow> None)"

definition json_uint :: "'a::len word \<Rightarrow> json" where
  "json_uint u = JNum (show_nat (unat u))"

definition json_int :: "int \<Rightarrow> json" where
  "json_int i = JNum (show_int i)"

lemma json_ok_num [simp]: "json_ok (json_uint u)" "json_ok (json_int i)"
proof -
  have "show_nat (unat u) = show_int (int (unat u))" by (simp add: show_int_def)
  then show "json_ok (json_uint u)" unfolding json_uint_def json_ok.simps int_lit_def by blast
  show "json_ok (json_int i)" by (auto simp: json_int_def int_lit_def)
qed

lemma unat_64_less: "unat (u :: 64 word) < 2 ^ 64" and unat_8_less: "unat (v :: 8 word) < 2 ^ 8"
  using unsigned_less [of u] unsigned_less [of v] by simp_all

lemma put_uint64_word [simp]:
  "put_uint 64 upd (json_uint (u :: 64 word)) r = Some (upd (unat u) r)"
  using unat_64_less [of u] by (simp add: put_uint_def json_uint_def ParseUint64_show)

lemma put_uint8_word [simp]:
  "put_uint 8 upd (json_uint (u :: 8 word)) r = Some (upd (unat u) r)"
  using unat_8_less [of u] by (simp add: put_uint_def json_uint_def ParseUint64_show)

lemma put_int64_int:
  "- (2 ^ 63) \<le> i \<Longrightarrow> i < 2 ^ 63 \<Longrightarrow> put_int64 upd (json_int i) r = Some (upd i r)"
  by (simp add: put_int64_def json_int_def ParseInt64_show)

lemma put_string_JStr [simp]: "put_string upd (JStr s) r = Some (upd s r)"
  by (simp add: put_string_def)

lemma put_bool_JBool [simp]: "put_bool upd (JBool b) r = Some (upd b r)"
  by (simp add: put_bool_def)

text \<open>Printed text holds no line feed, so one value is one line.\<close>

lemma hex_char_not_nl: "d < 16 \<Longrightarrow> hex_char d \<noteq> CHR 0x0A"
proof
  assume d: "d < 16" and "hex_char d = CHR 0x0A"
  then have "byte (hex_char d) = 10" by simp
  with d show False by (simp add: hex_char_def split: if_splits)
qed

lemma esc_char_no_nl: "byte c < 0x80 \<Longrightarrow> CHR 0x0A \<notin> set (esc_char c)"
proof -
  assume "byte c < 0x80"
  then have "byte c div 16 < 16" by simp
  then have "hex_char (byte c div 16) \<noteq> CHR 0x0A" and "hex_char (byte c mod 16) \<noteq> CHR 0x0A"
    by (simp_all add: hex_char_not_nl)
  then show ?thesis by (auto simp: esc_char_def)
qed

lemma print_str_no_nl: "ascii s \<Longrightarrow> CHR 0x0A \<notin> set (print_str s)"
  by (auto simp: print_str_def esc_str_ascii ascii_def list_all_iff dest!: esc_char_no_nl)

lemma show_int_no_nl: "CHR 0x0A \<notin> set (show_int i)"
proof -
  have "\<not> is_digit CHR 0x0A" by (simp add: is_digit_def)
  then have "CHR 0x0A \<notin> set (show_nat n)" for n
    using show_nat_digits [of n] by (auto simp: list_all_iff)
  then show ?thesis by (simp add: show_int_def)
qed

lemma json_print_no_nl:
  "json_ok j \<Longrightarrow> CHR 0x0A \<notin> set (json_print j)"
  "list_all json_ok xs \<Longrightarrow> CHR 0x0A \<notin> set (print_elems xs)"
  "list_all (\<lambda>m. ascii (fst m) \<and> json_ok (snd m)) ms \<Longrightarrow> CHR 0x0A \<notin> set (print_members ms)"
  by (induction j and xs and ms rule: json_print_print_elems_print_members.induct)
    (auto simp: print_str_no_nl int_lit_def show_int_no_nl)

lemma print_members_last: "ms \<noteq> [] \<Longrightarrow> \<exists>s. print_members ms = s @ [CHR 0x7D]"
  by (induction ms rule: induct_list012) auto

end
