(* ===== verification/WalFile.thy ===== *)
theory WalFile
  imports Model GoJson "HOL-Library.AList"
begin

text \<open>
  The file formats of \<open>internal/wal/wal.go\<close>: the JSON form of events and service states, the reader of
  the event log (\<open>readRecords\<close>, \<open>ReadAll\<close>) and the repair of an interrupted last record (\<open>Repair\<close>).

  A file is the list of its bytes. A read that fails before the end of the file is an argument of the
  reader; lengths and offsets are unbounded, a log file being shorter than \<open>2^63\<close> bytes.
\<close>

section \<open>JSON form of the model\<close>

definition event_json :: "event \<Rightarrow> json" where
  "event_json ev = JObj
     [(''Sequence'', json_uint (ev_Sequence ev)), (''Service'', JStr (ev_Service ev)),
      (''State'', json_uint (ev_State ev)), (''EventTimeUnixMS'', json_int (ev_EventTimeUnixMS ev)),
      (''EventTimeMonotonicUS'', json_uint (ev_EventTimeMonotonicUS ev)), (''BootID'', JStr (ev_BootID ev)),
      (''Source'', json_uint (ev_Source ev)), (''SystemdActiveState'', JStr (ev_SystemdActiveState ev)),
      (''SystemdSubState'', JStr (ev_SystemdSubState ev))]"

definition zero_event :: event where
  "zero_event = \<lparr>ev_Sequence = 0, ev_Service = [], ev_State = 0, ev_EventTimeUnixMS = 0,
     ev_EventTimeMonotonicUS = 0, ev_BootID = [], ev_Source = 0, ev_SystemdActiveState = [],
     ev_SystemdSubState = []\<rparr>"

definition event_fields :: "event json_fields" where
  "event_fields =
     [(''Sequence'', put_uint 64 (\<lambda>n. ev_Sequence_update (\<lambda>_. of_nat n))),
      (''Service'', put_string (\<lambda>s. ev_Service_update (\<lambda>_. s))),
      (''State'', put_uint 8 (\<lambda>n. ev_State_update (\<lambda>_. of_nat n))),
      (''EventTimeUnixMS'', put_int64 (\<lambda>i. ev_EventTimeUnixMS_update (\<lambda>_. i))),
      (''EventTimeMonotonicUS'', put_uint 64 (\<lambda>n. ev_EventTimeMonotonicUS_update (\<lambda>_. of_nat n))),
      (''BootID'', put_string (\<lambda>s. ev_BootID_update (\<lambda>_. s))),
      (''Source'', put_uint 8 (\<lambda>n. ev_Source_update (\<lambda>_. of_nat n))),
      (''SystemdActiveState'', put_string (\<lambda>s. ev_SystemdActiveState_update (\<lambda>_. s))),
      (''SystemdSubState'', put_string (\<lambda>s. ev_SystemdSubState_update (\<lambda>_. s)))]"

text \<open>\<open>json.Marshal(event)\<close> and \<open>json.Unmarshal(payload, &event)\<close>.\<close>

definition marshal_event :: "event \<Rightarrow> string" where
  "marshal_event ev = json_print (event_json ev)"

definition unmarshal_event :: "string \<Rightarrow> event option" where
  "unmarshal_event s = Option.bind (json_parse s) (decode_struct event_fields zero_event)"

definition state_json :: "service_state \<Rightarrow> json" where
  "state_json st = JObj
     [(''Service'', JStr (st_Service st)), (''Availability'', json_uint (st_Availability st)),
      (''ActiveState'', JStr (st_ActiveState st)), (''SubState'', JStr (st_SubState st)),
      (''BootID'', JStr (st_BootID st)),
      (''LastActiveEnterTimestampUS'', json_uint (st_LastActiveEnterTimestampUS st)),
      (''LastActiveExitTimestampUS'', json_uint (st_LastActiveExitTimestampUS st)),
      (''LastActiveEnterMonotonicUS'', json_uint (st_LastActiveEnterMonotonicUS st)),
      (''LastActiveExitMonotonicUS'', json_uint (st_LastActiveExitMonotonicUS st)),
      (''LastEventTimeUnixMS'', json_int (st_LastEventTimeUnixMS st)),
      (''LastEventMonoUS'', json_uint (st_LastEventMonoUS st)),
      (''LastSequence'', json_uint (st_LastSequence st)), (''AwaitingSIP'', JBool (st_AwaitingSIP st))]"

definition state_fields :: "service_state json_fields" where
  "state_fields =
     [(''Service'', put_string (\<lambda>s. st_Service_update (\<lambda>_. s))),
      (''Availability'', put_uint 8 (\<lambda>n. st_Availability_update (\<lambda>_. of_nat n))),
      (''ActiveState'', put_string (\<lambda>s. st_ActiveState_update (\<lambda>_. s))),
      (''SubState'', put_string (\<lambda>s. st_SubState_update (\<lambda>_. s))),
      (''BootID'', put_string (\<lambda>s. st_BootID_update (\<lambda>_. s))),
      (''LastActiveEnterTimestampUS'', put_uint 64 (\<lambda>n. st_LastActiveEnterTimestampUS_update (\<lambda>_. of_nat n))),
      (''LastActiveExitTimestampUS'', put_uint 64 (\<lambda>n. st_LastActiveExitTimestampUS_update (\<lambda>_. of_nat n))),
      (''LastActiveEnterMonotonicUS'', put_uint 64 (\<lambda>n. st_LastActiveEnterMonotonicUS_update (\<lambda>_. of_nat n))),
      (''LastActiveExitMonotonicUS'', put_uint 64 (\<lambda>n. st_LastActiveExitMonotonicUS_update (\<lambda>_. of_nat n))),
      (''LastEventTimeUnixMS'', put_int64 (\<lambda>i. st_LastEventTimeUnixMS_update (\<lambda>_. i))),
      (''LastEventMonoUS'', put_uint 64 (\<lambda>n. st_LastEventMonoUS_update (\<lambda>_. of_nat n))),
      (''LastSequence'', put_uint 64 (\<lambda>n. st_LastSequence_update (\<lambda>_. of_nat n))),
      (''AwaitingSIP'', put_bool (\<lambda>b. st_AwaitingSIP_update (\<lambda>_. b)))]"

text \<open>
  The state map as an association list with distinct keys. \<open>Marshal\<close> writes the keys in ascending
  order; \<open>Unmarshal\<close> stores the members one by one, the last of equal keys winning.
\<close>

type_synonym state_map = "(string \<times> service_state) list"

definition marshal_states :: "state_map \<Rightarrow> string" where
  "marshal_states m = json_print (JObj (map (\<lambda>(k, st). (k, state_json st)) (sort_key fst m)))"

fun decode_states :: "(string \<times> json) list \<Rightarrow> state_map \<Rightarrow> state_map option" where
  "decode_states [] m = Some m"
| "decode_states ((k, j) # ms) m =
     (case decode_struct state_fields zero_service_state j of None \<Rightarrow> None
      | Some st \<Rightarrow> decode_states ms (AList.update k st m))"

text \<open>A Go map that may be nil (\<open>None\<close>): nil is written as \<open>null\<close>, and \<open>null\<close> read as nil.\<close>

definition marshal_state_map :: "state_map option \<Rightarrow> string" where
  "marshal_state_map states = (case states of None \<Rightarrow> ''null'' | Some m \<Rightarrow> marshal_states m)"

definition unmarshal_states :: "string \<Rightarrow> state_map option option" where
  "unmarshal_states s =
     (case json_parse s of Some (JObj ms) \<Rightarrow> map_option Some (decode_states ms [])
      | Some JNull \<Rightarrow> Some None | _ \<Rightarrow> None)"

section \<open>Reading and repairing the event log\<close>

record report =
  rp_SkippedRecords :: nat
  rp_TruncatedBytes :: nat
  rp_StateReset :: bool

definition empty_report :: report where
  "empty_report = \<lparr>rp_SkippedRecords = 0, rp_TruncatedBytes = 0, rp_StateReset = False\<rparr>"

definition Report_Empty :: "report \<Rightarrow> bool" where
  "Report_Empty r \<longleftrightarrow> rp_SkippedRecords r = 0 \<and> rp_TruncatedBytes r = 0 \<and> \<not> rp_StateReset r"

text \<open>
  One complete line, newline included: white space is ignored, anything else is decoded or counted
  as skipped.
\<close>

definition read_line :: "string \<Rightarrow> event list \<times> report \<Rightarrow> event list \<times> report" where
  "read_line line acc =
     (let (events, report) = acc; payload = TrimSpace line in
      if payload = [] then (events, report)
      else case unmarshal_event payload of
          None \<Rightarrow> (events, report\<lparr>rp_SkippedRecords := rp_SkippedRecords report + 1\<rparr>)
        | Some event \<Rightarrow> (events @ [event], report))"

text \<open>
  The loop of \<open>readRecords\<close>: \<open>ReadBytes\<close> yields the text up to the next newline, or what is left when
  the file ends. The third component is the offset behind the last complete line.
\<close>

function read_loop :: "string \<Rightarrow> event list \<times> report \<Rightarrow> nat \<Rightarrow> event list \<times> report \<times> nat" where
  "read_loop s acc complete =
     (let body = takeWhile not_nl s; rest = dropWhile not_nl s in
      if rest = []
      then (fst acc, (if body = [] then snd acc
             else (snd acc)\<lparr>rp_TruncatedBytes := rp_TruncatedBytes (snd acc) + length body\<rparr>), complete)
      else read_loop (tl rest) (read_line (body @ [nl]) acc) (complete + length body + 1))"
  by pat_completeness auto
termination
proof (relation "measure (\<lambda>(s, acc, complete). length s)", goal_cases)
  case (2 s acc complete body rest)
  then have "rest \<noteq> []" and "length rest \<le> length s"
    by (simp_all add: length_dropWhile_le)
  then have "length (tl rest) < length s"
    by (metis diff_less length_greater_0_conv length_tl less_le_trans zero_less_one)
  then show ?case by simp
qed simp

declare read_loop.simps [simp del]

text \<open>
  Errors of the file system calls: a system error number, \<open>io.ErrShortWrite\<close> or any other error. A
  \<open>WalError\<close> is one of them wrapped with \<open>fmt.Errorf("context: %w", err)\<close>.
\<close>

datatype io_error = Errno nat | ErrShortWrite | OtherError string

datatype wal_error = WalError string io_error

text \<open>\<open>readErr\<close> is the error of a read that fails before the end of the file, \<open>None\<close> for \<open>io.EOF\<close>.\<close>

definition readRecords ::
  "string \<Rightarrow> io_error option \<Rightarrow> event list \<times> report \<times> nat \<times> wal_error option" where
  "readRecords content readErr =
     (case read_loop content ([], empty_report) 0 of (events, report, complete) \<Rightarrow>
        (events, report, complete, map_option (WalError ''read WAL'') readErr))"

definition ReadAll :: "string \<Rightarrow> io_error option \<Rightarrow> event list \<times> report \<times> wal_error option" where
  "ReadAll content readErr =
     (case readRecords content readErr of (events, report, _, err) \<Rightarrow> (events, report, err))"

text \<open>
  \<open>Repair\<close> of the file at a path: \<open>None\<close> is a file that does not exist. The result is the report or an
  error, and the file afterwards.
\<close>

definition Repair ::
  "string option \<Rightarrow> io_error option \<Rightarrow> io_error option \<Rightarrow> io_error option
     \<Rightarrow> (report \<times> wal_error option) \<times> string option" where
  "Repair file openErr readErr truncErr =
     (case file of
        None \<Rightarrow> ((empty_report, None), None)
      | Some content \<Rightarrow>
        case openErr of Some e \<Rightarrow> ((empty_report, Some (WalError ''open WAL for repair'' e)), file)
        | None \<Rightarrow>
          case readRecords content readErr of (_, found, complete, err) \<Rightarrow>
            (case err of Some e \<Rightarrow> ((empty_report, Some e), file)
             | None \<Rightarrow>
               let report = empty_report\<lparr>rp_TruncatedBytes := rp_TruncatedBytes found\<rparr> in
               if rp_TruncatedBytes report > 0
               then (case truncErr of
                       Some e \<Rightarrow> ((report, Some (WalError ''truncate interrupted WAL record'' e)), file)
                     | None \<Rightarrow> ((report, None), Some (take complete content)))
               else ((report, None), file)))"


section \<open>Decoding what was encoded\<close>

text \<open>
  Events whose strings are ASCII and whose time is an \<open>int64\<close>. Unit names, boot identifiers and systemd
  states are ASCII; JSON would replace invalid UTF-8.
\<close>

definition wf_event :: "event \<Rightarrow> bool" where
  "wf_event ev \<longleftrightarrow> ascii (ev_Service ev) \<and> ascii (ev_BootID ev) \<and> ascii (ev_SystemdActiveState ev) \<and>
     ascii (ev_SystemdSubState ev) \<and> - (2 ^ 63) \<le> ev_EventTimeUnixMS ev \<and> ev_EventTimeUnixMS ev < 2 ^ 63"

definition wf_state :: "service_state \<Rightarrow> bool" where
  "wf_state st \<longleftrightarrow> ascii (st_Service st) \<and> ascii (st_ActiveState st) \<and> ascii (st_SubState st) \<and>
     ascii (st_BootID st) \<and> - (2 ^ 63) \<le> st_LastEventTimeUnixMS st \<and> st_LastEventTimeUnixMS st < 2 ^ 63"

text \<open>Field names are compared without regard to case; their folded forms are computed once.\<close>

lemma folded_event_names:
  "ToLower ''Sequence'' = ''sequence''"
  "ToLower ''Service'' = ''service''"
  "ToLower ''State'' = ''state''"
  "ToLower ''EventTimeUnixMS'' = ''eventtimeunixms''"
  "ToLower ''EventTimeMonotonicUS'' = ''eventtimemonotonicus''"
  "ToLower ''BootID'' = ''bootid''"
  "ToLower ''Source'' = ''source''"
  "ToLower ''SystemdActiveState'' = ''systemdactivestate''"
  "ToLower ''SystemdSubState'' = ''systemdsubstate''"
  by (simp_all add: ToLower_def ToLower_char_def char_of_eq_iff)

lemma folded_state_names:
  "ToLower ''Availability'' = ''availability''"
  "ToLower ''ActiveState'' = ''activestate''"
  "ToLower ''SubState'' = ''substate''"
  "ToLower ''LastActiveEnterTimestampUS'' = ''lastactiveentertimestampus''"
  "ToLower ''LastActiveExitTimestampUS'' = ''lastactiveexittimestampus''"
  "ToLower ''LastActiveEnterMonotonicUS'' = ''lastactiveentermonotonicus''"
  "ToLower ''LastActiveExitMonotonicUS'' = ''lastactiveexitmonotonicus''"
  "ToLower ''LastEventTimeUnixMS'' = ''lasteventtimeunixms''"
  "ToLower ''LastEventMonoUS'' = ''lasteventmonous''"
  "ToLower ''LastSequence'' = ''lastsequence''"
  "ToLower ''AwaitingSIP'' = ''awaitingsip''"
  by (simp_all add: ToLower_def ToLower_char_def char_of_eq_iff)

lemma ascii_literals [simp]: "ascii [] = True" "ascii (c # s) \<longleftrightarrow> byte c < 0x80 \<and> ascii s"
  by (simp_all add: ascii_def)

lemma event_json_ok: "wf_event ev \<Longrightarrow> json_ok (event_json ev)"
  by (simp add: event_json_def wf_event_def)

lemma state_json_ok: "wf_state st \<Longrightarrow> json_ok (state_json st)"
  by (simp add: state_json_def wf_state_def)

lemma event_decode: "wf_event ev \<Longrightarrow> decode_struct event_fields zero_event (event_json ev) = Some ev"
  by (simp add: decode_struct_def event_json_def event_fields_def put_int64_int wf_event_def
      zero_event_def folded_event_names)

lemma event_roundtrip [wal_simps]: "wf_event ev \<Longrightarrow> unmarshal_event (marshal_event ev) = Some ev"
  by (simp add: unmarshal_event_def marshal_event_def json_roundtrip event_json_ok event_decode)

lemma state_decode: "wf_state st \<Longrightarrow> decode_struct state_fields zero_service_state (state_json st) = Some st"
  by (simp add: decode_struct_def state_json_def state_fields_def put_int64_int wf_state_def
      zero_service_state_def folded_event_names folded_state_names)

section \<open>The state file\<close>

definition wf_states :: "state_map \<Rightarrow> bool" where
  "wf_states m \<longleftrightarrow> distinct (map fst m) \<and> list_all (\<lambda>(k, st). ascii k \<and> wf_state st) m"

lemma update_fresh: "k \<notin> fst ` set m \<Longrightarrow> AList.update k v m = m @ [(k, v)]"
  by (induction m) auto

lemma decode_states_fresh:
  assumes "list_all (\<lambda>(k, st). wf_state st) m" and "distinct (map fst (acc @ m))"
  shows "decode_states (map (\<lambda>(k, st). (k, state_json st)) m) acc = Some (acc @ m)"
  using assms
proof (induction m arbitrary: acc)
  case (Cons x m)
  obtain k st where x: "x = (k, st)" by (cases x)
  have upd: "AList.update k st acc = acc @ [(k, st)]"
    using Cons.prems(2) x by (intro update_fresh) simp
  show ?case
    using Cons.prems Cons.IH [of "acc @ [x]"] x upd by (simp add: state_decode)
qed simp

lemma states_roundtrip [wal_simps]:
  assumes "wf_states m"
  shows "unmarshal_states (marshal_state_map (Some m) @ [nl]) = Some (Some (sort_key fst m))"
proof -
  let ?ms = "map (\<lambda>(k, st). (k, state_json st)) (sort_key fst m)"
  have "json_ok (JObj ?ms)"
    using assms by (auto simp: wf_states_def list_all_iff state_json_ok)
  then have "json_parse (marshal_state_map (Some m) @ [nl]) = Some (JObj ?ms)"
    by (simp only: marshal_state_map_def marshal_states_def option.case json_roundtrip_line)
  moreover have "distinct (map fst (sort_key fst m))"
    using assms by (simp add: wf_states_def distinct_map)
  ultimately show ?thesis
    using assms decode_states_fresh [of "sort_key fst m" "[]"]
    by (simp add: unmarshal_states_def wf_states_def list_all_iff case_prod_beta)
qed

lemma states_roundtrip_map:
  assumes "wf_states m" and "unmarshal_states (marshal_state_map (Some m) @ [nl]) = Some (Some m')"
  shows "map_of m' = map_of m"
proof -
  have "m' = sort_key fst m" using assms states_roundtrip by simp
  moreover have "distinct (map fst (sort_key fst m))" and "distinct (map fst m)"
    using assms(1) by (simp_all add: wf_states_def distinct_map)
  ultimately show ?thesis by (intro map_of_inject_set [THEN iffD2]) simp_all
qed

section \<open>Reading a log\<close>

lemma read_loop_line [wal_simps]:
  assumes "nl \<notin> set b"
  shows "read_loop (b @ nl # r) acc c = read_loop r (read_line (b @ [nl]) acc) (c + length b + 1)"
proof -
  have "takeWhile not_nl (b @ nl # r) = b" and "dropWhile not_nl (b @ nl # r) = nl # r"
    using assms by (auto simp: takeWhile_append dropWhile_append not_nl_def takeWhile_eq_all_conv)
  then show ?thesis by (subst read_loop.simps) (simp add: Let_def)
qed

lemma read_loop_tail [wal_simps]:
  assumes "nl \<notin> set b"
  shows "read_loop b acc c = (fst acc, (if b = [] then snd acc
     else (snd acc)\<lparr>rp_TruncatedBytes := rp_TruncatedBytes (snd acc) + length b\<rparr>), c)"
proof -
  have split: "takeWhile not_nl b = b" "dropWhile not_nl b = []"
    using assms by (auto simp: not_nl_def takeWhile_eq_all_conv)
  show ?thesis unfolding read_loop.simps [of b] Let_def split by simp
qed

lemma read_line_truncated [simp]: "rp_TruncatedBytes (snd (read_line l acc)) = rp_TruncatedBytes (snd acc)"
  by (cases acc) (simp add: read_line_def Let_def split: option.split)

text \<open>
  Every file is a sequence of complete lines and an unterminated tail, and the reader consumes the
  complete part independently of what follows it.
\<close>

lemma read_loop_split:
  "\<exists>b t acc'. s = b @ t \<and> nl \<notin> set t \<and> (b = [] \<or> last b = nl) \<and>
     (\<forall>r. read_loop (b @ r) acc c = read_loop r acc' (c + length b)) \<and>
     rp_TruncatedBytes (snd acc') = rp_TruncatedBytes (snd acc)"
proof (induction "length s" arbitrary: s acc c rule: less_induct)
  case less
  show ?case
  proof (cases "nl \<in> set s")
    case False
    then show ?thesis by (intro exI [of _ "[]"] exI [of _ s] exI [of _ acc]) simp
  next
    case True
    then obtain l r where s: "s = l @ nl # r" and l: "nl \<notin> set l" by (meson split_list_first)
    have "length r < length s" by (simp add: s)
    from less [OF this, of "read_line (l @ [nl]) acc" "c + length l + 1"]
    obtain b t acc' where bt: "r = b @ t" "nl \<notin> set t" "b = [] \<or> last b = nl"
      and rd: "\<And>r'. read_loop (b @ r') (read_line (l @ [nl]) acc) (c + length l + 1)
          = read_loop r' acc' (c + length l + 1 + length b)"
      and tr: "rp_TruncatedBytes (snd acc') = rp_TruncatedBytes (snd acc)"
      unfolding read_line_truncated by metis
    have "read_loop ((l @ nl # b) @ r') acc c = read_loop r' acc' (c + length (l @ nl # b))" for r'
      using rd [of r'] l by (simp add: read_loop_line algebra_simps)
    then show ?thesis
      using bt tr by (intro exI [of _ "l @ nl # b"] exI [of _ t] exI [of _ acc']) (auto simp: s)
  qed
qed

text \<open>The bytes \<open>writeEventLocked\<close> appends for one event, and the log they form.\<close>

definition record_line :: "event \<Rightarrow> string" where
  "record_line ev = marshal_event ev @ [nl]"

definition log_of :: "event list \<Rightarrow> string" where
  "log_of evs = concat (map record_line evs)"

lemma log_of_simps [simp]: "log_of [] = []" "log_of (ev # evs) = record_line ev @ log_of evs"
  "log_of (as @ bs) = log_of as @ log_of bs"
  by (simp_all add: log_of_def)

lemma marshal_no_nl: "wf_event ev \<Longrightarrow> nl \<notin> set (marshal_event ev)"
  unfolding marshal_event_def nl_def by (intro json_print_no_nl(1) event_json_ok)

lemma space_len_braces [simp]:
  "space_len wide_spaces (CHR 0x7B # s) = 0" "space_len (map rev wide_spaces) (CHR 0x7D # s) = 0"
  by (simp_all add: wide_spaces_def HasPrefix_def)

lemma not_space_braces [simp]: "CHR 0x7B \<notin> set ascii_spaces" "CHR 0x7D \<notin> set ascii_spaces" "nl \<in> set ascii_spaces"
  by (simp_all add: ascii_spaces_def nl_def)

lemma TrimSpace_object_line: "TrimSpace (CHR 0x7B # s @ [CHR 0x7D, nl]) = CHR 0x7B # s @ [CHR 0x7D]"
  by (simp add: TrimSpace_def)

lemma marshal_event_braces: "\<exists>s. marshal_event ev = CHR 0x7B # s @ [CHR 0x7D]"
  using print_members_last by (simp add: marshal_event_def event_json_def)

lemma TrimSpace_record: "TrimSpace (record_line ev) = marshal_event ev"
  using marshal_event_braces [of ev] TrimSpace_object_line by (auto simp: record_line_def)

lemma read_line_record [wal_simps]:
  "wf_event ev \<Longrightarrow> read_line (record_line ev) acc = (fst acc @ [ev], snd acc)"
proof -
  assume "wf_event ev"
  moreover have "marshal_event ev \<noteq> []" using marshal_event_braces [of ev] by auto
  ultimately show ?thesis
    by (cases acc) (simp add: read_line_def TrimSpace_record event_roundtrip)
qed

lemma read_loop_record [wal_simps]:
  "wf_event ev \<Longrightarrow> read_loop (record_line ev @ r) acc c
     = read_loop r (fst acc @ [ev], snd acc) (c + length (record_line ev))"
  using read_loop_line [OF marshal_no_nl, of ev r acc c] read_line_record [of ev acc]
  by (simp add: record_line_def)

lemma read_loop_log [wal_simps]:
  "list_all wf_event evs \<Longrightarrow> read_loop (log_of evs @ r) acc c
     = read_loop r (fst acc @ evs, snd acc) (c + length (log_of evs))"
  by (induction evs arbitrary: acc c) (simp_all add: read_loop_record add.assoc)

lemma readRecords_log [wal_simps]:
  assumes "list_all wf_event evs" and "nl \<notin> set t"
  shows "readRecords (log_of evs @ t) None
     = (evs, empty_report\<lparr>rp_TruncatedBytes := length t\<rparr>, length (log_of evs), None)"
  using assms by (simp add: readRecords_def read_loop_log read_loop_tail empty_report_def)

text \<open>A prefix of a log is the log of its first events followed by a part of the next record.\<close>

lemma take_log:
  assumes "list_all wf_event evs"
  shows "\<exists>k t. take n (log_of evs) = log_of (take k evs) @ t \<and> nl \<notin> set t \<and> k \<le> length evs \<and>
     length (log_of (take k evs)) \<le> n \<and> (k < length evs \<longrightarrow> n < length (log_of (take (Suc k) evs)))"
  using assms
proof (induction evs arbitrary: n)
  case Nil
  show ?case by (intro exI [of _ 0] exI [of _ "[]"]) simp
next
  case (Cons ev evs)
  then have no: "nl \<notin> set (marshal_event ev)" by (simp add: marshal_no_nl)
  show ?case
  proof (cases "n < length (record_line ev)")
    case True
    have "take n (log_of (ev # evs)) = take n (marshal_event ev)"
      using True by (simp add: record_line_def)
    moreover have "nl \<notin> set (take n (marshal_event ev))"
      using no by (meson in_set_takeD)
    ultimately show ?thesis
      using True by (intro exI [of _ 0] exI [of _ "take n (marshal_event ev)"]) auto
  next
    case False
    have "list_all wf_event evs" using Cons.prems by simp
    from Cons.IH [OF this, of "n - length (record_line ev)"] obtain k t where
      "take (n - length (record_line ev)) (log_of evs) = log_of (take k evs) @ t" "nl \<notin> set t"
      "k \<le> length evs" "length (log_of (take k evs)) \<le> n - length (record_line ev)"
      "k < length evs \<longrightarrow> n - length (record_line ev) < length (log_of (take (Suc k) evs))"
      by blast
    with False show ?thesis by (intro exI [of _ "Suc k"] exI [of _ t]) auto
  qed
qed

text \<open>The event log file after \<open>Repair\<close>, when no call fails.\<close>

lemma Repair_None [simp]: "Repair None a b c = ((empty_report, None), None)"
  by (simp add: Repair_def)

lemma empty_report_TB: "rp_TruncatedBytes empty_report = 0"
  by (simp add: empty_report_def)

lemma Repair_ok:
  "Repair (Some s) None None None =
     (case readRecords s None of (_, found, complete, _) \<Rightarrow>
       ((empty_report\<lparr>rp_TruncatedBytes := rp_TruncatedBytes found\<rparr>, None),
        Some (if rp_TruncatedBytes found > 0 then take complete s else s)))"
  by (auto simp: Repair_def readRecords_def Let_def split: prod.split)

text \<open>
  What a repair leaves: the complete lines, which decode as before, so that a record appended
  afterwards is decoded too.
\<close>

lemma Repair_lines:
  "\<exists>b t report. s = b @ t \<and> nl \<notin> set t \<and> (b = [] \<or> last b = nl) \<and> rp_TruncatedBytes report = 0 \<and>
     Repair (Some s) None None None = ((empty_report\<lparr>rp_TruncatedBytes := length t\<rparr>, None), Some b) \<and>
     ReadAll s None = (fst (ReadAll s None), report\<lparr>rp_TruncatedBytes := length t\<rparr>, None) \<and>
     (\<forall>r. read_loop (b @ r) ([], empty_report) 0 = read_loop r (fst (ReadAll s None), report) (length b))"
proof -
  obtain b t acc where bt: "s = b @ t" "nl \<notin> set t" "b = [] \<or> last b = nl"
    and rd: "\<And>r. read_loop (b @ r) ([], empty_report) 0 = read_loop r acc (length b)"
    and tr: "rp_TruncatedBytes (snd acc) = 0"
    using read_loop_split [of s "([], empty_report)" 0] by (auto simp: empty_report_TB simp del: split_paired_Ex)
  have s: "readRecords s None = (fst acc, (snd acc)\<lparr>rp_TruncatedBytes := length t\<rparr>, length b, None)"
    using bt tr by (cases "snd acc") (auto simp: readRecords_def rd read_loop_tail)
  then have "ReadAll s None = (fst acc, (snd acc)\<lparr>rp_TruncatedBytes := length t\<rparr>, None)"
    by (simp add: ReadAll_def)
  moreover have "Repair (Some s) None None None = ((empty_report\<lparr>rp_TruncatedBytes := length t\<rparr>, None), Some b)"
    unfolding Repair_ok s using bt(1) by simp
  ultimately show ?thesis
    using bt rd tr by (intro exI [of _ b] exI [of _ t] exI [of _ "snd acc"]) simp
qed

text \<open>C7. Crash consistency of the event log. Whatever prefix of a log written by the exporter survives
  a crash, startup decodes exactly the events whose records are complete, in order, and reports the
  bytes of the interrupted one; Repair cuts the file back to those records, and no complete record is
  lost: the next one does not fit in the surviving bytes.\<close>

theorem crash_prefix_recovers:
  assumes "list_all wf_event evs"
  shows "\<exists>k t. k \<le> length evs \<and> take n (log_of evs) = log_of (take k evs) @ t \<and>
     (k < length evs \<longrightarrow> n < length (log_of (take (Suc k) evs))) \<and>
     ReadAll (take n (log_of evs)) None
       = (take k evs, empty_report\<lparr>rp_TruncatedBytes := length t\<rparr>, None) \<and>
     Repair (Some (take n (log_of evs))) None None None
       = ((empty_report\<lparr>rp_TruncatedBytes := length t\<rparr>, None), Some (log_of (take k evs)))"
proof -
  obtain k t where kt: "take n (log_of evs) = log_of (take k evs) @ t" "nl \<notin> set t" "k \<le> length evs"
    "k < length evs \<longrightarrow> n < length (log_of (take (Suc k) evs))"
    using take_log [OF assms, of n] by blast
  have "list_all wf_event (take k evs)"
    using assms by (metis append_take_drop_id list_all_append)
  from readRecords_log [OF this kt(2)] show ?thesis
    using kt by (intro exI [of _ k] exI [of _ t]) (auto simp: ReadAll_def Repair_ok)
qed

definition sample_event :: event where
  "sample_event = \<lparr>ev_Sequence = 7, ev_Service = ''sshd.service'', ev_State = StateDown,
     ev_EventTimeUnixMS = 1700000000123, ev_EventTimeMonotonicUS = 42, ev_BootID = ''b1'',
     ev_Source = SourceSystemd, ev_SystemdActiveState = ''failed'', ev_SystemdSubState = ''failed''\<rparr>"

lemma wf_sample_event: "wf_event sample_event"
  by (simp add: wf_event_def sample_event_def)

theorem crash_prefix_recovers_witness:
  "\<exists>k t. k \<le> 1 \<and> take 20 (log_of [sample_event]) = log_of (take k [sample_event]) @ t \<and>
     ReadAll (take 20 (log_of [sample_event])) None
       = (take k [sample_event], empty_report\<lparr>rp_TruncatedBytes := length t\<rparr>, None)"
  using crash_prefix_recovers [of "[sample_event]" 20] wf_sample_event by auto

text \<open>C24. Repair never costs a readable record. For every file content whatsoever, the repaired log is
  a prefix of it that ends at a record boundary, decodes to the same events, is left alone by a second
  repair, and a record appended to it is read back as one more event instead of merging with a
  leftover of the interrupted one.\<close>

theorem Repair_keeps_events_and_boundary:
  assumes "Repair (Some s) None None None = (res, Some s')" and "wf_event ev"
  shows "prefix s' s \<and> (s' = [] \<or> last s' = nl) \<and>
     fst (ReadAll s' None) = fst (ReadAll s None) \<and>
     Repair (Some s') None None None = ((empty_report, None), Some s') \<and>
     fst (ReadAll (s' @ record_line ev) None) = fst (ReadAll s None) @ [ev]"
proof -
  obtain b t report where s: "s = b @ t" "b = [] \<or> last b = nl" "rp_TruncatedBytes report = 0"
    "Repair (Some s) None None None = ((empty_report\<lparr>rp_TruncatedBytes := length t\<rparr>, None), Some b)"
    and rd: "\<And>r. read_loop (b @ r) ([], empty_report) 0 = read_loop r (fst (ReadAll s None), report) (length b)"
    using Repair_lines [of s] by blast
  have b: "s' = b" using assms(1) s(4) by simp
  have rb: "readRecords b None = (fst (ReadAll s None), report, length b, None)"
    using rd [of "[]"] by (simp add: readRecords_def read_loop_tail)
  have "fst (ReadAll (b @ record_line ev) None) = fst (ReadAll s None) @ [ev]"
    using rd [of "record_line ev"] read_loop_record [OF assms(2), of "[]"]
    by (simp add: ReadAll_def readRecords_def read_loop_tail)
  then show ?thesis
    using s rb by (simp add: b Repair_ok ReadAll_def empty_report_def)
qed

theorem Repair_keeps_events_and_boundary_witness:
  "Repair (Some (record_line sample_event @ ''torn'')) None None None
     = ((empty_report\<lparr>rp_TruncatedBytes := 4\<rparr>, None), Some (record_line sample_event)) \<and>
   fst (ReadAll (record_line sample_event @ record_line sample_event) None)
     = fst (ReadAll (record_line sample_event @ ''torn'') None) @ [sample_event]"
proof -
  have "nl \<notin> set ''torn''" by (simp add: nl_def)
  then have "Repair (Some (record_line sample_event @ ''torn'')) None None None
     = ((empty_report\<lparr>rp_TruncatedBytes := 4\<rparr>, None), Some (record_line sample_event))"
    using readRecords_log [of "[sample_event]" "''torn''"] wf_sample_event by (simp add: Repair_ok)
  from this Repair_keeps_events_and_boundary [OF this wf_sample_event] show ?thesis by blast
qed

text \<open>The state file round trip: what writeStateLocked writes, Open decodes to the same map.\<close>

theorem state_file_roundtrip:
  assumes "wf_states m"
  shows "\<exists>m'. unmarshal_states (marshal_state_map (Some m) @ [nl]) = Some (Some m') \<and> map_of m' = map_of m"
  using states_roundtrip [OF assms] states_roundtrip_map [OF assms] by blast

definition sample_state :: service_state where
  "sample_state = zero_service_state\<lparr>st_Service := ''sshd.service'', st_Availability := StateUp,
     st_ActiveState := ''active'', st_LastSequence := 3\<rparr>"

theorem state_file_roundtrip_witness:
  "\<exists>m'. unmarshal_states (marshal_state_map (Some [(''sshd.service'', sample_state)]) @ [nl]) = Some (Some m') \<and>
     map_of m' ''sshd.service'' = Some sample_state"
  using state_file_roundtrip [of "[(''sshd.service'', sample_state)]"]
  by (auto simp: wf_states_def wf_state_def sample_state_def zero_service_state_def)

end
