(* ===== verification/Wal.thy ===== *)
theory Wal
  imports WalFile
begin

text \<open>
  The write-ahead log of \<open>internal/wal/wal.go\<close>: \<open>Open\<close>, \<open>Append\<close>, \<open>SaveState\<close> and the calls they make.

  The disk holds \<open>events.jsonl\<close>, \<open>state.json\<close> and \<open>state.json.tmp\<close>. Every system call takes its
  outcome from a queue of its own (\<open>faults\<close>); a call whose queue is used up succeeds. So a theorem about
  all fault queues is a theorem about every pattern of disk failures, and an empty queue is a disk
  that works. \<open>Marshal\<close> of these structures never fails, so its error branches have no counterpart.
  The mutex makes each exported method one step. Log output is not part of the state, but the time of
  the last message is; the two readings of the clock in \<open>block\<close> are one instant, its argument.
\<close>

section \<open>The disk\<close>

text \<open>A write may stop after \<open>n\<close> bytes, with or without an error.\<close>

record faults =
  ft_Seek :: "io_error option list"
  ft_Write :: "(nat \<times> io_error option) option list"
  ft_Sync :: "io_error option list"
  ft_Truncate :: "io_error option list"
  ft_Close :: "io_error option list"
  ft_openWritable :: "io_error option list"
  ft_tmp_Write :: "(nat \<times> io_error option) option list"
  ft_tmp_Sync :: "io_error option list"
  ft_tmp_Close :: "io_error option list"
  ft_Remove_tmp :: "io_error option list"
  ft_Rename :: "io_error option list"
  ft_Remove_path :: "io_error option list"
  ft_dir_Open :: "io_error option list"
  ft_dir_Sync :: "io_error option list"
  ft_dir_Close :: "io_error option list"

definition no_faults :: faults where
  "no_faults = \<lparr>ft_Seek = [], ft_Write = [], ft_Sync = [], ft_Truncate = [], ft_Close = [],
     ft_openWritable = [], ft_tmp_Write = [], ft_tmp_Sync = [], ft_tmp_Close = [], ft_Remove_tmp = [],
     ft_Rename = [], ft_Remove_path = [], ft_dir_Open = [], ft_dir_Sync = [], ft_dir_Close = []\<rparr>"

definition next_out :: "'a option list \<Rightarrow> 'a option" where
  "next_out q = (case q of [] \<Rightarrow> None | x # _ \<Rightarrow> x)"

record disk =
  dk_log :: string
  dk_state :: "string option"
  dk_tmp :: "string option"
  dk_faults :: faults

text \<open>Bytes written and the error of a \<open>Write(payload)\<close> with the given outcome.\<close>

definition write_result :: "(nat \<times> io_error option) option \<Rightarrow> string \<Rightarrow> nat \<times> io_error option" where
  "write_result out payload =
     (case out of None \<Rightarrow> (length payload, None) | Some (n, err) \<Rightarrow> (min n (length payload), err))"

section \<open>The WAL and its operations\<close>

text \<open>\<open>states\<close> is a Go map: \<open>None\<close> is the nil map, which a state file holding \<open>null\<close> leaves behind.\<close>

record wal =
  w_file :: bool
  w_fsync :: bool
  w_disk :: disk
  w_states :: "state_map option"
  w_repaired :: report
  w_pending :: "event list"
  w_stateDirty :: bool
  w_syncNeeded :: bool
  w_blocked :: bool
  w_lastLog :: go_time

abbreviation w_log :: "wal \<Rightarrow> string" where
  "w_log w \<equiv> dk_log (w_disk w)"

abbreviation w_faults :: "wal \<Rightarrow> faults" where
  "w_faults w \<equiv> dk_faults (w_disk w)"

abbreviation upd_disk :: "(disk \<Rightarrow> disk) \<Rightarrow> wal \<Rightarrow> wal" where
  "upd_disk f w \<equiv> w\<lparr>w_disk := f (w_disk w)\<rparr>"

abbreviation upd_faults :: "(faults \<Rightarrow> faults) \<Rightarrow> wal \<Rightarrow> wal" where
  "upd_faults f w \<equiv> upd_disk (\<lambda>d. d\<lparr>dk_faults := f (dk_faults d)\<rparr>) w"

text \<open>
  \<open>Open(dir, fsync)\<close>. \<open>log\<close> and \<open>state\<close> are the two files found, \<open>None\<close> when absent, and \<open>mkdirErr\<close> to
  \<open>stateErr\<close> the outcomes of the calls in their order; \<open>stateErr\<close> is an error of reading an existing
  state file.
\<close>

definition Open ::
  "disk \<Rightarrow> bool \<Rightarrow> string option \<Rightarrow> io_error option \<Rightarrow> io_error option \<times> io_error option \<times> io_error option
     \<Rightarrow> io_error option \<Rightarrow> io_error option \<Rightarrow> wal_error + wal" where
  "Open disk fsync log mkdirErr repairErrs openErr stateErr =
     (case mkdirErr of Some e \<Rightarrow> Inl (WalError ''create WAL directory'' e)
      | None \<Rightarrow>
        case repairErrs of (e1, e2, e3) \<Rightarrow>
        (case Repair log e1 e2 e3 of ((report, err), log') \<Rightarrow>
          (case err of Some e \<Rightarrow> Inl e
           | None \<Rightarrow>
             case openErr of Some e \<Rightarrow> Inl (WalError ''open WAL'' e)
             | None \<Rightarrow>
               let w = \<lparr>w_file = True, w_fsync = fsync,
                        w_disk = disk\<lparr>dk_log := (case log' of None \<Rightarrow> [] | Some s \<Rightarrow> s)\<rparr>,
                        w_states = Some [], w_repaired = report, w_pending = [], w_stateDirty = False,
                        w_syncNeeded = False, w_blocked = False, w_lastLog = zero_time\<rparr>
               in case dk_state disk of None \<Rightarrow> Inr w
                  | Some stateData \<Rightarrow>
                    (case stateErr of Some e \<Rightarrow> Inl (WalError ''read WAL state'' e)
                     | None \<Rightarrow>
                       (case unmarshal_states stateData of
                          None \<Rightarrow> Inr (w\<lparr>w_states := Some [], w_repaired := report\<lparr>rp_StateReset := True\<rparr>\<rparr>)
                        | Some m \<Rightarrow> Inr (w\<lparr>w_states := m\<rparr>))))))"

definition Repaired :: "wal \<Rightarrow> report" where
  "Repaired w = w_repaired w"

definition Writable :: "wal \<Rightarrow> bool" where
  "Writable w \<longleftrightarrow> \<not> w_blocked w"

definition Pending :: "wal \<Rightarrow> nat" where
  "Pending w = length (w_pending w)"

definition remember :: "event \<Rightarrow> wal \<Rightarrow> wal" where
  "remember ev w = w\<lparr>w_pending := w_pending w @ [ev]\<rparr>"

definition block :: "go_time \<Rightarrow> wal \<Rightarrow> wal" where
  "block now w =
     (let w1 = w\<lparr>w_blocked := True\<rparr> in
      if now - w_lastLog w1 < Minute then w1 else w1\<lparr>w_lastLog := now\<rparr>)"

definition unblock :: "wal \<Rightarrow> wal" where
  "unblock w = (if \<not> w_blocked w then w else w\<lparr>w_blocked := False\<rparr>)"

fun isNoSpace :: "wal_error \<Rightarrow> bool" where
  "isNoSpace (WalError _ (Errno n)) \<longleftrightarrow> n = 28 \<or> n = 122"
| "isNoSpace (WalError _ _) \<longleftrightarrow> False"

definition file_Sync :: "wal \<Rightarrow> io_error option \<times> wal" where
  "file_Sync w = (next_out (ft_Sync (w_faults w)), upd_faults (\<lambda>f. f\<lparr>ft_Sync := tl (ft_Sync f)\<rparr>) w)"

definition file_Seek :: "wal \<Rightarrow> io_error option \<times> nat \<times> wal" where
  "file_Seek w = (next_out (ft_Seek (w_faults w)), length (w_log w),
     upd_faults (\<lambda>f. f\<lparr>ft_Seek := tl (ft_Seek f)\<rparr>) w)"

definition file_Write :: "string \<Rightarrow> wal \<Rightarrow> (nat \<times> io_error option) \<times> wal" where
  "file_Write payload w =
     (let (n, err) = write_result (next_out (ft_Write (w_faults w))) payload in
      ((n, err), upd_disk (\<lambda>d. d\<lparr>dk_log := dk_log d @ take n payload,
                                dk_faults := (dk_faults d)\<lparr>ft_Write := tl (ft_Write (dk_faults d))\<rparr>\<rparr>) w))"

definition file_Truncate :: "nat \<Rightarrow> wal \<Rightarrow> io_error option \<times> wal" where
  "file_Truncate offset w =
     (let err = next_out (ft_Truncate (w_faults w)) in
      (err, upd_disk (\<lambda>d. d\<lparr>dk_log := (if err = None then take offset (dk_log d) else dk_log d),
                           dk_faults := (dk_faults d)\<lparr>ft_Truncate := tl (ft_Truncate (dk_faults d))\<rparr>\<rparr>) w))"

definition appendRecord :: "string \<Rightarrow> wal \<Rightarrow> wal_error option \<times> wal" where
  "appendRecord payload w =
     (case file_Seek w of (seekErr, offset, w1) \<Rightarrow>
        case seekErr of Some e \<Rightarrow> (Some (WalError ''seek WAL'' e), w1)
        | None \<Rightarrow>
          (case file_Write payload w1 of ((n, err), w2) \<Rightarrow>
             if err \<noteq> None \<or> n \<noteq> length payload
             then (Some (WalError ''write WAL'' (case err of None \<Rightarrow> ErrShortWrite | Some e \<Rightarrow> e)),
                   if n > 0 then snd (file_Truncate offset w2) else w2)
             else (None, w2)))"

definition writeEventLocked :: "event \<Rightarrow> wal \<Rightarrow> wal_error option \<times> wal" where
  "writeEventLocked ev w =
     (case appendRecord (marshal_event ev @ [nl]) w of (err, w1) \<Rightarrow>
        case err of Some e \<Rightarrow> (Some e, w1)
        | None \<Rightarrow>
          if w_fsync w1
          then (case file_Sync w1 of (serr, w2) \<Rightarrow>
                  case serr of Some e \<Rightarrow> (Some (WalError ''sync WAL'' e), w2\<lparr>w_syncNeeded := True\<rparr>)
                  | None \<Rightarrow> (None, w2))
          else (None, w1))"

text \<open>
  \<open>writeStateLocked\<close>: the new state goes to the temporary file, which is renamed over \<open>state.json\<close>. The
  removal of the destination after a failed rename ignores a missing file (error number 2).
\<close>

definition Remove_tmp :: "wal \<Rightarrow> wal" where
  "Remove_tmp w =
     (let err = next_out (ft_Remove_tmp (w_faults w)) in
      upd_disk (\<lambda>d. d\<lparr>dk_tmp := (if err = None then None else dk_tmp d),
                     dk_faults := (dk_faults d)\<lparr>ft_Remove_tmp := tl (ft_Remove_tmp (dk_faults d))\<rparr>\<rparr>) w)"

definition openWritable :: "wal \<Rightarrow> io_error option \<times> wal" where
  "openWritable w =
     (let err = next_out (ft_openWritable (w_faults w)) in
      (err, upd_disk (\<lambda>d. d\<lparr>dk_tmp := (if err = None then Some [] else dk_tmp d),
          dk_faults := (dk_faults d)\<lparr>ft_openWritable := tl (ft_openWritable (dk_faults d))\<rparr>\<rparr>) w))"

definition tmp_Write :: "string \<Rightarrow> wal \<Rightarrow> (nat \<times> io_error option) \<times> wal" where
  "tmp_Write payload w =
     (let (n, err) = write_result (next_out (ft_tmp_Write (w_faults w))) payload in
      ((n, err), upd_disk (\<lambda>d. d\<lparr>dk_tmp := Some (take n payload),
          dk_faults := (dk_faults d)\<lparr>ft_tmp_Write := tl (ft_tmp_Write (dk_faults d))\<rparr>\<rparr>) w))"

definition tmp_Sync :: "wal \<Rightarrow> io_error option \<times> wal" where
  "tmp_Sync w = (next_out (ft_tmp_Sync (w_faults w)), upd_faults (\<lambda>f. f\<lparr>ft_tmp_Sync := tl (ft_tmp_Sync f)\<rparr>) w)"

definition tmp_Close :: "wal \<Rightarrow> io_error option \<times> wal" where
  "tmp_Close w = (next_out (ft_tmp_Close (w_faults w)), upd_faults (\<lambda>f. f\<lparr>ft_tmp_Close := tl (ft_tmp_Close f)\<rparr>) w)"

definition Rename :: "wal \<Rightarrow> io_error option \<times> wal" where
  "Rename w =
     (let err = next_out (ft_Rename (w_faults w)) in
      (err, upd_disk (\<lambda>d. d\<lparr>dk_state := (if err = None then dk_tmp d else dk_state d),
          dk_tmp := (if err = None then None else dk_tmp d),
          dk_faults := (dk_faults d)\<lparr>ft_Rename := tl (ft_Rename (dk_faults d))\<rparr>\<rparr>) w))"

definition Remove_path :: "wal \<Rightarrow> io_error option \<times> wal" where
  "Remove_path w =
     (let err = (case next_out (ft_Remove_path (w_faults w)) of Some e \<Rightarrow> Some e
                 | None \<Rightarrow> if dk_state (w_disk w) = None then Some (Errno 2) else None) in
      (err, upd_disk (\<lambda>d. d\<lparr>dk_state := (if err = None then None else dk_state d),
          dk_faults := (dk_faults d)\<lparr>ft_Remove_path := tl (ft_Remove_path (dk_faults d))\<rparr>\<rparr>) w))"

definition replace_state :: "wal \<Rightarrow> wal_error option \<times> wal" where
  "replace_state w =
     (case Rename w of (None, w1) \<Rightarrow> (None, w1)
      | (Some err, w1) \<Rightarrow>
        (case Remove_path w1 of (removeErr, w2) \<Rightarrow>
           if removeErr \<noteq> None \<and> removeErr \<noteq> Some (Errno 2)
           then (Some (WalError ''replace WAL state'' err), w2)
           else (case Rename w2 of (None, w3) \<Rightarrow> (None, w3)
                 | (Some err2, w3) \<Rightarrow> (Some (WalError ''rename WAL state'' err2), w3))))"

definition sync_dir :: "wal \<Rightarrow> wal_error option \<times> wal" where
  "sync_dir w =
     (let f = w_faults w; openErr = next_out (ft_dir_Open f); syncErr = next_out (ft_dir_Sync f);
          closeErr = next_out (ft_dir_Close f);
          w1 = upd_faults (\<lambda>f. f\<lparr>ft_dir_Open := tl (ft_dir_Open f)\<rparr>) w;
          w2 = upd_faults (\<lambda>f. f\<lparr>ft_dir_Sync := tl (ft_dir_Sync f)\<rparr>) w1;
          w3 = upd_faults (\<lambda>f. f\<lparr>ft_dir_Close := tl (ft_dir_Close f)\<rparr>) w2
      in case openErr of Some e \<Rightarrow> (Some (WalError ''open WAL state directory'' e), w1)
         | None \<Rightarrow> case syncErr of Some e \<Rightarrow> (Some (WalError ''sync WAL state directory'' e), w3)
         | None \<Rightarrow> case closeErr of Some e \<Rightarrow> (Some (WalError ''close WAL state directory'' e), w3)
         | None \<Rightarrow> (None, w3))"

definition write_tmp :: "string \<Rightarrow> wal \<Rightarrow> wal_error option \<times> wal" where
  "write_tmp payload w =
     (case tmp_Write payload w of ((n, err), w1) \<Rightarrow>
        if err \<noteq> None \<or> n \<noteq> length payload
        then (Some (WalError ''write WAL state'' (case err of None \<Rightarrow> ErrShortWrite | Some e \<Rightarrow> e)),
              Remove_tmp (snd (tmp_Close w1)))
        else
          case (if w_fsync w1 then tmp_Sync w1 else (None, w1)) of
            (Some e, w2) \<Rightarrow> (Some (WalError ''sync WAL state'' e), Remove_tmp (snd (tmp_Close w2)))
          | (None, w2) \<Rightarrow>
            (case tmp_Close w2 of
               (Some e, w3) \<Rightarrow> (Some (WalError ''close WAL state'' e), Remove_tmp w3)
             | (None, w3) \<Rightarrow> (None, w3)))"

definition writeStateLocked :: "wal \<Rightarrow> wal_error option \<times> wal" where
  "writeStateLocked w =
     (case openWritable w of (Some e, w1) \<Rightarrow> (Some (WalError ''open WAL state temporary file'' e), w1)
      | (None, w1) \<Rightarrow>
        (case write_tmp (marshal_state_map (w_states w) @ [nl]) w1 of (Some e, w2) \<Rightarrow> (Some e, w2)
         | (None, w2) \<Rightarrow>
           (case replace_state w2 of (Some e, w3) \<Rightarrow> (Some e, w3)
            | (None, w3) \<Rightarrow> if w_fsync w3 then sync_dir w3 else (None, w3))))"

text \<open>
  The loop of \<open>flushLocked\<close>, on the events that are pending: an event whose record reached the file
  but not the platter leaves the queue too.
\<close>

fun flush_loop :: "event list \<Rightarrow> wal \<Rightarrow> wal_error option \<times> wal" where
  "flush_loop [] w = (None, w)"
| "flush_loop (ev # rest) w =
     (case writeEventLocked ev w of (err, w1) \<Rightarrow>
        let w2 = (if w_syncNeeded w1 then w1\<lparr>w_pending := rest\<rparr> else w1) in
        case err of Some e \<Rightarrow> (Some e, w2)
        | None \<Rightarrow> flush_loop rest (if \<not> w_syncNeeded w2 then w2\<lparr>w_pending := rest\<rparr> else w2))"

text \<open>The pending sync at the start of \<open>flushLocked\<close>.\<close>

definition flush_sync :: "wal \<Rightarrow> wal_error option \<times> wal" where
  "flush_sync w =
     (if w_syncNeeded w
      then (case file_Sync w of (Some e, w1) \<Rightarrow> (Some (WalError ''sync WAL'' e), w1)
            | (None, w1) \<Rightarrow> (None, w1\<lparr>w_syncNeeded := False\<rparr>))
      else (None, w))"

definition flushLocked :: "wal \<Rightarrow> wal_error option \<times> wal" where
  "flushLocked w =
     (case flush_sync w of
        (Some e, w1) \<Rightarrow> (Some e, w1)
      | (None, w1) \<Rightarrow>
        (case flush_loop (w_pending w1) w1 of
           (Some e, w2) \<Rightarrow> (Some e, w2)
         | (None, w2) \<Rightarrow>
           if w_stateDirty w2
           then (case writeStateLocked w2 of (Some e, w3) \<Rightarrow> (Some e, w3)
                 | (None, w3) \<Rightarrow> (None, w3\<lparr>w_stateDirty := False\<rparr>))
           else (None, w2)))"

definition Append :: "event \<Rightarrow> go_time \<Rightarrow> wal \<Rightarrow> wal_error option \<times> wal" where
  "Append ev now w =
     (case flushLocked w of
        (Some err, w1) \<Rightarrow>
          if \<not> isNoSpace err then (Some err, w1) else (None, block now (remember ev w1))
      | (None, w1) \<Rightarrow>
        (case writeEventLocked ev w1 of
           (Some err, w2) \<Rightarrow>
             if \<not> isNoSpace err then (Some err, w2)
             else (None, block now (if \<not> w_syncNeeded w2 then remember ev w2 else w2))
         | (None, w2) \<Rightarrow> (None, unblock w2)))"

definition Close :: "wal \<Rightarrow> io_error option \<times> wal" where
  "Close w =
     (if \<not> w_file w then (None, w)
      else (next_out (ft_Close (w_faults w)), upd_faults (\<lambda>f. f\<lparr>ft_Close := tl (ft_Close f)\<rparr>) w))"

text \<open>\<open>States()\<close>, in the order of the association list; Go's order of a map is arbitrary.\<close>

definition States :: "wal \<Rightarrow> service_state list" where
  "States w = (case w_states w of None \<Rightarrow> [] | Some m \<Rightarrow> map snd m)"

text \<open>\<open>SaveState(state)\<close>; \<open>None\<close> is the panic of an assignment to an entry of a nil map.\<close>

definition SaveState :: "service_state \<Rightarrow> go_time \<Rightarrow> wal \<Rightarrow> (wal_error option \<times> wal) option" where
  "SaveState state now w =
     (case w_states w of None \<Rightarrow> None
      | Some m \<Rightarrow>
        let w0 = w\<lparr>w_states := Some (AList.update (st_Service state) state m), w_stateDirty := True\<rparr> in
        Some (case flushLocked w0 of
                (Some err, w1) \<Rightarrow> if \<not> isNoSpace err then (Some err, w1) else (None, block now w1)
              | (None, w1) \<Rightarrow> (None, unblock w1)))"

section \<open>What every write keeps\<close>

text \<open>No rollback of a partial record fails.\<close>

definition trunc_ok :: "wal \<Rightarrow> bool" where
  "trunc_ok w \<longleftrightarrow> list_all (\<lambda>x. x = None) (ft_Truncate (w_faults w))"

text \<open>The bytes the WAL has taken responsibility for: the log file, then the events waiting in memory.\<close>

definition accepted :: "wal \<Rightarrow> string" where
  "accepted w = w_log w @ log_of (w_pending w)"

text \<open>What writing events leaves alone: all but the log file, the queue and the sync mark.\<close>

definition frame where
  "frame w = (w_file w, w_fsync w, w_states w, w_repaired w, w_stateDirty w, w_blocked w, w_lastLog w,
     dk_state (w_disk w), dk_tmp (w_disk w), ft_Rename (w_faults w))"

lemma next_out_ok: "list_all (\<lambda>x. x = None) q \<Longrightarrow> next_out q = None"
  by (cases q) (simp_all add: next_out_def)

lemma list_all_tl: "list_all P q \<Longrightarrow> list_all P (tl q)"
  by (cases q) simp_all

lemma write_result_cases:
  "write_result out p = (n, err) \<Longrightarrow> n \<le> length p \<and> (out = None \<longrightarrow> n = length p \<and> err = None)"
  by (auto simp: write_result_def split: option.splits)

lemma appendRecord_effect:
  assumes "appendRecord p w = (e, w')" and "trunc_ok w"
  shows "w_log w' = (if e = None then w_log w @ p else w_log w) \<and> trunc_ok w' \<and>
     frame w' = frame w \<and> w_pending w' = w_pending w \<and> w_syncNeeded w' = w_syncNeeded w"
proof -
  have "next_out (ft_Truncate (w_faults w)) = None" and "list_all (\<lambda>x. x = None) (tl (ft_Truncate (w_faults w)))"
    using assms(2) by (simp_all add: trunc_ok_def next_out_ok list_all_tl)
  then show ?thesis
    using assms
    by (auto simp: appendRecord_def file_Seek_def file_Write_def file_Truncate_def trunc_ok_def frame_def Let_def
        split: option.splits prod.splits if_splits)
qed

lemma file_Sync_effect:
  "file_Sync w = (e, w') \<Longrightarrow> frame w' = frame w \<and> w_pending w' = w_pending w \<and>
     w_syncNeeded w' = w_syncNeeded w \<and> w_log w' = w_log w \<and> trunc_ok w' = trunc_ok w"
  by (auto simp: file_Sync_def frame_def trunc_ok_def)

lemma mark_frame [simp]:
  "frame (w\<lparr>w_syncNeeded := b\<rparr>) = frame w" "trunc_ok (w\<lparr>w_syncNeeded := b\<rparr>) = trunc_ok w"
  "frame (w\<lparr>w_pending := q\<rparr>) = frame w" "trunc_ok (w\<lparr>w_pending := q\<rparr>) = trunc_ok w"
  by (simp_all add: frame_def trunc_ok_def)

lemma writeEventLocked_effect:
  assumes "writeEventLocked ev w = (e, w')" and "trunc_ok w"
  shows "trunc_ok w' \<and> frame w' = frame w \<and> w_pending w' = w_pending w \<and>
     (e = None \<longrightarrow> w_log w' = w_log w @ record_line ev \<and> w_syncNeeded w' = w_syncNeeded w) \<and>
     (e \<noteq> None \<longrightarrow> w_log w' = w_log w \<and> w_syncNeeded w' = w_syncNeeded w \<or>
        w_log w' = w_log w @ record_line ev \<and> w_syncNeeded w')"
proof -
  obtain e1 w1 where app: "appendRecord (marshal_event ev @ [nl]) w = (e1, w1)"
    by (cases "appendRecord (marshal_event ev @ [nl]) w")
  obtain e2 w2 where sy: "file_Sync w1 = (e2, w2)" by (cases "file_Sync w1")
  have "(e, w') = (case e1 of Some err \<Rightarrow> (Some err, w1) | None \<Rightarrow> if w_fsync w1
      then (case e2 of Some err \<Rightarrow> (Some (WalError ''sync WAL'' err), w2\<lparr>w_syncNeeded := True\<rparr>)
            | None \<Rightarrow> (None, w2)) else (None, w1))"
    using assms(1) by (cases e1) (auto simp: writeEventLocked_def app sy)
  then show ?thesis
    using appendRecord_effect [OF app assms(2)] file_Sync_effect [OF sy]
    by (cases e1; cases e2; cases "w_fsync w1") (simp_all add: record_line_def)
qed

lemma flush_loop_effect:
  assumes "flush_loop evs w = (e, w')" and "w_pending w = evs" and "\<not> w_syncNeeded w" and "trunc_ok w"
  shows "accepted w' = accepted w \<and> trunc_ok w' \<and> suffix (w_pending w') evs \<and>
     (e = None \<longrightarrow> w_pending w' = [] \<and> \<not> w_syncNeeded w') \<and> frame w' = frame w"
  using assms
proof (induction evs w arbitrary: e w' rule: flush_loop.induct)
  case (1 w)
  then show ?case by (auto simp: accepted_def)
next
  case (2 ev rest w)
  obtain e1 w1 where wr: "writeEventLocked ev w = (e1, w1)" by (cases "writeEventLocked ev w")
  note eff = writeEventLocked_effect [OF wr "2.prems"(4)]
  show ?case
  proof (cases e1)
    case (Some err)
    then show ?thesis
      using eff "2.prems" wr by (auto simp: accepted_def suffix_def split: if_splits)
  next
    case None
    let ?w2 = "w1\<lparr>w_pending := rest\<rparr>"
    have "flush_loop rest ?w2 = (e, w')"
      using "2.prems" wr None eff by simp
    moreover have "trunc_ok ?w2" and "\<not> w_syncNeeded ?w2" and "accepted ?w2 = accepted w"
      using eff None "2.prems" by (simp_all add: accepted_def)
    ultimately show ?thesis
      using "2.IH" [OF wr [symmetric] refl None, of e w'] eff "2.prems" None
      by (auto simp: suffix_Cons)
  qed
qed

text \<open>What writing the state file leaves alone.\<close>

definition state_frame where
  "state_frame w = (w_file w, w_fsync w, w_states w, w_repaired w, w_pending w, w_stateDirty w,
     w_syncNeeded w, w_blocked w, w_lastLog w, w_log w, ft_Truncate (w_faults w))"

definition rename_ok :: "wal \<Rightarrow> bool" where
  "rename_ok w \<longleftrightarrow> list_all (\<lambda>x. x = None) (ft_Rename (w_faults w))"

abbreviation state_payload :: "wal \<Rightarrow> string" where
  "state_payload w \<equiv> marshal_state_map (w_states w) @ [nl]"

lemma openWritable_effect:
  "openWritable w = (e, w1) \<Longrightarrow> state_frame w1 = state_frame w \<and> dk_state (w_disk w1) = dk_state (w_disk w) \<and>
     ft_Rename (w_faults w1) = ft_Rename (w_faults w)"
  by (auto simp: openWritable_def state_frame_def Let_def)

lemma tmp_ops_effect:
  "state_frame (snd (tmp_Close w)) = state_frame w" "dk_state (w_disk (snd (tmp_Close w))) = dk_state (w_disk w)"
  "ft_Rename (w_faults (snd (tmp_Close w))) = ft_Rename (w_faults w)"
  "dk_tmp (w_disk (snd (tmp_Close w))) = dk_tmp (w_disk w)"
  "state_frame (Remove_tmp w) = state_frame w" "dk_state (w_disk (Remove_tmp w)) = dk_state (w_disk w)"
  "ft_Rename (w_faults (Remove_tmp w)) = ft_Rename (w_faults w)"
  by (simp_all add: tmp_Close_def Remove_tmp_def state_frame_def Let_def)

lemma write_tmp_effect:
  assumes "write_tmp p w = (e, w1)"
  shows "state_frame w1 = state_frame w \<and> dk_state (w_disk w1) = dk_state (w_disk w) \<and>
     ft_Rename (w_faults w1) = ft_Rename (w_faults w) \<and> (e = None \<longrightarrow> dk_tmp (w_disk w1) = Some p)"
  using assms unfolding write_tmp_def tmp_Write_def tmp_Sync_def
  by (auto simp: tmp_ops_effect Let_def split: prod.splits option.splits if_splits)
    (auto simp: state_frame_def tmp_Close_def Remove_tmp_def Let_def)

lemma replace_state_effect:
  assumes "replace_state w = (e, w1)"
  shows "state_frame w1 = state_frame w \<and> (e = None \<longrightarrow> dk_state (w_disk w1) = dk_tmp (w_disk w)) \<and>
     (rename_ok w \<longrightarrow> e = None)"
proof -
  have "rename_ok w \<Longrightarrow> next_out (ft_Rename (w_faults w)) = None"
    by (simp add: rename_ok_def next_out_ok)
  then show ?thesis
    using assms unfolding replace_state_def Rename_def Remove_path_def Let_def
    by (auto simp: state_frame_def split: option.splits if_splits)
qed

lemma sync_dir_effect:
  "sync_dir w = (e, w1) \<Longrightarrow> state_frame w1 = state_frame w \<and> dk_state (w_disk w1) = dk_state (w_disk w)"
  by (auto simp: sync_dir_def state_frame_def Let_def split: option.splits)

lemma writeStateLocked_effect:
  assumes "writeStateLocked w = (e, w')"
  shows "state_frame w' = state_frame w \<and>
     (e = None \<longrightarrow> dk_state (w_disk w') = Some (state_payload w)) \<and>
     (rename_ok w \<longrightarrow> dk_state (w_disk w') \<in> {dk_state (w_disk w), Some (state_payload w)})"
proof -
  obtain e1 w1 where o1: "openWritable w = (e1, w1)" by (cases "openWritable w")
  obtain e2 w2 where o2: "write_tmp (state_payload w) w1 = (e2, w2)" by (cases "write_tmp (state_payload w) w1")
  obtain e3 w3 where o3: "replace_state w2 = (e3, w3)" by (cases "replace_state w2")
  obtain e4 w4 where o4: "sync_dir w3 = (e4, w4)" by (cases "sync_dir w3")
  have "rename_ok w2 = rename_ok w"
    using openWritable_effect [OF o1] write_tmp_effect [OF o2] by (simp add: rename_ok_def)
  then show ?thesis
    using assms openWritable_effect [OF o1] write_tmp_effect [OF o2] replace_state_effect [OF o3]
      sync_dir_effect [OF o4]
    by (auto simp: writeStateLocked_def o1 o2 o3 o4 split: option.splits if_splits)
qed

lemma flushLocked_effect:
  assumes "flushLocked w = (e, w')" and "trunc_ok w"
  shows "accepted w' = accepted w \<and> trunc_ok w' \<and> w_states w' = w_states w \<and> w_fsync w' = w_fsync w \<and>
     (e = None \<longrightarrow> w_pending w' = [] \<and> \<not> w_syncNeeded w' \<and> \<not> w_stateDirty w' \<and>
        (w_stateDirty w \<longrightarrow> dk_state (w_disk w') = Some (state_payload w)))"
proof -
  obtain e1 w1 where s1: "flush_sync w = (e1, w1)" by (cases "flush_sync w")
  have w1: "frame w1 = frame w" "accepted w1 = accepted w" "trunc_ok w1" "e1 = None \<longrightarrow> \<not> w_syncNeeded w1"
    using s1 assms(2) unfolding flush_sync_def
    by (auto simp: file_Sync_def frame_def accepted_def trunc_ok_def split: if_splits option.splits)
  obtain e2 w2 where s2: "flush_loop (w_pending w1) w1 = (e2, w2)" by (cases "flush_loop (w_pending w1) w1")
  obtain e3 w3 where s3: "writeStateLocked w2 = (e3, w3)" by (cases "writeStateLocked w2")
  note st = writeStateLocked_effect [OF s3]
  have fl: "flushLocked w = (case e1 of Some e \<Rightarrow> (Some e, w1) | None \<Rightarrow>
      (case e2 of Some e \<Rightarrow> (Some e, w2) | None \<Rightarrow>
        if w_stateDirty w2 then (case e3 of Some e \<Rightarrow> (Some e, w3) | None \<Rightarrow> (None, w3\<lparr>w_stateDirty := False\<rparr>))
        else (None, w2)))"
    unfolding flushLocked_def s1 by (simp add: s2 s3 split: option.split)
  show ?thesis
  proof (cases e1)
    case (Some a)
    then show ?thesis using assms(1) w1 unfolding fl by (auto simp: frame_def)
  next
    case None
    with w1 have "\<not> w_syncNeeded w1" by simp
    note lp = flush_loop_effect [OF s2 refl this w1(3)]
    show ?thesis
      using assms(1) w1 lp st None unfolding fl
      by (auto simp: frame_def state_frame_def accepted_def trunc_ok_def split: option.splits if_splits)
  qed
qed

lemma flushLocked_state:
  assumes "flushLocked w = (e, w')" and "trunc_ok w" and "rename_ok w"
  shows "dk_state (w_disk w') \<in> {dk_state (w_disk w), Some (state_payload w)}"
proof -
  obtain e1 w1 where s1: "flush_sync w = (e1, w1)" by (cases "flush_sync w")
  have w1: "frame w1 = frame w" "trunc_ok w1" "e1 = None \<longrightarrow> \<not> w_syncNeeded w1"
    using s1 assms(2) unfolding flush_sync_def
    by (auto simp: file_Sync_def frame_def trunc_ok_def split: if_splits option.splits)
  obtain e2 w2 where s2: "flush_loop (w_pending w1) w1 = (e2, w2)" by (cases "flush_loop (w_pending w1) w1")
  obtain e3 w3 where s3: "writeStateLocked w2 = (e3, w3)" by (cases "writeStateLocked w2")
  show ?thesis
  proof (cases e1)
    case (Some a)
    then show ?thesis using assms(1) w1 unfolding flushLocked_def s1 by (auto simp: frame_def)
  next
    case None
    then have "frame w2 = frame w" using flush_loop_effect [OF s2 refl _ w1(2)] w1 by simp
    then show ?thesis
      using assms writeStateLocked_effect [OF s3] None unfolding flushLocked_def s1
      by (auto simp: s2 s3 frame_def rename_ok_def split: option.splits if_splits)
  qed
qed

section \<open>The event log as an interface\<close>

text \<open>
  What the exporter relies on: a call that reports success makes the log longer by exactly its event,
  and a call that reports an error adds the event or nothing.
\<close>

locale event_log =
  fixes app :: "event \<Rightarrow> go_time \<Rightarrow> 's \<Rightarrow> 'e option \<times> 's"
    and contents :: "'s \<Rightarrow> event list"
    and ok :: "'s \<Rightarrow> bool"
  assumes append_ok: "ok s \<Longrightarrow> wf_event ev \<Longrightarrow> app ev now s = (e, s') \<Longrightarrow> ok s'"
    and append_contents: "ok s \<Longrightarrow> wf_event ev \<Longrightarrow> app ev now s = (None, s') \<Longrightarrow> contents s' = contents s @ [ev]"
    and append_failed: "ok s \<Longrightarrow> wf_event ev \<Longrightarrow> app ev now s = (Some err, s') \<Longrightarrow>
      contents s' = contents s \<or> contents s' = contents s @ [ev]"

text \<open>Events appended one after the other: those that were acknowledged, and the state reached.\<close>

fun append_all ::
  "(event \<Rightarrow> go_time \<Rightarrow> 's \<Rightarrow> 'e option \<times> 's) \<Rightarrow> (event \<times> go_time) list \<Rightarrow> 's \<Rightarrow> event list \<times> 's" where
  "append_all app [] s = ([], s)"
| "append_all app ((ev, now) # evs) s =
     (case app ev now s of (e, s1) \<Rightarrow>
        case append_all app evs s1 of (acks, s2) \<Rightarrow> (if e = None then ev # acks else acks, s2))"

context event_log
begin

lemma append_all_contents:
  assumes "append_all app evs s = (acks, s')" and "ok s" and "list_all (\<lambda>x. wf_event (fst x)) evs"
  shows "ok s' \<and> (\<exists>ys. contents s' = contents s @ ys \<and> subseq acks ys \<and> subseq ys (map fst evs))"
  using assms
proof (induction evs arbitrary: s acks)
  case (Cons x evs)
  obtain ev now where x: "x = (ev, now)" by (cases x)
  obtain e s1 where a1: "app ev now s = (e, s1)" by (cases "app ev now s")
  obtain acks1 where a2: "append_all app evs s1 = (acks1, s')"
    and acks: "acks = (if e = None then ev # acks1 else acks1)"
    using Cons.prems(1) by (auto simp: x a1 split: prod.splits)
  have wf: "wf_event ev" and wfs: "list_all (\<lambda>x. wf_event (fst x)) evs" using Cons.prems(3) by (simp_all add: x)
  have ok1: "ok s1" using append_ok [OF Cons.prems(2) wf a1] .
  obtain ys where ys: "ok s'" "contents s' = contents s1 @ ys" "subseq acks1 ys" "subseq ys (map fst evs)"
    using Cons.IH [OF a2 ok1 wfs] by blast
  have "contents s1 = contents s @ [ev] \<or> e \<noteq> None \<and> contents s1 = contents s"
    using a1 append_contents [OF Cons.prems(2) wf] append_failed [OF Cons.prems(2) wf] by (cases e) blast+
  then show ?case
    using ys by (elim disjE) (auto simp: x acks subseq_Cons' intro: list_emb_Cons)
qed simp

lemma append_all_acknowledged:
  assumes "append_all app evs s = (map fst evs, s')" and "ok s" and "list_all (\<lambda>x. wf_event (fst x)) evs"
  shows "contents s' = contents s @ map fst evs"
  using append_all_contents [OF assms] by (metis subseq_order.antisym)

end

section \<open>The WAL as an event log\<close>

definition at_boundary :: "string \<Rightarrow> bool" where
  "at_boundary s \<longleftrightarrow> s = [] \<or> last s = nl"

definition wal_events :: "wal \<Rightarrow> event list" where
  "wal_events w = fst (ReadAll (accepted w) None)"

definition wal_ok :: "wal \<Rightarrow> bool" where
  "wal_ok w \<longleftrightarrow> trunc_ok w \<and> at_boundary (accepted w)"

lemma ReadAll_append:
  assumes "at_boundary s" and "wf_event ev"
  shows "fst (ReadAll (s @ record_line ev) None) = fst (ReadAll s None) @ [ev]"
proof -
  obtain b t report where s: "s = b @ t" "nl \<notin> set t"
    and rd: "\<And>r. read_loop (b @ r) ([], empty_report) 0 = read_loop r (fst (ReadAll s None), report) (length b)"
    using Repair_lines [of s] by blast
  have "t = []" using assms(1) s by (cases t rule: rev_cases) (auto simp: at_boundary_def)
  then show ?thesis
    using rd [of "record_line ev"] read_loop_record [OF assms(2), of "[]"] s
    by (simp add: ReadAll_def readRecords_def read_loop_tail)
qed

lemma block_frame [simp]:
  "accepted (block now w) = accepted w" "trunc_ok (block now w) = trunc_ok w" "w_states (block now w) = w_states w"
  "w_disk (block now w) = w_disk w" "w_pending (block now w) = w_pending w" "w_syncNeeded (block now w) = w_syncNeeded w"
  by (simp_all add: block_def accepted_def trunc_ok_def Let_def)

lemma unblock_frame [simp]:
  "accepted (unblock w) = accepted w" "trunc_ok (unblock w) = trunc_ok w" "w_states (unblock w) = w_states w"
  "w_disk (unblock w) = w_disk w" "w_pending (unblock w) = w_pending w" "w_blocked (unblock w) = False"
  by (simp_all add: unblock_def accepted_def trunc_ok_def)

lemma remember_frame [simp]:
  "accepted (remember ev w) = accepted w @ record_line ev" "trunc_ok (remember ev w) = trunc_ok w"
  by (simp_all add: remember_def accepted_def trunc_ok_def)

lemma Append_effect:
  assumes "Append ev now w = (e, w')" and "trunc_ok w"
  shows "trunc_ok w' \<and> (e = None \<longrightarrow> accepted w' = accepted w @ record_line ev) \<and>
     (e \<noteq> None \<longrightarrow> accepted w' = accepted w \<or> accepted w' = accepted w @ record_line ev \<and> w_syncNeeded w')"
proof -
  obtain e1 w1 where f: "flushLocked w = (e1, w1)" by (cases "flushLocked w")
  note fe = flushLocked_effect [OF f assms(2)]
  obtain e2 w2 where g: "writeEventLocked ev w1 = (e2, w2)" by (cases "writeEventLocked ev w1")
  have "trunc_ok w1" using fe by simp
  note ge = writeEventLocked_effect [OF g this]
  show ?thesis
  proof (cases e1)
    case (Some err)
    then show ?thesis using assms(1) fe by (auto simp: Append_def f split: if_splits)
  next
    case None
    with fe have "w_pending w2 = []" "accepted w1 = w_log w1" "\<not> w_syncNeeded w1"
      using ge by (simp_all add: accepted_def)
    then show ?thesis
      using assms(1) fe ge None
      by (auto simp: Append_def f g accepted_def remember_def trunc_ok_def split: option.splits if_splits)
  qed
qed

lemma SaveState_effect:
  assumes "SaveState st now w = Some (e, w')" and "trunc_ok w"
  shows "trunc_ok w' \<and> accepted w' = accepted w \<and>
     (\<exists>m. w_states w = Some m \<and> w_states w' = Some (AList.update (st_Service st) st m))"
proof -
  obtain m where m: "w_states w = Some m" using assms(1) by (cases "w_states w") (simp_all add: SaveState_def)
  define w0 where "w0 = w\<lparr>w_states := Some (AList.update (st_Service st) st m), w_stateDirty := True\<rparr>"
  obtain e1 w1 where f: "flushLocked w0 = (e1, w1)" by (cases "flushLocked w0")
  have w0: "trunc_ok w0" "accepted w0 = accepted w" "w_states w0 = Some (AList.update (st_Service st) st m)"
    using assms(2) by (simp_all add: w0_def trunc_ok_def accepted_def)
  have "(e, w') = (case e1 of Some err \<Rightarrow> if \<not> isNoSpace err then (Some err, w1) else (None, block now w1)
      | None \<Rightarrow> (None, unblock w1))"
    using assms(1) by (simp add: SaveState_def m w0_def [symmetric] f split: option.splits)
  then show ?thesis
    using flushLocked_effect [OF f w0(1)] w0 m by (auto split: option.splits if_splits)
qed

interpretation wal_log: event_log Append wal_events wal_ok
proof
  fix w ev now e w' err
  assume ok: "wal_ok w" and wf: "wf_event ev"
  have nlast: "at_boundary (s @ record_line ev)" for s by (simp add: at_boundary_def record_line_def)
  note eff = Append_effect [of ev now w]
  note rd = ReadAll_append [of "accepted w", OF _ wf]
  show "wal_ok w'" if "Append ev now w = (e, w')"
    using eff [OF that] ok nlast by (cases e) (auto simp: wal_ok_def)
  show "wal_events w' = wal_events w @ [ev]" if "Append ev now w = (None, w')"
    using eff [OF that] ok rd by (simp add: wal_ok_def wal_events_def)
  show "wal_events w' = wal_events w \<or> wal_events w' = wal_events w @ [ev]" if "Append ev now w = (Some err, w')"
    using eff [OF that] ok rd by (auto simp: wal_ok_def wal_events_def)
qed

section \<open>A disk that works, and a disk that is full\<close>

abbreviation only :: "('a \<Rightarrow> bool) \<Rightarrow> 'a option list \<Rightarrow> bool" where
  "only P q \<equiv> list_all (\<lambda>x. case x of None \<Rightarrow> True | Some y \<Rightarrow> P y) q"

abbreviation write_in :: "(io_error \<Rightarrow> bool) \<Rightarrow> nat \<times> io_error option \<Rightarrow> bool" where
  "write_in P r \<equiv> (case snd r of None \<Rightarrow> False | Some e \<Rightarrow> P e)"

text \<open>
  Every fault of a call whose error the code looks at satisfies \<open>P\<close>: with \<open>no_space\<close> the disk may be
  full, with \<open>\<lambda>_. False\<close> it works.
\<close>

definition faults_in :: "(io_error \<Rightarrow> bool) \<Rightarrow> wal \<Rightarrow> bool" where
  "faults_in P w \<longleftrightarrow> (let f = w_faults w in
     only P (ft_Seek f) \<and> only (write_in P) (ft_Write f) \<and> only P (ft_Sync f) \<and>
     only P (ft_openWritable f) \<and> only (write_in P) (ft_tmp_Write f) \<and> only P (ft_tmp_Sync f) \<and>
     only P (ft_tmp_Close f) \<and> only P (ft_Rename f) \<and> only P (ft_dir_Open f) \<and>
     only P (ft_dir_Sync f) \<and> only P (ft_dir_Close f))"

definition no_space :: "io_error \<Rightarrow> bool" where
  "no_space e \<longleftrightarrow> e = Errno 28 \<or> e = Errno 122"

abbreviation working :: "wal \<Rightarrow> bool" where
  "working w \<equiv> faults_in (\<lambda>_. False) w"

definition io_in :: "(io_error \<Rightarrow> bool) \<Rightarrow> io_error option \<Rightarrow> bool" where
  "io_in P e \<longleftrightarrow> (case e of None \<Rightarrow> True | Some c \<Rightarrow> P c)"

definition err_in :: "(io_error \<Rightarrow> bool) \<Rightarrow> wal_error option \<Rightarrow> bool" where
  "err_in P e \<longleftrightarrow> (case e of None \<Rightarrow> True | Some (WalError _ c) \<Rightarrow> P c)"

lemma err_in_simps [simp]: "err_in P None" "err_in P (Some (WalError s c)) = P c" "io_in P None" "io_in P (Some c) = P c"
  by (simp_all add: err_in_def io_in_def)

lemma err_in_no_space: "err_in no_space (Some e) \<Longrightarrow> isNoSpace e"
  by (cases e rule: isNoSpace.cases) (auto simp: no_space_def)

lemma err_in_False: "err_in (\<lambda>_. False) e \<longleftrightarrow> e = None"
  by (cases e) (auto simp: err_in_def split: wal_error.splits)

lemma only_next: "only P q \<Longrightarrow> io_in P (next_out q)"
  by (cases q) (auto simp: next_out_def io_in_def)

lemma only_write: "only (write_in P) q \<Longrightarrow> write_result (next_out q) p = (n, err) \<Longrightarrow>
    err = None \<and> n = length p \<or> (\<exists>e. err = Some e \<and> P e)"
  by (cases q) (auto simp: next_out_def write_result_def split: option.splits)

text \<open>The contract of each system call.\<close>

lemma call_faults:
  assumes "faults_in P w"
  shows "file_Sync w = (e, w') \<Longrightarrow> io_in P e \<and> faults_in P w'"
    and "file_Seek w = (e, k, w') \<Longrightarrow> io_in P e \<and> faults_in P w'"
    and "file_Truncate k w = (e, w') \<Longrightarrow> faults_in P w'"
    and "openWritable w = (e, w') \<Longrightarrow> io_in P e \<and> faults_in P w'"
    and "tmp_Sync w = (e, w') \<Longrightarrow> io_in P e \<and> faults_in P w'"
    and "tmp_Close w = (e, w') \<Longrightarrow> io_in P e \<and> faults_in P w'"
    and "Rename w = (e, w') \<Longrightarrow> io_in P e \<and> faults_in P w'"
    and "Remove_path w = (e, w') \<Longrightarrow> faults_in P w'"
    and "faults_in P (Remove_tmp w)"
    and "faults_in P (w\<lparr>w_syncNeeded := b\<rparr>)" and "faults_in P (w\<lparr>w_pending := q\<rparr>)"
    and "faults_in P (w\<lparr>w_stateDirty := b\<rparr>)" and "faults_in P (w\<lparr>w_states := m\<rparr>)"
  using assms
  by (auto simp: faults_in_def Let_def file_Sync_def file_Seek_def file_Truncate_def openWritable_def
      tmp_Sync_def tmp_Close_def Rename_def Remove_path_def Remove_tmp_def only_next list_all_tl)

lemma write_faults:
  assumes "faults_in P w"
  shows "file_Write p w = ((n, e), w') \<Longrightarrow> (e = None \<and> n = length p \<or> (\<exists>c. e = Some c \<and> P c)) \<and> faults_in P w'"
    and "tmp_Write p w = ((n, e), w') \<Longrightarrow> (e = None \<and> n = length p \<or> (\<exists>c. e = Some c \<and> P c)) \<and> faults_in P w'"
  using assms only_write [of P "ft_Write (w_faults w)" p] only_write [of P "ft_tmp_Write (w_faults w)" p]
  by (auto simp: faults_in_def Let_def file_Write_def tmp_Write_def list_all_tl split: prod.splits)

lemma sync_dir_faults: "faults_in P w \<Longrightarrow> sync_dir w = (e, w') \<Longrightarrow> err_in P e \<and> faults_in P w'"
  using only_next [of P "ft_dir_Open (w_faults w)"] only_next [of P "ft_dir_Sync (w_faults w)"]
    only_next [of P "ft_dir_Close (w_faults w)"]
  by (auto simp: sync_dir_def faults_in_def Let_def list_all_tl split: option.splits)

lemma appendRecord_faults:
  assumes "faults_in P w" and "appendRecord p w = (e, w')"
  shows "err_in P e \<and> faults_in P w'"
proof -
  obtain e1 k w1 where s: "file_Seek w = (e1, k, w1)" by (cases "file_Seek w")
  note s' = call_faults(2) [OF assms(1) s]
  obtain n e2 w2 where wr: "file_Write p w1 = ((n, e2), w2)" by (cases "file_Write p w1") auto
  have w2: "(e2 = None \<and> n = length p \<or> (\<exists>c. e2 = Some c \<and> P c)) \<and> faults_in P w2"
    using write_faults(1) [OF _ wr] s' by blast
  have "faults_in P (snd (file_Truncate k w2))"
    using w2 call_faults(3) [of P w2 k] by (cases "file_Truncate k w2") simp
  then show ?thesis
    using assms(2) s' w2 by (auto simp: appendRecord_def s wr split: option.splits if_splits)
qed

lemma writeEventLocked_faults:
  assumes "faults_in P w" and "writeEventLocked ev w = (e, w')"
  shows "err_in P e \<and> faults_in P w'"
proof -
  obtain e1 w1 where a: "appendRecord (marshal_event ev @ [nl]) w = (e1, w1)"
    by (cases "appendRecord (marshal_event ev @ [nl]) w")
  obtain e2 w2 where s: "file_Sync w1 = (e2, w2)" by (cases "file_Sync w1")
  have w1: "err_in P e1 \<and> faults_in P w1" using appendRecord_faults [OF assms(1) a] .
  moreover have "io_in P e2 \<and> faults_in P w2" using call_faults(1) [OF _ s] w1 by blast
  ultimately show ?thesis
    using assms(2)
    by (auto simp: writeEventLocked_def a s call_faults(10) split: option.splits if_splits)
qed

lemma flush_loop_faults:
  "faults_in P w \<Longrightarrow> flush_loop evs w = (e, w') \<Longrightarrow> err_in P e \<and> faults_in P w'"
proof (induction evs w arbitrary: e w' rule: flush_loop.induct)
  case (2 ev rest w)
  obtain e1 w1 where a: "writeEventLocked ev w = (e1, w1)" by (cases "writeEventLocked ev w")
  have w1: "err_in P e1 \<and> faults_in P w1" using writeEventLocked_faults [OF "2.prems"(1) a] .
  show ?case
  proof (cases e1)
    case None
    have "faults_in P (w1\<lparr>w_pending := rest\<rparr>)" using w1 by (simp add: call_faults(11))
    then show ?thesis
      using "2.IH" [OF a [symmetric] refl None, of e w'] "2.prems"(2)
      by (cases "w_syncNeeded w1") (simp_all add: a None)
  next
    case (Some err)
    then show ?thesis using w1 "2.prems"(2) by (auto simp: a call_faults(11) split: if_splits)
  qed
qed simp

lemma replace_state_faults:
  assumes "faults_in P w" and "replace_state w = (e, w')"
  shows "err_in P e \<and> faults_in P w'"
proof -
  obtain e1 w1 where r1: "Rename w = (e1, w1)" by (cases "Rename w")
  obtain e2 w2 where r2: "Remove_path w1 = (e2, w2)" by (cases "Remove_path w1")
  obtain e3 w3 where r3: "Rename w2 = (e3, w3)" by (cases "Rename w2")
  have 1: "io_in P e1 \<and> faults_in P w1" using call_faults(7) [OF assms(1) r1] .
  then have 2: "faults_in P w2" using call_faults(8) [OF _ r2] by blast
  then have "io_in P e3 \<and> faults_in P w3" using call_faults(7) [OF _ r3] by blast
  with 1 2 show ?thesis
    using assms(2) by (auto simp: replace_state_def r1 r2 r3 split: option.splits if_splits)
qed

lemma write_tmp_faults:
  assumes "faults_in P w" and "write_tmp p w = (e, w')"
  shows "err_in P e \<and> faults_in P w'"
proof -
  obtain n e1 w1 where r1: "tmp_Write p w = ((n, e1), w1)" by (cases "tmp_Write p w") auto
  have 1: "(e1 = None \<and> n = length p \<or> (\<exists>c. e1 = Some c \<and> P c)) \<and> faults_in P w1"
    using write_faults(2) [OF assms(1) r1] .
  obtain e2 w2 where r2: "(if w_fsync w1 then tmp_Sync w1 else (None, w1)) = (e2, w2)"
    by (cases "if w_fsync w1 then tmp_Sync w1 else (None, w1)")
  have 2: "io_in P e2 \<and> faults_in P w2"
    using r2 1 call_faults(5) [of P w1] by (auto split: if_splits)
  have closing: "io_in P (fst (tmp_Close v)) \<and> faults_in P (snd (tmp_Close v))" if "faults_in P v" for v
    using call_faults(6) [OF that] by (cases "tmp_Close v") simp
  show ?thesis
    using assms(2) 1 2 closing [of w1] closing [of w2]
    by (auto simp: write_tmp_def r1 r2 call_faults(9) split: option.splits prod.splits if_splits)
qed

lemma writeStateLocked_faults:
  assumes "faults_in P w" and "writeStateLocked w = (e, w')"
  shows "err_in P e \<and> faults_in P w'"
proof -
  obtain e1 w1 where o1: "openWritable w = (e1, w1)" by (cases "openWritable w")
  obtain e2 w2 where o2: "write_tmp (state_payload w) w1 = (e2, w2)" by (cases "write_tmp (state_payload w) w1")
  obtain e3 w3 where o3: "replace_state w2 = (e3, w3)" by (cases "replace_state w2")
  obtain e4 w4 where o4: "sync_dir w3 = (e4, w4)" by (cases "sync_dir w3")
  have 1: "io_in P e1 \<and> faults_in P w1" using call_faults(4) [OF assms(1) o1] .
  then have 2: "err_in P e2 \<and> faults_in P w2" using write_tmp_faults [OF _ o2] by blast
  then have 3: "err_in P e3 \<and> faults_in P w3" using replace_state_faults [OF _ o3] by blast
  then have "err_in P e4 \<and> faults_in P w4" using sync_dir_faults [OF _ o4] by blast
  with 1 2 3 show ?thesis
    using assms(2) by (auto simp: writeStateLocked_def o1 o2 o3 o4 split: option.splits if_splits)
qed

lemma flushLocked_faults:
  assumes "faults_in P w" and "flushLocked w = (e, w')"
  shows "err_in P e \<and> faults_in P w'"
proof -
  obtain e1 w1 where s1: "flush_sync w = (e1, w1)" by (cases "flush_sync w")
  have 1: "err_in P e1 \<and> faults_in P w1"
    using s1 assms(1) call_faults(1) [OF assms(1)] unfolding flush_sync_def
    by (auto simp: call_faults(10) split: if_splits prod.splits option.splits)
  obtain e2 w2 where s2: "flush_loop (w_pending w1) w1 = (e2, w2)" by (cases "flush_loop (w_pending w1) w1")
  have 2: "err_in P e2 \<and> faults_in P w2" using flush_loop_faults [OF _ s2] 1 by blast
  obtain e3 w3 where s3: "writeStateLocked w2 = (e3, w3)" by (cases "writeStateLocked w2")
  have "err_in P e3 \<and> faults_in P w3" using writeStateLocked_faults [OF _ s3] 2 by blast
  with 1 2 assms(2) show ?thesis
    unfolding flushLocked_def s1
    by (auto simp: s2 s3 call_faults(12) split: option.splits if_splits)
qed

section \<open>A log that is at worst full\<close>

text \<open>The disk fails only for lack of space, rollbacks work, and the state map exists.\<close>

definition durable :: "wal \<Rightarrow> bool" where
  "durable w \<longleftrightarrow> faults_in no_space w \<and> trunc_ok w \<and> w_states w \<noteq> None"

lemma block_faults [simp]:
  "faults_in P (block now w) = faults_in P w" "faults_in P (unblock w) = faults_in P w"
  "faults_in P (remember ev w) = faults_in P w" "w_states (remember ev w) = w_states w"
  by (simp_all add: faults_in_def remember_def Let_def)

lemma Append_durable:
  assumes "durable w"
  shows "\<exists>w'. Append ev now w = (None, w') \<and> durable w' \<and> accepted w' = accepted w @ record_line ev \<and>
     w_states w' = w_states w"
proof -
  have d: "faults_in no_space w" "trunc_ok w" "w_states w \<noteq> None" using assms by (simp_all add: durable_def)
  obtain e1 w1 where f: "flushLocked w = (e1, w1)" by (cases "flushLocked w")
  obtain e2 w2 where g: "writeEventLocked ev w1 = (e2, w2)" by (cases "writeEventLocked ev w1")
  have 1: "err_in no_space e1 \<and> faults_in no_space w1" using flushLocked_faults [OF d(1) f] .
  have 2: "err_in no_space e2 \<and> faults_in no_space w2" using writeEventLocked_faults [OF _ g] 1 by blast
  have st: "trunc_ok w1" "w_states w1 = w_states w" using flushLocked_effect [OF f d(2)] by simp_all
  then have st2: "w_states w2 = w_states w" using writeEventLocked_effect [OF g] by (simp add: frame_def)
  obtain w' where a: "Append ev now w = (None, w')" and k: "faults_in no_space w'" "w_states w' = w_states w"
    using 1 2 st st2 by (cases e1; cases e2) (auto simp: Append_def f g err_in_no_space)
  show ?thesis using Append_effect [OF a d(2)] a k d(3) by (simp add: durable_def)
qed

lemma SaveState_durable:
  assumes "durable w"
  shows "\<exists>w' m. SaveState st now w = Some (None, w') \<and> durable w' \<and> accepted w' = accepted w \<and>
     w_states w = Some m \<and> w_states w' = Some (AList.update (st_Service st) st m)"
proof -
  have d: "faults_in no_space w" "trunc_ok w" "w_states w \<noteq> None" using assms by (simp_all add: durable_def)
  obtain m where m: "w_states w = Some m" using d(3) by blast
  define w0 where "w0 = w\<lparr>w_states := Some (AList.update (st_Service st) st m), w_stateDirty := True\<rparr>"
  obtain e w1 where h: "flushLocked w0 = (e, w1)" by (cases "flushLocked w0")
  have "err_in no_space e \<and> faults_in no_space w1"
    using flushLocked_faults [OF call_faults(12) [OF call_faults(13) [OF d(1)]]] h unfolding w0_def by blast
  then obtain w' where sv: "SaveState st now w = Some (None, w')" and k: "faults_in no_space w'"
    by (cases e) (auto simp: SaveState_def m w0_def [symmetric] h err_in_no_space)
  show ?thesis using SaveState_effect [OF sv d(2)] sv k by (auto simp: durable_def)
qed

section \<open>A log in step with its files\<close>

text \<open>
  The disk works, nothing waits in memory, and the state file holds the state map: what a restart reads
  is what the WAL knows. Both operations keep this.
\<close>

definition synced :: "wal \<Rightarrow> bool" where
  "synced w \<longleftrightarrow> working w \<and> trunc_ok w \<and> w_pending w = [] \<and> \<not> w_stateDirty w \<and>
     (\<exists>m. w_states w = Some m \<and> distinct (map fst m) \<and>
        (dk_state (w_disk w) = Some (marshal_states m @ [nl]) \<or> m = [] \<and> dk_state (w_disk w) = None))"

lemma flushLocked_clean:
  assumes "flushLocked w = (e, w')" and "trunc_ok w" and "\<not> w_stateDirty w"
  shows "frame w' = frame w"
proof -
  obtain e1 w1 where s1: "flush_sync w = (e1, w1)" by (cases "flush_sync w")
  have w1: "frame w1 = frame w" "trunc_ok w1" "e1 = None \<longrightarrow> \<not> w_syncNeeded w1"
    using s1 assms(2) unfolding flush_sync_def
    by (auto simp: file_Sync_def frame_def trunc_ok_def split: if_splits option.splits)
  obtain e2 w2 where s2: "flush_loop (w_pending w1) w1 = (e2, w2)" by (cases "flush_loop (w_pending w1) w1")
  have fl: "frame w2 = frame w" if "e1 = None" using flush_loop_effect [OF s2 refl _ w1(2)] w1 that by simp
  then have "\<not> w_stateDirty w2" if "e1 = None" using that assms(3) by (simp add: frame_def)
  with fl show ?thesis
    using assms(1) w1(1) unfolding flushLocked_def s1 by (cases e1) (auto simp: s2 split: option.splits)
qed

lemma flushLocked_works:
  assumes "working w" and "flushLocked w = (e, w')"
  shows "e = None \<and> working w'"
  using flushLocked_faults [OF assms] by (simp only: err_in_False)

lemma block_clean [simp]: "w_stateDirty (unblock w) = w_stateDirty w"
  by (simp add: unblock_def)

lemma Append_synced:
  assumes "synced w"
  shows "\<exists>w'. Append ev now w = (None, w') \<and> synced w' \<and> w_states w' = w_states w \<and> w_log w' = w_log w @ record_line ev"
proof -
  have s: "working w" "trunc_ok w" "w_pending w = []" "\<not> w_stateDirty w" using assms by (simp_all add: synced_def)
  obtain e1 w1 where f: "flushLocked w = (e1, w1)" by (cases "flushLocked w")
  obtain e2 w2 where g: "writeEventLocked ev w1 = (e2, w2)" by (cases "writeEventLocked ev w1")
  have 1: "e1 = None" "working w1" using flushLocked_works [OF s(1) f] by simp_all
  have 2: "e2 = None" "working w2" using writeEventLocked_faults [OF 1(2) g] err_in_False by blast+
  note fe = flushLocked_effect [OF f s(2)]
  have t1: "trunc_ok w1" using fe by simp
  note ge = writeEventLocked_effect [OF g t1]
  have fr: "frame w2 = frame w" using flushLocked_clean [OF f s(2,4)] ge by simp
  have p2: "w_pending w2 = []" "trunc_ok w2" using fe ge 1(1) by simp_all
  have lg: "w_log w2 = w_log w @ record_line ev" using fe ge 1(1) 2(1) s(3) by (auto simp: accepted_def)
  have "synced (unblock w2)" using assms fr p2 2(2) by (simp add: synced_def frame_def)
  then show ?thesis using 1 2 lg fr by (auto simp: Append_def f g frame_def)
qed

lemma SaveState_synced:
  assumes "synced w" and "w_states w = Some m"
  shows "\<exists>w'. SaveState st now w = Some (None, w') \<and> synced w' \<and>
     w_states w' = Some (AList.update (st_Service st) st m) \<and> w_log w' = w_log w"
proof -
  have s: "working w" "trunc_ok w" "w_pending w = []" "distinct (map fst m)" using assms by (simp_all add: synced_def)
  define w0 where "w0 = w\<lparr>w_states := Some (AList.update (st_Service st) st m), w_stateDirty := True\<rparr>"
  have w0: "working w0" "trunc_ok w0" "w_log w0 = w_log w" "w_pending w0 = []" "w_stateDirty w0"
    "w_states w0 = Some (AList.update (st_Service st) st m)"
    using s call_faults(12) [OF call_faults(13) [OF s(1)]] by (simp_all add: w0_def trunc_ok_def)
  obtain e w1 where h: "flushLocked w0 = (e, w1)" by (cases "flushLocked w0")
  have ok: "e = None" "working w1" using flushLocked_works [OF w0(1) h] by simp_all
  note fe = flushLocked_effect [OF h w0(2)]
  have lg: "w_log w1 = w_log w" using fe ok(1) w0(3,4) by (auto simp: accepted_def)
  have "synced (unblock w1)"
    using fe ok w0(5,6) s(4) by (simp add: synced_def marshal_state_map_def distinct_update)
  then show ?thesis
    using fe ok(1) w0(6) lg by (auto simp: SaveState_def assms(2) w0_def [symmetric] h)
qed

section \<open>Properties\<close>

text \<open>The operations of the WAL that change it, as one step; \<open>None\<close> is a panic.\<close>

datatype wal_op = OpAppend event go_time | OpSaveState service_state go_time

fun wal_step :: "wal_op \<Rightarrow> wal \<Rightarrow> (wal_error option \<times> wal) option" where
  "wal_step (OpAppend ev now) w = Some (Append ev now w)"
| "wal_step (OpSaveState st now) w = SaveState st now w"

text \<open>A run: the events whose \<open>Append\<close> was acknowledged, and the WAL reached.\<close>

fun wal_run :: "wal_op list \<Rightarrow> wal \<Rightarrow> (event list \<times> wal) option" where
  "wal_run [] w = Some ([], w)"
| "wal_run (op1 # ops) w =
     (case wal_step op1 w of None \<Rightarrow> None
      | Some (e, w1) \<Rightarrow>
        (case wal_run ops w1 of None \<Rightarrow> None
         | Some (acks, w2) \<Rightarrow>
           Some ((case op1 of OpAppend ev _ \<Rightarrow> if e = None then [ev] else [] | OpSaveState _ _ \<Rightarrow> []) @ acks, w2)))"

definition op_events :: "wal_op \<Rightarrow> event list" where
  "op_events op1 = (case op1 of OpAppend ev _ \<Rightarrow> [ev] | OpSaveState _ _ \<Rightarrow> [])"

lemma wal_step_contents:
  assumes "wal_step op1 w = Some (e, w1)" and "wal_ok w" and "list_all wf_event (op_events op1)"
  shows "wal_ok w1 \<and> (\<exists>ys. wal_events w1 = wal_events w @ ys \<and> subseq ys (op_events op1) \<and>
     (e = None \<longrightarrow> ys = op_events op1))"
proof (cases op1)
  case (OpAppend ev now)
  then have a: "Append ev now w = (e, w1)" and wf: "wf_event ev" using assms by (simp_all add: op_events_def)
  show ?thesis
    using wal_log.append_ok [OF assms(2) wf a] a wal_log.append_contents [OF assms(2) wf]
      wal_log.append_failed [OF assms(2) wf]
    by (cases e) (fastforce simp: OpAppend op_events_def)+
next
  case (OpSaveState st now)
  then show ?thesis
    using assms SaveState_effect [of st now w e w1] by (auto simp: wal_ok_def wal_events_def op_events_def)
qed

lemma wal_run_contents:
  assumes "wal_run ops w = Some (acks, w')" and "wal_ok w" and "list_all wf_event (concat (map op_events ops))"
  shows "wal_ok w' \<and> (\<exists>ys. wal_events w' = wal_events w @ ys \<and> subseq acks ys \<and> subseq ys (concat (map op_events ops)))"
  using assms
proof (induction ops arbitrary: w acks)
  case (Cons op1 ops)
  obtain e w1 where st: "wal_step op1 w = Some (e, w1)" using Cons.prems(1) by (auto split: option.splits)
  obtain acks1 where rn: "wal_run ops w1 = Some (acks1, w')"
    and acks: "acks = (case op1 of OpAppend ev _ \<Rightarrow> if e = None then [ev] else [] | OpSaveState _ _ \<Rightarrow> []) @ acks1"
    using Cons.prems(1) st by (auto split: option.splits)
  obtain xs where xs: "wal_ok w1" "wal_events w1 = wal_events w @ xs" "subseq xs (op_events op1)"
    "e = None \<longrightarrow> xs = op_events op1"
    using wal_step_contents [OF st Cons.prems(2)] Cons.prems(3) by auto
  obtain ys where "wal_ok w'" "wal_events w' = wal_events w1 @ ys" "subseq acks1 ys"
    "subseq ys (concat (map op_events ops))"
    using Cons.IH [OF rn xs(1)] Cons.prems(3) by auto
  moreover have "subseq (case op1 of OpAppend ev _ \<Rightarrow> if e = None then [ev] else [] | OpSaveState _ _ \<Rightarrow> []) xs"
    using xs(4) by (auto simp: op_events_def split: wal_op.splits)
  ultimately show ?case
    using xs by (intro conjI exI [of _ "xs @ ys"]) (auto simp: acks intro: list_emb_append_mono)
qed simp

text \<open>C2. No accepted transition is lost, duplicated or reordered. Over any sequence of Append and
  SaveState calls and any pattern of disk failures in which the rollback of a partial record succeeds,
  the events of the log file followed by those waiting in memory are the earlier ones followed by a
  subsequence of the appended events that contains every event whose Append returned nil.\<close>

theorem wal_accounts_for_every_event:
  assumes "wal_run ops w = Some (acks, w')" and "wal_ok w" and "list_all wf_event (concat (map op_events ops))"
  shows "\<exists>ys. fst (ReadAll (w_log w' @ log_of (w_pending w')) None)
       = fst (ReadAll (w_log w @ log_of (w_pending w)) None) @ ys \<and>
     subseq acks ys \<and> subseq ys (concat (map op_events ops))"
  using wal_run_contents [OF assms] by (auto simp: wal_events_def accepted_def)

definition sample_disk :: disk where
  "sample_disk = \<lparr>dk_log = [], dk_state = None, dk_tmp = None, dk_faults = no_faults\<rparr>"

definition sample_wal :: wal where
  "sample_wal = \<lparr>w_file = True, w_fsync = True, w_disk = sample_disk, w_states = Some [],
     w_repaired = empty_report, w_pending = [], w_stateDirty = False, w_syncNeeded = False,
     w_blocked = False, w_lastLog = zero_time\<rparr>"

text \<open>A disk that is full for one write, after three bytes of the record, and once for a sync.\<close>

definition full_wal :: wal where
  "full_wal = sample_wal\<lparr>w_disk := sample_disk\<lparr>dk_faults :=
     no_faults\<lparr>ft_Write := [Some (3, Some (Errno 28))], ft_Sync := [Some (Errno 122)]\<rparr>\<rparr>\<rparr>"

lemmas sample_wal_defs = sample_wal_def sample_disk_def full_wal_def no_faults_def empty_report_def

theorem wal_accounts_for_every_event_witness:
  "\<exists>acks w' ys. wal_run [OpAppend sample_event 0, OpAppend sample_event 1] full_wal = Some (acks, w') \<and>
     fst (ReadAll (w_log w' @ log_of (w_pending w')) None) = fst (ReadAll [] None) @ ys \<and> subseq acks ys"
proof -
  obtain acks w' where run: "wal_run [OpAppend sample_event 0, OpAppend sample_event 1] full_wal = Some (acks, w')"
    by (cases "Append sample_event 0 full_wal"; cases "Append sample_event 1 (snd (Append sample_event 0 full_wal))")
      auto
  have "wal_ok full_wal" by (simp add: wal_ok_def trunc_ok_def at_boundary_def accepted_def sample_wal_defs)
  from wal_accounts_for_every_event [OF run this] show ?thesis
    using run wf_sample_event by (auto simp: op_events_def sample_wal_defs)
qed

text \<open>C17. A full disk never costs a transition and never surfaces as an error. When every failure of
  the disk is ENOSPC or EDQUOT and rollbacks succeed, Append returns nil, the event is in the log or
  in memory behind all earlier ones, and SaveState returns nil too.\<close>

theorem full_disk_defers_instead_of_failing:
  assumes "faults_in no_space w" and "trunc_ok w" and "w_states w \<noteq> None"
  shows "fst (Append ev now w) = None \<and>
     accepted (snd (Append ev now w)) = accepted w @ record_line ev \<and>
     (\<exists>w'. SaveState st now w = Some (None, w') \<and> accepted w' = accepted w)"
proof -
  have "durable w" using assms by (simp add: durable_def)
  from Append_durable [OF this, of ev now] SaveState_durable [OF this, of st now] show ?thesis by auto
qed

theorem full_disk_defers_instead_of_failing_witness:
  "fst (Append sample_event 0 full_wal) = None \<and>
   accepted (snd (Append sample_event 0 full_wal)) = record_line sample_event"
proof -
  have "faults_in no_space full_wal" and "trunc_ok full_wal" and "w_states full_wal \<noteq> None"
    and "accepted full_wal = []"
    by (simp_all add: faults_in_def no_space_def trunc_ok_def accepted_def sample_wal_defs Let_def)
  with full_disk_defers_instead_of_failing [of full_wal] show ?thesis by auto
qed

text \<open>C19. Once the disk works again the next call drains the queue: SaveState succeeds, the log file holds
  every accepted event, nothing is pending, the WAL reports itself writable, and the state file holds
  the updated map; Append does the same and adds its own event.\<close>

theorem working_disk_drains_the_queue:
  assumes "working w" and "trunc_ok w" and "w_states w = Some m"
  shows "\<exists>w1 w2. SaveState st now w = Some (None, w1) \<and> w_log w1 = w_log w @ log_of (w_pending w) \<and>
     Pending w1 = 0 \<and> Writable w1 \<and>
     dk_state (w_disk w1) = Some (marshal_states (AList.update (st_Service st) st m) @ [nl]) \<and>
     Append ev now w = (None, w2) \<and> w_log w2 = w_log w @ log_of (w_pending w) @ record_line ev \<and>
     Pending w2 = 0 \<and> Writable w2"
proof -
  obtain e1 w1 where f: "flushLocked w = (e1, w1)" by (cases "flushLocked w")
  obtain e2 w2 where g: "writeEventLocked ev w1 = (e2, w2)" by (cases "writeEventLocked ev w1")
  have 1: "e1 = None \<and> faults_in (\<lambda>_. False) w1"
    using flushLocked_faults [OF assms(1) f] by (simp only: err_in_False)
  then have 2: "e2 = None" using writeEventLocked_faults [OF _ g] err_in_False by blast
  note fe = flushLocked_effect [OF f assms(2)]
  have ge: "w_pending w2 = w_pending w1 \<and> w_log w2 = w_log w1 @ record_line ev"
    using writeEventLocked_effect [OF g] fe 2 by blast
  have app: "Append ev now w = (None, unblock w2)" using 1 2 by (simp add: Append_def f g)
  define w0 where "w0 = w\<lparr>w_states := Some (AList.update (st_Service st) st m), w_stateDirty := True\<rparr>"
  have w0: "trunc_ok w0" "accepted w0 = accepted w" "w_stateDirty w0"
    "w_states w0 = Some (AList.update (st_Service st) st m)"
    using assms(2) by (simp_all add: w0_def trunc_ok_def accepted_def)
  obtain e3 w3 where h: "flushLocked w0 = (e3, w3)" by (cases "flushLocked w0")
  have 3: "e3 = None"
    using flushLocked_faults [OF call_faults(12) [OF call_faults(13) [OF assms(1)]]] h err_in_False
    unfolding w0_def by blast
  have sv: "SaveState st now w = Some (None, unblock w3)"
    using 3 by (simp add: SaveState_def assms(3) w0_def [symmetric] h)
  show ?thesis
    using app sv fe ge flushLocked_effect [OF h w0(1)] 1 3 w0
    by (intro exI [of _ "unblock w3"] exI [of _ "unblock w2"])
      (auto simp: Pending_def Writable_def accepted_def marshal_state_map_def)
qed

theorem working_disk_drains_the_queue_witness:
  "\<exists>w2. Append sample_event 0 (sample_wal\<lparr>w_pending := [sample_event]\<rparr>) = (None, w2) \<and>
     w_log w2 = record_line sample_event @ record_line sample_event \<and> Pending w2 = 0"
proof -
  let ?w = "sample_wal\<lparr>w_pending := [sample_event]\<rparr>"
  have "working ?w" and "trunc_ok ?w" and "w_states ?w = Some []" and "w_log ?w = []"
    by (simp_all add: faults_in_def trunc_ok_def sample_wal_defs Let_def)
  with working_disk_drains_the_queue [of ?w "[]" sample_state 0 sample_event] show ?thesis by auto
qed

text \<open>C25. The state file is replaced atomically. As long as renaming works, whatever else fails during
  SaveState, the file afterwards is either the one before or a complete new one that decodes to the
  map with the saved state in it.\<close>

theorem state_file_never_torn:
  assumes "SaveState st now w = Some (e, w')" and "trunc_ok w" and "rename_ok w"
    and "w_states w = Some m" and "wf_states (AList.update (st_Service st) st m)"
  shows "dk_state (w_disk w') = dk_state (w_disk w) \<or>
     (\<exists>s m'. dk_state (w_disk w') = Some s \<and> unmarshal_states s = Some (Some m') \<and>
        map_of m' = (map_of m)(st_Service st \<mapsto> st))"
proof -
  define w0 where "w0 = w\<lparr>w_states := Some (AList.update (st_Service st) st m), w_stateDirty := True\<rparr>"
  obtain e1 w1 where h: "flushLocked w0 = (e1, w1)" by (cases "flushLocked w0")
  have "w_disk w' = w_disk w1"
    using assms(1) by (auto simp: SaveState_def assms(4) w0_def [symmetric] h split: option.splits if_splits)
  moreover have "dk_state (w_disk w1) \<in> {dk_state (w_disk w), Some (state_payload w0)}"
    using flushLocked_state [OF h] assms(2,3) by (simp add: w0_def trunc_ok_def rename_ok_def)
  moreover obtain m' where "unmarshal_states (state_payload w0) = Some (Some m')"
    and "map_of m' = map_of (AList.update (st_Service st) st m)"
    using states_roundtrip [OF assms(5)] states_roundtrip_map [OF assms(5)] by (auto simp: w0_def)
  ultimately show ?thesis by (auto simp: update_conv')
qed

theorem state_file_never_torn_witness:
  "\<exists>e w'. SaveState sample_state 0 full_wal = Some (e, w') \<and>
     (dk_state (w_disk w') = None \<or> (\<exists>s m'. dk_state (w_disk w') = Some s \<and>
        unmarshal_states s = Some (Some m') \<and> map_of m' = [st_Service sample_state \<mapsto> sample_state]))"
proof -
  have w: "trunc_ok full_wal" "rename_ok full_wal" "w_states full_wal = Some []" "dk_state (w_disk full_wal) = None"
    by (simp_all add: trunc_ok_def rename_ok_def sample_wal_defs)
  then obtain e w' where sv: "SaveState sample_state 0 full_wal = Some (e, w')"
    by (cases "SaveState sample_state 0 full_wal") (auto simp: SaveState_def Let_def)
  have "wf_states (AList.update (st_Service sample_state) sample_state [])"
    by (simp add: wf_states_def wf_state_def sample_state_def zero_service_state_def)
  from state_file_never_torn [OF sv w(1,2,3) this] show ?thesis using sv w(4) by auto
qed

text \<open>The rename fallback can lose the state file: when the rename fails twice, as on a file system
  that has gone bad, the valid previous state file has been removed in between and no new one is in
  its place.\<close>

theorem failed_rename_loses_state_file:
  "\<exists>w'. replace_state (sample_wal\<lparr>w_disk := sample_disk\<lparr>dk_state := Some old, dk_tmp := Some new,
        dk_faults := no_faults\<lparr>ft_Rename := [Some e1, Some e2]\<rparr>\<rparr>\<rparr>)
      = (Some (WalError ''rename WAL state'' e2), w') \<and> dk_state (w_disk w') = None"
  by (simp add: replace_state_def Rename_def Remove_path_def next_out_def sample_wal_defs)

text \<open>Opening the WAL over any log content: the log is cut back to a record boundary, the events it
  decodes to are those of the file, the queue is empty and the WAL accepts appends; damaged state
  data resets the states and is reported instead of stopping the exporter.\<close>

lemma Open_accepts_any_content:
  assumes "list_all (\<lambda>x. x = None) (ft_Truncate (dk_faults disk))"
  shows "\<exists>w. Open disk fsync (Some content) None (None, None, None) None None = Inr w \<and> wal_ok w \<and>
     wal_events w = fst (ReadAll content None) \<and> prefix (w_log w) content \<and> Pending w = 0 \<and>
     (\<forall>s. dk_state disk = Some s \<longrightarrow> unmarshal_states s = None \<longrightarrow>
        w_states w = Some [] \<and> rp_StateReset (Repaired w))"
proof -
  obtain b t report where s: "content = b @ t" "b = [] \<or> last b = nl"
    "Repair (Some content) None None None = ((empty_report\<lparr>rp_TruncatedBytes := length t\<rparr>, None), Some b)"
    and rd: "\<And>r. read_loop (b @ r) ([], empty_report) 0 = read_loop r (fst (ReadAll content None), report) (length b)"
    using Repair_lines [of content] by blast
  have "fst (ReadAll b None) = fst (ReadAll content None)"
    using rd [of "[]"] by (simp add: ReadAll_def readRecords_def read_loop_tail)
  then show ?thesis
    using s assms
    by (simp add: Open_def Let_def wal_ok_def trunc_ok_def at_boundary_def accepted_def wal_events_def
        Pending_def Repaired_def prefix_def split: option.split)
qed

lemma Open_accepts_any_content_witness:
  "\<exists>w. Open (sample_disk\<lparr>dk_state := Some ''{''\<rparr>) True (Some (record_line sample_event @ ''torn'')) None
       (None, None, None) None None = Inr w \<and> wal_ok w \<and> prefix (w_log w) (record_line sample_event @ ''torn'')"
  using Open_accepts_any_content [of "sample_disk\<lparr>dk_state := Some ''{''\<rparr>" True "record_line sample_event @ ''torn''"]
  by (auto simp: sample_wal_defs)

text \<open>A state file that holds the JSON value null is accepted by Open, and the first SaveState
  afterwards panics on the nil map.\<close>

theorem null_state_file_panics_later:
  "\<exists>w. Open (sample_disk\<lparr>dk_state := Some ''null''\<rparr>) True None None (None, None, None) None None = Inr w \<and>
     SaveState st now w = None"
  by (simp add: Open_def SaveState_def unmarshal_states_def json_parse_def parse_lit_def HasPrefix_def
      json_ws_def skip_ws_def Let_def eval_nat_numeral sample_wal_defs)

end
