(* ===== verification/Slots.thy ===== *)
theory Slots
  imports Prelude
begin

text \<open>
  The recovery slot grid of \<open>internal/recovery/backfill.go\<close>: the local-time slots that bound what
  the exporter may rewrite, and the instants at which the state is published at their edges.

  A time zone is a list of transitions, as in the zone database. The calendar arithmetic of
  \<open>time.Date\<close> is written out, including its second zone lookup when the local hour begins on the
  other side of a transition. Every caller passes a positive slot size, so the division in
  \<open>SlotStart\<close> is defined.
\<close>

section \<open>Time zones\<close>

text \<open>The UTC offset before the first transition, and the instants (in seconds) of the changes.\<close>

record location =
  loc_first :: int
  loc_changes :: "(int \<times> int) list"

text \<open>The offset in force at \<open>sec\<close> and the bounds of the period in which it is.\<close>

fun zone_lookup ::
  "int \<Rightarrow> int option \<Rightarrow> (int \<times> int) list \<Rightarrow> int \<Rightarrow> int \<times> int option \<times> int option" where
  "zone_lookup off start [] sec = (off, start, None)"
| "zone_lookup off start ((w, o') # tx) sec =
     (if sec < w then (off, start, Some w) else zone_lookup o' (Some w) tx sec)"

definition loc_lookup :: "location \<Rightarrow> int \<Rightarrow> int \<times> int option \<times> int option" where
  "loc_lookup loc sec = zone_lookup (loc_first loc) None (loc_changes loc) sec"

definition loc_offset :: "location \<Rightarrow> int \<Rightarrow> int" where
  "loc_offset loc sec = fst (loc_lookup loc sec)"

definition unix_sec :: "go_time \<Rightarrow> int" where
  "unix_sec t = t div Second"

text \<open>Seconds of the local clock, counted as if it were UTC.\<close>

definition local_sec :: "location \<Rightarrow> go_time \<Rightarrow> int" where
  "local_sec loc t = unix_sec t + loc_offset loc (unix_sec t)"

text \<open>\<open>t.Minute()\<close>\<close>

definition local_minute :: "location \<Rightarrow> go_time \<Rightarrow> int" where
  "local_minute loc t = local_sec loc t mod 3600 div 60"

text \<open>
  The instant \<open>time.Date\<close> returns for a local clock reading of \<open>unix\<close> seconds: subtract the offset
  found there, unless the result leaves that offset's period, in which case look it up again.
\<close>

definition date_of_local :: "location \<Rightarrow> int \<Rightarrow> go_time" where
  "date_of_local loc unix =
     (case loc_lookup loc unix of (off, start, end) \<Rightarrow>
        if off = 0 then unix * Second
        else
          let utc = unix - off;
              outside = (case start of None \<Rightarrow> False | Some a \<Rightarrow> utc < a)
                        \<or> (case end of None \<Rightarrow> False | Some b \<Rightarrow> b \<le> utc)
          in (unix - (if outside then loc_offset loc utc else off)) * Second)"

definition hour_start :: "location \<Rightarrow> go_time \<Rightarrow> go_time" where
  "hour_start loc t = date_of_local loc (local_sec loc t - local_sec loc t mod 3600)"

section \<open>Slot arithmetic\<close>

definition SlotEndFraction :: duration where
  "SlotEndFraction = 5 * Millisecond"

definition SlotEndLead :: duration where
  "SlotEndLead = Second - SlotEndFraction"

definition SlotStart :: "location \<Rightarrow> go_time \<Rightarrow> duration \<Rightarrow> go_time" where
  "SlotStart loc t sz = hour_start loc t + go_div (local_minute loc t * Minute) sz * sz"

definition SlotOpeningTime :: "go_time \<Rightarrow> go_time" where
  "SlotOpeningTime slotStart = slotStart + SlotEndFraction"

definition SlotClosingTime :: "go_time \<Rightarrow> duration \<Rightarrow> go_time" where
  "SlotClosingTime slotStart sz = slotStart + (sz - SlotEndLead)"

definition DueSlotOpening :: "location \<Rightarrow> go_time \<Rightarrow> duration \<Rightarrow> go_time" where
  "DueSlotOpening loc now sz =
     (if sz \<le> SlotEndLead then zero_time
      else let start = SlotStart loc now sz; opening = SlotOpeningTime start in
           if \<not> now < opening \<and> now < start + sz then opening else zero_time)"

definition NextSlotOpening :: "location \<Rightarrow> go_time \<Rightarrow> duration \<Rightarrow> go_time" where
  "NextSlotOpening loc now sz =
     (if sz \<le> SlotEndLead then zero_time
      else let start = SlotStart loc now sz; opening = SlotOpeningTime start in
           if now < opening then opening else SlotOpeningTime (start + sz))"

definition DueSlotClosing :: "location \<Rightarrow> go_time \<Rightarrow> duration \<Rightarrow> go_time" where
  "DueSlotClosing loc now sz =
     (if sz \<le> SlotEndLead then zero_time
      else let start = SlotStart loc now sz; closing = SlotClosingTime start sz in
           if \<not> now < closing \<and> now < start + sz then closing else zero_time)"

definition NextSlotClosing :: "location \<Rightarrow> go_time \<Rightarrow> duration \<Rightarrow> go_time" where
  "NextSlotClosing loc now sz =
     (if sz \<le> SlotEndLead then zero_time
      else let start = SlotStart loc now sz; closing = SlotClosingTime start sz in
           if now < closing then closing else SlotClosingTime (start + sz) sz)"

text \<open>\<open>None\<close> stands for the \<open>false\<close> of the source's third result.\<close>

definition RecoveryWindow :: "location \<Rightarrow> go_time \<Rightarrow> duration \<Rightarrow> (go_time \<times> go_time) option" where
  "RecoveryWindow loc ready sz =
     (if sz \<le> 0 then None
      else let start = SlotStart loc ready sz in
           if \<not> start < ready then None else Some (start, ready))"

section \<open>The grid contains every instant\<close>

text \<open>
  The hypotheses of the grid properties: the slot size is a whole number \<open>k\<close> of minutes that divides
  the hour, and no zone transition separates the instant from the beginning of its local hour.
\<close>

definition whole_minutes :: "duration \<Rightarrow> int \<Rightarrow> bool" where
  "whole_minutes sz k \<longleftrightarrow> sz = k * Minute \<and> 0 < k \<and> k dvd 60"

definition steady :: "location \<Rightarrow> go_time \<Rightarrow> bool" where
  "steady loc t \<longleftrightarrow> hour_start loc t = (unix_sec t - local_sec loc t mod 3600) * Second"

lemma steady_fixed_zone: "loc_changes loc = [] \<Longrightarrow> steady loc t"
  by (auto simp: steady_def hour_start_def date_of_local_def loc_lookup_def loc_offset_def local_sec_def)

lemma steady_same_period:
  assumes "loc_lookup loc (local_sec loc t - local_sec loc t mod 3600) = (loc_offset loc (unix_sec t), a, b)"
    and "case a of None \<Rightarrow> True | Some x \<Rightarrow> x \<le> unix_sec t - local_sec loc t mod 3600"
    and "case b of None \<Rightarrow> True | Some x \<Rightarrow> unix_sec t - local_sec loc t mod 3600 < x"
  shows "steady loc t"
proof -
  let ?o = "loc_offset loc (unix_sec t)"
  have utc: "local_sec loc t - local_sec loc t mod 3600 - ?o = unix_sec t - local_sec loc t mod 3600"
    by (simp add: local_sec_def)
  show ?thesis
    using assms by (auto simp: steady_def hour_start_def date_of_local_def Let_def utc split: option.splits)
      (simp_all add: local_sec_def)
qed

lemma Second_pos [simp]: "0 < Second" and Minute_pos [simp]: "0 < Minute"
  and Minute_Second: "Minute = 60 * Second"
  by (simp_all add: duration_defs)

lemma time_split: "t = unix_sec t * Second + t mod Second"
  by (simp add: unix_sec_def)

text \<open>How far into its slot an instant lies.\<close>

lemma slot_offset:
  assumes "whole_minutes sz k" and "steady loc t"
  shows "t - SlotStart loc t sz
    = (60 * (local_minute loc t mod k) + local_sec loc t mod 3600 mod 60) * Second + t mod Second"
proof -
  let ?m = "local_minute loc t" and ?h = "local_sec loc t mod 3600"
  have k: "0 < k" and sz: "sz = k * Minute" using assms(1) by (simp_all add: whole_minutes_def)
  have m: "0 \<le> ?m" by (simp add: local_minute_def)
  have h: "?h = 60 * ?m + ?h mod 60" by (simp add: local_minute_def)
  have mk: "?m = k * (?m div k) + ?m mod k" by simp
  have q: "go_div (?m * Minute) sz = ?m div k"
    using k m by (simp add: sz go_div_pos duration_defs)
  have start: "SlotStart loc t sz = (unix_sec t - ?h) * Second + 60 * (k * (?m div k)) * Second"
    using assms(2) unfolding SlotStart_def q by (simp add: steady_def sz Minute_Second algebra_simps)
  have "t - SlotStart loc t sz = (?h - 60 * (k * (?m div k))) * Second + t mod Second"
    by (subst time_split) (simp add: start algebra_simps)
  also have "?h - 60 * (k * (?m div k)) = 60 * (?m mod k) + ?h mod 60"
    using h mk by linarith
  finally show ?thesis .
qed

lemma slot_contains:
  assumes "whole_minutes sz k" and "steady loc t"
  shows "SlotStart loc t sz \<le> t" and "t < SlotStart loc t sz + sz"
proof -
  let ?a = "local_minute loc t mod k" and ?b = "local_sec loc t mod 3600 mod 60" and ?c = "t mod Second"
  have k: "0 < k" and sz: "sz = k * Minute" using assms(1) by (simp_all add: whole_minutes_def)
  have a: "0 \<le> ?a" "?a \<le> k - 1" using k by (simp_all add: pos_mod_bound zle_diff1_eq)
  have b: "0 \<le> ?b" "?b \<le> 59" by simp_all
  have c: "0 \<le> ?c" "?c < Second" by (simp_all add: pos_mod_bound)
  note off = slot_offset [OF assms]
  have "0 \<le> (60 * ?a + ?b) * Second" using a b by (simp add: zero_le_mult_iff duration_defs)
  then show "SlotStart loc t sz \<le> t" using off c by linarith
  have "(60 * ?a + ?b) * Second \<le> (60 * k - 1) * Second"
    using a b by (intro mult_right_mono) (linarith, simp add: duration_defs)
  then have "(60 * ?a + ?b) * Second \<le> 60 * k * Second - Second"
    by (simp add: left_diff_distrib)
  then have "(60 * ?a + ?b) * Second + ?c < 60 * k * Second"
    using c(2) by linarith
  then show "t < SlotStart loc t sz + sz"
    using off by (simp add: sz Minute_Second algebra_simps)
qed

lemma whole_minutes_lead: "whole_minutes sz k \<Longrightarrow> SlotEndLead < sz"
  by (auto simp: whole_minutes_def SlotEndLead_def SlotEndFraction_def duration_defs)

lemmas slot_instant_defs = NextSlotOpening_def NextSlotClosing_def DueSlotOpening_def DueSlotClosing_def
  SlotOpeningTime_def SlotClosingTime_def Let_def

lemma slot_edges_inside:
  "whole_minutes sz k \<Longrightarrow> s < SlotOpeningTime s \<and> SlotOpeningTime s < SlotClosingTime s sz
     \<and> SlotClosingTime s sz < s + sz"
  by (auto simp: whole_minutes_def SlotOpeningTime_def SlotClosingTime_def SlotEndLead_def
      SlotEndFraction_def duration_defs)

section \<open>Properties\<close>

text \<open>C27. Slot grid: for a slot size of a whole number of minutes dividing the hour, in any zone without
  a transition inside the current local hour, the slot found for an instant contains it, and its
  beginning lies on the local grid of whole slots counted from the hour.\<close>

theorem SlotStart_contains_instant:
  assumes "whole_minutes sz k" and "steady loc t"
  shows "SlotStart loc t sz \<le> t \<and> t < SlotStart loc t sz + sz
    \<and> (\<exists>n. 0 \<le> n \<and> SlotStart loc t sz = hour_start loc t + n * sz \<and> n * sz \<le> t - hour_start loc t)"
proof (intro conjI)
  show "SlotStart loc t sz \<le> t" and "t < SlotStart loc t sz + sz"
    using slot_contains [OF assms] by simp_all
  let ?n = "go_div (local_minute loc t * Minute) sz"
  have "0 \<le> ?n" using assms(1)
    by (simp add: go_div_pos whole_minutes_def local_minute_def duration_defs pos_imp_zdiv_nonneg_iff)
  moreover have "SlotStart loc t sz = hour_start loc t + ?n * sz"
    by (simp add: SlotStart_def)
  moreover from this have "?n * sz \<le> t - hour_start loc t"
    using slot_contains(1) [OF assms] by simp
  ultimately show "\<exists>n. 0 \<le> n \<and> SlotStart loc t sz = hour_start loc t + n * sz \<and> n * sz \<le> t - hour_start loc t"
    by blast
qed

text \<open>A zone three hours east of UTC, as in the tests, and 15:14 there on an arbitrary day.\<close>

definition sample_zone :: location where
  "sample_zone = \<lparr>loc_first = 10800, loc_changes = []\<rparr>"

definition sample_ready :: go_time where
  "sample_ready = (20000 * 86400 + 12 * 3600 + 14 * 60) * 1000000000"

lemma sample_slot: "whole_minutes (15 * Minute) 15" "steady sample_zone t"
  by (simp_all add: whole_minutes_def steady_fixed_zone sample_zone_def)

theorem SlotStart_contains_instant_witness:
  "SlotStart sample_zone sample_ready (15 * Minute) \<le> sample_ready
   \<and> sample_ready - SlotStart sample_zone sample_ready (15 * Minute) = 14 * Minute"
  using SlotStart_contains_instant [OF sample_slot, of sample_ready]
  by (simp add: SlotStart_def hour_start_def date_of_local_def loc_lookup_def local_minute_def local_sec_def
      loc_offset_def unix_sec_def go_div_def sample_zone_def sample_ready_def duration_defs)

text \<open>C23. Edge schedule: for a slot size of a whole number of minutes dividing the hour, in any zone without a
  transition inside the current local hour, the next opening is the first instant after now that lies 5
  milliseconds after a boundary of the grid counted from the local hour, and the next closing the first
  that lies 995 milliseconds before one. An edge is due exactly when the previous one of its kind lies in
  the current slot, and then it is that one; otherwise the zero time is reported.\<close>

theorem slot_edges_scheduled:
  assumes "whole_minutes sz k" and "steady loc now"
  shows "(\<exists>n. NextSlotOpening loc now sz = hour_start loc now + n * sz + 5 * Millisecond)
    \<and> now < NextSlotOpening loc now sz \<and> NextSlotOpening loc now sz \<le> now + sz
    \<and> (\<exists>n. NextSlotClosing loc now sz = hour_start loc now + n * sz - 995 * Millisecond)
    \<and> now < NextSlotClosing loc now sz \<and> NextSlotClosing loc now sz \<le> now + sz
    \<and> DueSlotOpening loc now sz = (let last = NextSlotOpening loc now sz - sz in
         if SlotStart loc now sz \<le> last then last else zero_time)
    \<and> DueSlotClosing loc now sz = (let last = NextSlotClosing loc now sz - sz in
         if SlotStart loc now sz \<le> last then last else zero_time)"
proof -
  note c = slot_contains [OF assms] and lead = whole_minutes_lead [OF assms(1)]
  note e = slot_edges_inside [OF assms(1), of "SlotStart loc now sz"]
  define n where "n = go_div (local_minute loc now * Minute) sz"
  have start: "SlotStart loc now sz = hour_start loc now + n * sz" by (simp add: SlotStart_def n_def)
  have "NextSlotOpening loc now sz \<in> {hour_start loc now + n * sz + 5 * Millisecond, hour_start loc now + (n + 1) * sz + 5 * Millisecond}"
    using lead by (auto simp: slot_instant_defs start SlotEndFraction_def algebra_simps)
  then have grid1: "\<exists>n. NextSlotOpening loc now sz = hour_start loc now + n * sz + 5 * Millisecond" by blast
  have "NextSlotClosing loc now sz \<in> {hour_start loc now + (n + 1) * sz - 995 * Millisecond, hour_start loc now + (n + 2) * sz - 995 * Millisecond}"
    using lead by (auto simp: slot_instant_defs start SlotEndFraction_def SlotEndLead_def duration_defs algebra_simps)
  then have grid2: "\<exists>n. NextSlotClosing loc now sz = hour_start loc now + n * sz - 995 * Millisecond" by blast
  have "now < NextSlotOpening loc now sz \<and> NextSlotOpening loc now sz \<le> now + sz"
    "now < NextSlotClosing loc now sz \<and> NextSlotClosing loc now sz \<le> now + sz"
    using c lead e by (auto simp: slot_instant_defs)
  moreover have "DueSlotOpening loc now sz = (let last = NextSlotOpening loc now sz - sz in
         if SlotStart loc now sz \<le> last then last else zero_time)"
    "DueSlotClosing loc now sz = (let last = NextSlotClosing loc now sz - sz in
         if SlotStart loc now sz \<le> last then last else zero_time)"
    using c lead e by (auto simp: slot_instant_defs)
  ultimately show ?thesis using grid1 grid2 by blast
qed

theorem slot_edges_scheduled_witness:
  "sample_ready < NextSlotOpening sample_zone sample_ready (15 * Minute)
   \<and> NextSlotOpening sample_zone sample_ready (15 * Minute) \<le> sample_ready + 15 * Minute
   \<and> (\<exists>n. NextSlotClosing sample_zone sample_ready (15 * Minute)
          = hour_start sample_zone sample_ready + n * (15 * Minute) - 995 * Millisecond)"
  using slot_edges_scheduled [OF sample_slot, of sample_ready] by blast

text \<open>Recovery window: a recovery reads at most the part of the current slot before the moment the
  exporter is ready, never a slot that has closed; there is no window exactly on a slot boundary or
  for a size that is not positive.\<close>

theorem RecoveryWindow_within_current_slot:
  assumes "whole_minutes sz k" and "steady loc ready"
  shows "case RecoveryWindow loc ready sz of
      None \<Rightarrow> ready = SlotStart loc ready sz
    | Some (a, b) \<Rightarrow> a = SlotStart loc ready sz \<and> b = ready \<and> a < b \<and> b < a + sz"
  using slot_contains [OF assms] assms(1)
  by (auto simp: RecoveryWindow_def Let_def whole_minutes_def duration_defs)

theorem RecoveryWindow_within_current_slot_witness:
  "RecoveryWindow sample_zone sample_ready (15 * Minute)
     = Some (sample_ready - 14 * Minute, sample_ready)"
proof -
  have start: "SlotStart sample_zone sample_ready (15 * Minute) = sample_ready - 14 * Minute"
    by (simp add: SlotStart_def hour_start_def date_of_local_def loc_lookup_def local_minute_def local_sec_def
        loc_offset_def unix_sec_def go_div_def sample_zone_def sample_ready_def duration_defs)
  show ?thesis
    using RecoveryWindow_within_current_slot [OF sample_slot, of sample_ready]
    using Minute_pos by (auto simp: start simp del: Minute_pos split: option.splits)
qed

text \<open>A slot size of seven and a half minutes, which lies between five minutes and an hour and
  divides the hour exactly, breaks the grid: \<open>SlotStart\<close> only looks at whole minutes, so at 45
  seconds past minute 7 it reports a slot that has already ended, and the \<open>next\<close> opening instant
  lies in the past.\<close>

theorem fractional_minute_slot_misses_instant:
  "\<exists>sz now. 5 * Minute \<le> sz \<and> sz \<le> 60 * Minute \<and> Hour mod sz = 0 \<and> steady sample_zone now
     \<and> SlotStart sample_zone now sz + sz \<le> now \<and> NextSlotOpening sample_zone now sz \<le> now"
proof (intro exI conjI)
  let ?sz = "450 * Second" and ?now = "sample_ready - 6 * Minute - 15 * Second"
  show "5 * Minute \<le> ?sz" and "?sz \<le> 60 * Minute" and "Hour mod ?sz = 0"
    by (simp_all add: duration_defs)
  show "steady sample_zone ?now" by (rule sample_slot)
  have start: "SlotStart sample_zone ?now ?sz = sample_ready - 14 * Minute"
    by (simp add: SlotStart_def hour_start_def date_of_local_def loc_lookup_def local_minute_def local_sec_def
        loc_offset_def unix_sec_def go_div_def sample_zone_def sample_ready_def duration_defs)
  then show "SlotStart sample_zone ?now ?sz + ?sz \<le> ?now"
    and "NextSlotOpening sample_zone ?now ?sz \<le> ?now"
    by (simp_all add: slot_instant_defs SlotEndLead_def SlotEndFraction_def duration_defs)
qed

end
