(* ===== verification/Journal.thy ===== *)
theory Journal
  imports Model GoJson Slots "HOL-Library.Product_Lexorder" "HOL-Library.Multiset"
begin

text \<open>
  Recovery from the systemd journal, \<open>internal/recovery/journal.go\<close>, and the lookup of the state before
  an instant from \<open>internal/recovery/backfill.go\<close>.

  The program \<open>journalctl\<close> is a parameter: a function from its arguments to what one run of it does
  (\<open>jc_run\<close>). What holds for every output is shown first; the claim on recovery describes the runs that print
  a journal (\<open>prints\<close>) or have no entries (\<open>no_entries\<close>). An error is the text its \<open>Error\<close> method returns, since
  \<open>isNoJournalEntriesError\<close> searches that text.
\<close>

section \<open>Running journalctl\<close>

datatype wait_error = ExitError int string | OtherWaitError string

text \<open>
  One run: the errors of creating the two pipes and of the start, what standard output holds and the
  error that ended reading it, if any, the successive reads of standard error, and the result of \<open>Wait\<close>.
\<close>

record jc_run =
  jc_stdoutPipeErr :: "string option"
  jc_stderrPipeErr :: "string option"
  jc_startErr :: "string option"
  jc_stdout :: string
  jc_readErr :: "string option"
  jc_stderr :: "(string \<times> string option) list"
  jc_waitErr :: "wait_error option"

type_synonym journalctl = "string list \<Rightarrow> jc_run"

fun wait_error_text :: "wait_error \<Rightarrow> string" where
  "wait_error_text (ExitError _ s) = s"
| "wait_error_text (OtherWaitError s) = s"

fun exitCode :: "wait_error \<Rightarrow> int" where
  "exitCode (ExitError code _) = code"
| "exitCode (OtherWaitError _) = - 1"

text \<open>\<open>readAll\<close>: the reads of a stream in order; one that returns an error ends the loop, as does the end.\<close>

fun readAll :: "(string \<times> string option) list \<Rightarrow> string \<times> string option" where
  "readAll [] = ([], Some ''EOF'')"
| "readAll ((chunk, err) # reads) =
     (case err of Some e \<Rightarrow> (chunk, Some e)
      | None \<Rightarrow> (case readAll reads of (rest, e) \<Rightarrow> (chunk @ rest, e)))"

text \<open>
  \<open>bufio.Scanner\<close> with lines of less than a mebibyte: the lines without their terminator, and the error
  the scan ends with. A last line without a newline is a line.
\<close>

fun split_lines :: "string \<Rightarrow> string \<Rightarrow> string list" where
  "split_lines acc [] = (if acc = [] then [] else [acc])"
| "split_lines acc (c # s) = (if c = nl then acc # split_lines [] s else split_lines (acc @ [c]) s)"

definition dropCR :: "string \<Rightarrow> string" where
  "dropCR line = (if line \<noteq> [] \<and> last line = CHR 0x0D then butlast line else line)"

definition scan_lines :: "string \<Rightarrow> string option \<Rightarrow> string list \<times> string option" where
  "scan_lines output readErr =
     (let ls = split_lines [] output; fit = takeWhile (\<lambda>l. length l < 1048576) ls in
      if length fit < length ls then (map dropCR fit, Some ''bufio.Scanner: token too long'')
      else (map dropCR ls, readErr))"

section \<open>Journal records\<close>

record journalRecord =
  jr_Message :: string
  jr_MessageID :: string
  jr_SystemdUnit :: string
  jr_Unit :: string
  jr_BootID :: string
  jr_RTUS :: string

definition zero_record :: journalRecord where
  "zero_record = \<lparr>jr_Message = [], jr_MessageID = [], jr_SystemdUnit = [], jr_Unit = [], jr_BootID = [], jr_RTUS = []\<rparr>"

definition record_fields :: "journalRecord json_fields" where
  "record_fields =
     [(''MESSAGE'', put_string (\<lambda>s. jr_Message_update (\<lambda>_. s))),
      (''MESSAGE_ID'', put_string (\<lambda>s. jr_MessageID_update (\<lambda>_. s))),
      (''_SYSTEMD_UNIT'', put_string (\<lambda>s. jr_SystemdUnit_update (\<lambda>_. s))),
      (''UNIT'', put_string (\<lambda>s. jr_Unit_update (\<lambda>_. s))),
      (''_BOOT_ID'', put_string (\<lambda>s. jr_BootID_update (\<lambda>_. s))),
      (''__REALTIME_TIMESTAMP'', put_string (\<lambda>s. jr_RTUS_update (\<lambda>_. s)))]"

definition unmarshal_record :: "string \<Rightarrow> journalRecord option" where
  "unmarshal_record s = Option.bind (json_parse s) (decode_struct record_fields zero_record)"

definition messageIDUnitStarted :: string where "messageIDUnitStarted = ''39f53479d3a045ac8e11786248231fbf''"
definition messageIDUnitStopped :: string where "messageIDUnitStopped = ''9d1aaa27d60140bd96365438aad20286''"
definition messageIDUnitFailed :: string where "messageIDUnitFailed = ''7d4958e842da4a758f6c1cdc7b36dcc5''"

text \<open>
  \<open>None\<close> is the \<open>false\<close> of the second result. Lower case is that of ASCII: Go's \<open>ToLower\<close> also maps other
  letters, two of them to ASCII ones, U+0130 to \<open>i\<close> and U+212A to \<open>k\<close>, and systemd writes neither.
\<close>

definition messageState :: "string \<Rightarrow> string \<Rightarrow> availability option" where
  "messageState messageID message =
     (let i = ToLower (TrimSpace messageID) in
      if i = messageIDUnitStarted then Some StateUp
      else if i = messageIDUnitStopped \<or> i = messageIDUnitFailed then Some StateDown
      else
        let m = ToLower (TrimSpace message) in
        if HasPrefix m ''started '' then Some StateUp
        else if HasPrefix m ''stopped '' \<or> HasPrefix m ''failed to start '' then Some StateDown
        else None)"

definition parseTimestampUS :: "string \<Rightarrow> int" where
  "parseTimestampUS s =
     (case ParseInt64 (TrimSpace s) of None \<Rightarrow> 0 | Some v \<Rightarrow> if v \<le> 0 then 0 else v)"

section \<open>Local time for journalctl\<close>

text \<open>
  The proleptic Gregorian date of a day counted from January 1, 1970, computed in the 400-year era
  that begins on a March 1, and the layout \<open>2006-01-02 15:04:05\<close>.
\<close>

definition civil_date :: "int \<Rightarrow> int \<times> int \<times> int" where
  "civil_date day =
     (let z = day + 719468; era = z div 146097; doe = z mod 146097;
          yoe = (doe - doe div 1460 + doe div 36524 - doe div 146096) div 365;
          doy = doe - (365 * yoe + yoe div 4 - yoe div 100);
          mp = (5 * doy + 2) div 153; d = doy - (153 * mp + 2) div 5 + 1;
          m = (if mp < 10 then mp + 3 else mp - 9)
      in (yoe + era * 400 + (if m \<le> 2 then 1 else 0), m, d))"

definition pad :: "nat \<Rightarrow> int \<Rightarrow> string" where
  "pad w i = (let s = show_nat (nat \<bar>i\<bar>) in
     (if i < 0 then ''-'' else []) @ replicate (w - length s) (CHR ''0'') @ s)"

definition journalctlTimestamp :: "location \<Rightarrow> go_time \<Rightarrow> string" where
  "journalctlTimestamp loc t =
     (let s = local_sec loc t; (y, m, d) = civil_date (s div 86400); r = s mod 86400 in
      pad 4 y @ ''-'' @ pad 2 m @ ''-'' @ pad 2 d @ '' '' @
      pad 2 (r div 3600) @ '':'' @ pad 2 (r div 60 mod 60) @ '':'' @ pad 2 (r mod 60))"

section \<open>Recovering transitions\<close>

definition jc_fail :: "string \<Rightarrow> string \<Rightarrow> string" where
  "jc_fail service rest = ''journalctl '' @ service @ '': '' @ rest"

text \<open>One line of output: the event it stands for, if any.\<close>

definition recover_line :: "string \<Rightarrow> go_time \<Rightarrow> go_time \<Rightarrow> string \<Rightarrow> event option" where
  "recover_line service from to line =
     (case unmarshal_record line of None \<Rightarrow> None
      | Some r \<Rightarrow>
        case messageState (jr_MessageID r) (jr_Message r) of None \<Rightarrow> None
        | Some state \<Rightarrow>
          if jr_Unit r \<noteq> [] \<and> jr_Unit r \<noteq> service then None
          else let us = parseTimestampUS (jr_RTUS r) in
            if us = 0 then None
            else let t = wrap64 (us * 1000) in
              if t < from \<or> \<not> t < to then None
              else Some \<lparr>ev_Sequence = 0, ev_Service = service, ev_State = state,
                ev_EventTimeUnixMS = go_div us 1000, ev_EventTimeMonotonicUS = 0,
                ev_BootID = CanonicalBootID (jr_BootID r), ev_Source = SourceRecovery,
                ev_SystemdActiveState = AvailabilityState_String state, ev_SystemdSubState = []\<rparr>)"

definition recover_args :: "location \<Rightarrow> string \<Rightarrow> go_time \<Rightarrow> go_time \<Rightarrow> string list" where
  "recover_args loc service from to =
     [''-u'', service, ''--since'', journalctlTimestamp loc from, ''--until'', journalctlTimestamp loc to,
      ''-o'', ''json'', ''--no-pager'', ''--quiet'']"

definition recoverUnit ::
  "journalctl \<Rightarrow> location \<Rightarrow> string \<Rightarrow> go_time \<Rightarrow> go_time \<Rightarrow> string + event list" where
  "recoverUnit journalctl loc service from to =
     (let r = journalctl (recover_args loc service from to) in
      case jc_stdoutPipeErr r of Some e \<Rightarrow> Inl e
      | None \<Rightarrow> case jc_stderrPipeErr r of Some e \<Rightarrow> Inl e
      | None \<Rightarrow> case jc_startErr r of Some e \<Rightarrow> Inl (jc_fail service e)
      | None \<Rightarrow>
        (case scan_lines (jc_stdout r) (jc_readErr r) of (lines, scanErr) \<Rightarrow>
           case scanErr of Some e \<Rightarrow> Inl e
           | None \<Rightarrow>
             let out = List.map_filter (recover_line service from to) lines;
                 stderrBytes = fst (readAll (jc_stderr r))
             in case jc_waitErr r of None \<Rightarrow> Inr out
                | Some err \<Rightarrow>
                  if exitCode err = 1
                  then Inl (jc_fail service (''no journal entries: '' @ wait_error_text err))
                  else if stderrBytes \<noteq> []
                  then Inl (jc_fail service (TrimSpace stderrBytes @ '': '' @ wait_error_text err))
                  else Inl (jc_fail service (wait_error_text err))))"

definition isNoJournalEntriesError :: "string \<Rightarrow> bool" where
  "isNoJournalEntriesError err = Contains err '': no journal entries:''"

fun recover_all ::
  "journalctl \<Rightarrow> location \<Rightarrow> string list \<Rightarrow> go_time \<Rightarrow> go_time \<Rightarrow> event list \<Rightarrow> string + event list" where
  "recover_all journalctl loc [] from to out = Inr out"
| "recover_all journalctl loc (service # services) from to out =
     (case recoverUnit journalctl loc service from to of
        Inl err \<Rightarrow> if isNoJournalEntriesError err then recover_all journalctl loc services from to out
                   else Inl err
      | Inr events \<Rightarrow> recover_all journalctl loc services from to (out @ events))"

text \<open>\<open>Recover\<close>; the stable sort is by time and, for equal times, by service.\<close>

definition event_order :: "event \<Rightarrow> int \<times> string" where
  "event_order ev = (ev_EventTimeUnixMS ev, ev_Service ev)"

definition Recover ::
  "journalctl \<Rightarrow> location \<Rightarrow> string list \<Rightarrow> go_time \<Rightarrow> go_time \<Rightarrow> string + event list" where
  "Recover journalctl loc services from to =
     (if to < from then Inr []
      else case recover_all journalctl loc services from to [] of
          Inl err \<Rightarrow> Inl err | Inr out \<Rightarrow> Inr (sort_key event_order out))"

section \<open>The state before an instant\<close>

text \<open>The loop over the output of \<open>previousState\<close>: the first record that qualifies ends it.\<close>

fun previous_loop :: "string \<Rightarrow> go_time \<Rightarrow> string list \<Rightarrow> availability option" where
  "previous_loop service at' [] = None"
| "previous_loop service at' (line # ls) =
     (case unmarshal_record line of None \<Rightarrow> previous_loop service at' ls
      | Some r \<Rightarrow>
        case messageState (jr_MessageID r) (jr_Message r) of None \<Rightarrow> previous_loop service at' ls
        | Some state \<Rightarrow>
          if jr_Unit r \<noteq> [] \<and> jr_Unit r \<noteq> service then previous_loop service at' ls
          else let us = parseTimestampUS (jr_RTUS r) in
            if us = 0 \<or> go_div us 1000 \<ge> UnixMilli at' then previous_loop service at' ls
            else Some state)"

definition previous_args :: "location \<Rightarrow> string \<Rightarrow> go_time \<Rightarrow> string list" where
  "previous_args loc service at' =
     [''-u'', service, ''--until'', journalctlTimestamp loc at', ''-o'', ''json'', ''--no-pager'', ''--quiet'',
      ''--reverse'', ''-n'', ''1'', ''MESSAGE_ID='' @ messageIDUnitStarted, ''MESSAGE_ID='' @ messageIDUnitStopped,
      ''MESSAGE_ID='' @ messageIDUnitFailed]"

text \<open>
  \<open>previousState\<close>: the outer result is an error or the state, \<open>None\<close> when none is found. A pipe
  returns data and an error in different reads, and the loop stops reading at the record it finds, so
  only a scan that finds none ends with an error.
\<close>

definition previousState ::
  "journalctl \<Rightarrow> location \<Rightarrow> string \<Rightarrow> go_time \<Rightarrow> string + availability option" where
  "previousState journalctl loc service at' =
     (let r = journalctl (previous_args loc service at') in
      case jc_stdoutPipeErr r of Some e \<Rightarrow> Inl e
      | None \<Rightarrow> case jc_startErr r of Some e \<Rightarrow> Inl (jc_fail service e)
      | None \<Rightarrow>
        (case scan_lines (jc_stdout r) (jc_readErr r) of (lines, scanErr) \<Rightarrow>
           case previous_loop service at' lines of
             Some state \<Rightarrow> Inr (Some state)
           | None \<Rightarrow>
             case scanErr of Some e \<Rightarrow> Inl e
             | None \<Rightarrow>
               (case jc_waitErr r of
                  Some err \<Rightarrow> if exitCode err \<noteq> 1 then Inl (wait_error_text err) else Inr None
                | None \<Rightarrow> Inr None)))"

section \<open>Properties of recovered events\<close>

lemma parseTimestampUS_nonneg: "0 \<le> parseTimestampUS s"
  by (auto simp: parseTimestampUS_def split: option.splits)

lemma messageState_cases: "messageState i m = Some st \<Longrightarrow> st = StateUp \<or> st = StateDown"
  by (auto simp: messageState_def Let_def split: if_splits)

text \<open>Timestamps before the year 2262, for which the conversion to nanoseconds fits 64 bits.\<close>

definition ns_fits :: "int \<Rightarrow> bool" where
  "ns_fits ms \<longleftrightarrow> ms < 9223372036854"

lemma recover_line_sound:
  assumes "recover_line service from to line = Some ev"
  shows "ev_Service ev = service \<and> ev_State ev \<in> {StateUp, StateDown} \<and> ev_Source ev = SourceRecovery \<and>
     ev_Sequence ev = 0 \<and> (ns_fits (ev_EventTimeUnixMS ev) \<longrightarrow>
       UnixMilli from \<le> ev_EventTimeUnixMS ev \<and> ev_EventTimeUnixMS ev \<le> UnixMilli to)"
proof -
  obtain r st where r: "messageState (jr_MessageID r) (jr_Message r) = Some st" "unmarshal_record line = Some r"
    using assms by (auto simp: recover_line_def split: option.splits)
  define us where "us = parseTimestampUS (jr_RTUS r)"
  have us: "us \<noteq> 0" "from \<le> wrap64 (us * 1000)" "wrap64 (us * 1000) < to"
    and ev: "ev = \<lparr>ev_Sequence = 0, ev_Service = service, ev_State = st, ev_EventTimeUnixMS = go_div us 1000,
      ev_EventTimeMonotonicUS = 0, ev_BootID = CanonicalBootID (jr_BootID r), ev_Source = SourceRecovery,
      ev_SystemdActiveState = AvailabilityState_String st, ev_SystemdSubState = []\<rparr>"
    using assms r by (auto simp: recover_line_def Let_def us_def split: if_splits)
  have pos: "0 < us" using us(1) parseTimestampUS_nonneg [of "jr_RTUS r"] by (simp add: us_def)
  have "UnixMilli from \<le> us div 1000 \<and> us div 1000 \<le> UnixMilli to" if "us div 1000 < 9223372036854"
  proof -
    have "wrap64 (us * 1000) = us * 1000" using that pos by (intro wrap64_id) auto
    moreover have "UnixMilli (us * 1000) = us div 1000"
      using div_mult_mult2 [of 1000 us 1000] by (simp add: UnixMilli_def)
    ultimately show ?thesis
      using us UnixMilli_mono [of "from" "us * 1000"] UnixMilli_mono [of "us * 1000" to] by simp
  qed
  then show ?thesis
    using messageState_cases [OF r(1)] pos by (auto simp: ev ns_fits_def go_div_pos)
qed

text \<open>The events one unit contributes.\<close>

definition unit_events :: "journalctl \<Rightarrow> location \<Rightarrow> go_time \<Rightarrow> go_time \<Rightarrow> string \<Rightarrow> event list" where
  "unit_events journalctl loc from to service =
     (case recoverUnit journalctl loc service from to of Inl _ \<Rightarrow> [] | Inr evs \<Rightarrow> evs)"

lemma unit_events_member:
  "ev \<in> set (unit_events journalctl loc from to service) \<Longrightarrow>
     \<exists>evs. recoverUnit journalctl loc service from to = Inr evs \<and> ev \<in> set evs"
  by (cases "recoverUnit journalctl loc service from to") (simp_all add: unit_events_def)

lemma recoverUnit_events:
  assumes "recoverUnit journalctl loc service from to = Inr evs" and "ev \<in> set evs"
  shows "\<exists>line. recover_line service from to line = Some ev"
  using assms
  by (fastforce simp: recoverUnit_def Let_def map_filter_def split: option.splits prod.splits if_splits)

lemma recover_all_events:
  "recover_all journalctl loc services from to out = Inr res \<Longrightarrow>
     res = out @ concat (map (unit_events journalctl loc from to) services) \<and>
     (\<forall>service err. service \<in> set services \<longrightarrow> recoverUnit journalctl loc service from to = Inl err \<longrightarrow>
        isNoJournalEntriesError err)"
proof (induction services arbitrary: out)
  case (Cons service services)
  show ?case
  proof (cases "recoverUnit journalctl loc service from to")
    case (Inl err)
    then show ?thesis
      using Cons.prems Cons.IH [of out] by (auto simp: unit_events_def split: if_splits)
  next
    case (Inr evs)
    then show ?thesis
      using Cons.prems Cons.IH [of "out @ evs"] by (auto simp: unit_events_def)
  qed
qed simp

text \<open>
  What journal recovery returns, whatever journalctl prints: the events of all units merged in the order of
  time and service; each belongs to a configured service, is an UP or a DOWN and, unless its time exceeds
  what 64 bits of nanoseconds hold, lies in the requested interval; and a unit whose journal could not be
  read makes the whole recovery fail unless journalctl only reported that it has no entries.
\<close>

lemma Recover_merges_all_units:
  assumes "Recover journalctl loc services from to = Inr out" and "from \<le> to"
  shows "sorted (map event_order out) \<and>
     mset out = mset (concat (map (unit_events journalctl loc from to) services)) \<and>
     (\<forall>ev \<in> set out. ev_Service ev \<in> set services \<and> ev_State ev \<in> {StateUp, StateDown} \<and>
        ev_Source ev = SourceRecovery \<and> (ns_fits (ev_EventTimeUnixMS ev) \<longrightarrow>
          UnixMilli from \<le> ev_EventTimeUnixMS ev \<and> ev_EventTimeUnixMS ev \<le> UnixMilli to)) \<and>
     (\<forall>service \<in> set services. \<forall>err. recoverUnit journalctl loc service from to = Inl err \<longrightarrow>
        isNoJournalEntriesError err)"
proof -
  obtain res where res: "recover_all journalctl loc services from to [] = Inr res" and out: "out = sort_key event_order res"
    using assms by (auto simp: Recover_def split: sum.splits)
  note all = recover_all_events [OF res]
  have "ev_Service ev \<in> set services \<and> (\<exists>line. recover_line (ev_Service ev) from to line = Some ev)"
    if ev: "ev \<in> set out" for ev
  proof -
    obtain service evs where s: "service \<in> set services" "recoverUnit journalctl loc service from to = Inr evs" "ev \<in> set evs"
      using ev all by (auto simp: out dest!: unit_events_member)
    then obtain line where "recover_line service from to line = Some ev" using recoverUnit_events by blast
    with s recover_line_sound show ?thesis by metis
  qed
  with all show ?thesis by (auto simp: out dest: recover_line_sound)
qed

section \<open>Journals\<close>

text \<open>
  A journal of systemd as journalctl prints it, one JSON object per line: a record says what happened to a
  unit by its message identifier or, in an older journal, by its text; \<open>ProgressText\<close> is the text that announces
  a start, and \<open>FailedId\<close> carries the identifier the code takes for a failure. A damaged line is one that is
  not JSON.
\<close>

datatype journal_mark =
    StartedId | StoppedId | FailedId | StartedText string | StoppedText string | FailedText string | ProgressText string

datatype journal_item = Entry journal_mark string nat string | Damaged string

fun mark_member :: "journal_mark \<Rightarrow> string \<times> json" where
  "mark_member StartedId = (''MESSAGE_ID'', JStr ''39f53479d3a045ac8e11786248231fbf'')"
| "mark_member StoppedId = (''MESSAGE_ID'', JStr ''9d1aaa27d60140bd96365438aad20286'')"
| "mark_member FailedId = (''MESSAGE_ID'', JStr ''7d4958e842da4a758f6c1cdc7b36dcc5'')"
| "mark_member (StartedText d) = (''MESSAGE'', JStr (''Started '' @ d))"
| "mark_member (StoppedText d) = (''MESSAGE'', JStr (''Stopped '' @ d))"
| "mark_member (FailedText d) = (''MESSAGE'', JStr (''Failed to start '' @ d))"
| "mark_member (ProgressText d) = (''MESSAGE'', JStr (''Starting '' @ d))"

fun mark_text :: "journal_mark \<Rightarrow> string option" where
  "mark_text (StartedText d) = Some d"
| "mark_text (StoppedText d) = Some d"
| "mark_text (FailedText d) = Some d"
| "mark_text (ProgressText d) = Some d"
| "mark_text _ = None"

definition entry_json :: "journal_mark \<Rightarrow> string \<Rightarrow> nat \<Rightarrow> string \<Rightarrow> json" where
  "entry_json m unit us boot = JObj (mark_member m # (if unit = [] then [] else [(''UNIT'', JStr unit)]) @
     [(''_BOOT_ID'', JStr boot), (''__REALTIME_TIMESTAMP'', JStr (show_nat us))])"

fun item_line :: "journal_item \<Rightarrow> string" where
  "item_line (Entry m unit us boot) = json_print (entry_json m unit us boot)"
| "item_line (Damaged line) = line"

text \<open>Lines of less than a mebibyte, ASCII text, and times before the year 2262.\<close>

fun item_ok :: "journal_item \<Rightarrow> bool" where
  "item_ok (Entry m unit us boot) \<longleftrightarrow> 0 < us \<and> us * 1000 < 2 ^ 63 \<and> ascii unit \<and> ascii boot \<and>
     (case mark_text m of None \<Rightarrow> True | Some d \<Rightarrow> ascii d \<and> d \<noteq> [] \<and> printable (last d)) \<and>
     length (item_line (Entry m unit us boot)) < 1048576"
| "item_ok (Damaged line) \<longleftrightarrow> nl \<notin> set line \<and> json_parse (dropCR line) = None \<and> length line < 1048576"

text \<open>The transitions a journal holds: the starts, stops and failures of the unit inside the interval.\<close>

fun mark_state :: "journal_mark \<Rightarrow> availability option" where
  "mark_state StartedId = Some StateUp"
| "mark_state (StartedText d) = Some StateUp"
| "mark_state (ProgressText d) = None"
| "mark_state _ = Some StateDown"

fun item_events :: "string \<Rightarrow> go_time \<Rightarrow> go_time \<Rightarrow> journal_item \<Rightarrow> event list" where
  "item_events service from to (Entry m unit us boot) =
     (case mark_state m of None \<Rightarrow> []
      | Some state \<Rightarrow>
        if (unit = [] \<or> unit = service) \<and> from \<le> int us * 1000 \<and> int us * 1000 < to
        then [\<lparr>ev_Sequence = 0, ev_Service = service, ev_State = state, ev_EventTimeUnixMS = int (us div 1000),
               ev_EventTimeMonotonicUS = 0, ev_BootID = CanonicalBootID boot, ev_Source = SourceRecovery,
               ev_SystemdActiveState = AvailabilityState_String state, ev_SystemdSubState = []\<rparr>]
        else [])"
| "item_events service from to (Damaged line) = []"

text \<open>A run that prints a journal, and one that ends with exit status 1 because there are no entries.\<close>

definition prints :: "jc_run \<Rightarrow> journal_item list \<Rightarrow> bool" where
  "prints r items \<longleftrightarrow> jc_stdoutPipeErr r = None \<and> jc_stderrPipeErr r = None \<and> jc_startErr r = None \<and> jc_readErr r = None \<and>
     jc_waitErr r = None \<and> list_all item_ok items \<and> jc_stdout r = concat (map (\<lambda>i. item_line i @ [nl]) items)"

definition no_entries :: "jc_run \<Rightarrow> bool" where
  "no_entries r \<longleftrightarrow> jc_stdoutPipeErr r = None \<and> jc_stderrPipeErr r = None \<and> jc_startErr r = None \<and> jc_readErr r = None \<and>
     jc_stdout r = [] \<and> (\<exists>msg. jc_waitErr r = Some (ExitError 1 msg))"

lemma show_nat_ascii: "ascii (show_nat n)"
  using show_nat_digits [of n] by (auto simp: ascii_def is_digit_def list_all_iff less_eq_char_def)

lemma entry_json_ok: "item_ok (Entry m unit us boot) \<Longrightarrow> json_ok (entry_json m unit us boot)"
  using show_nat_ascii [of us] by (cases m) (auto simp: entry_json_def ascii_def)

lemma mark_messageState:
  assumes "item_ok (Entry m unit us boot)" and "mark_member m = (name, JStr v)"
  shows "messageState (if name = ''MESSAGE_ID'' then v else []) (if name = ''MESSAGE'' then v else []) = mark_state m"
proof -
  have ids: "messageState ''39f53479d3a045ac8e11786248231fbf'' [] = Some StateUp"
    "messageState ''9d1aaa27d60140bd96365438aad20286'' [] = Some StateDown"
    "messageState ''7d4958e842da4a758f6c1cdc7b36dcc5'' [] = Some StateDown"
    by (simp_all add: messageState_def messageIDUnitStarted_def messageIDUnitStopped_def messageIDUnitFailed_def
        TrimSpace_def wide_spaces_def ascii_spaces_def HasPrefix_def ToLower_def ToLower_char_def char_of_eq_iff Let_def)
  have empty: "TrimSpace [] = []" by (simp add: TrimSpace_def)
  have said: "messageState [] (p @ d) = (if HasPrefix (ToLower p @ ToLower d) ''started '' then Some StateUp
      else if HasPrefix (ToLower p @ ToLower d) ''stopped '' \<or> HasPrefix (ToLower p @ ToLower d) ''failed to start '' then Some StateDown
      else None)" if "p \<noteq> []" "printable (hd p)" "d \<noteq> []" "printable (last d)" for p d
    using TrimSpace_printable [of "p @ d"] that
    by (simp add: messageState_def empty messageIDUnitStarted_def messageIDUnitStopped_def messageIDUnitFailed_def ToLower_def Let_def)
  have low: "ToLower ''Started '' = ''started ''" "ToLower ''Stopped '' = ''stopped ''" "ToLower ''Failed to start '' = ''failed to start ''"
    "ToLower ''Starting '' = ''starting ''" by code_simp+
  have prefixes: "HasPrefix (''started '' @ d) ''started ''" "HasPrefix (''stopped '' @ d) ''stopped ''"
    "HasPrefix (''failed to start '' @ d) ''failed to start ''" "\<not> HasPrefix (''stopped '' @ d) ''started ''"
    "\<not> HasPrefix (''failed to start '' @ d) ''started ''" "\<not> HasPrefix (''failed to start '' @ d) ''stopped ''"
    "\<not> HasPrefix (''starting '' @ d) ''started ''" "\<not> HasPrefix (''starting '' @ d) ''stopped ''" for d
    by (simp_all add: HasPrefix_def)
  have progress: "\<not> HasPrefix (''starting '' @ d) ''failed to start ''" for d by (simp add: HasPrefix_def)
  show ?thesis
    using assms ids said [of "''Started ''"] said [of "''Stopped ''"] said [of "''Failed to start ''"] said [of "''Starting ''"]
    by (cases m) (auto simp: low progress prefixes printable_def simp del: append_Cons)
qed

text \<open>The record a line decodes to.\<close>

lemma unmarshal_entry:
  assumes "item_ok (Entry m unit us boot)" and "mark_member m = (name, JStr v)"
  shows "unmarshal_record (item_line (Entry m unit us boot)) =
     Some \<lparr>jr_Message = (if name = ''MESSAGE'' then v else []), jr_MessageID = (if name = ''MESSAGE_ID'' then v else []),
           jr_SystemdUnit = [], jr_Unit = unit, jr_BootID = boot, jr_RTUS = show_nat us\<rparr>"
proof -
  have "name = ''MESSAGE'' \<or> name = ''MESSAGE_ID''" using assms(2) by (cases m) auto
  moreover have "json_parse (item_line (Entry m unit us boot)) = Some (entry_json m unit us boot)"
    using json_roundtrip [OF entry_json_ok [OF assms(1)]] by simp
  ultimately show ?thesis
    using assms(2)
    by (elim disjE; cases "unit = []")
      (simp_all add: unmarshal_record_def entry_json_def decode_struct_def record_fields_def ToLower_def ToLower_char_def
        char_of_eq_iff zero_record_def)
qed

lemma parse_timestamp:
  assumes "0 < us" and "us < 2 ^ 63"
  shows "parseTimestampUS (show_nat us) = int us"
proof -
  have "printable (hd (show_nat us))" "printable (last (show_nat us))"
    using show_nat_digits [of us] show_nat_nonempty [of us] by (auto intro!: digit_printable simp: list_all_iff)
  then have "TrimSpace (show_nat us) = show_nat us" by (intro TrimSpace_printable) simp_all
  moreover have "ParseInt64 (show_nat us) = Some (int us)"
    using ParseInt64_show [of "int us"] assms(2) by (simp add: show_int_def)
  ultimately show ?thesis using assms(1) by (simp add: parseTimestampUS_def)
qed

lemma dropCR_entry: "dropCR (item_line (Entry m unit us boot)) = item_line (Entry m unit us boot)"
proof -
  let ?ms = "mark_member m # (if unit = [] then [] else [(''UNIT'', JStr unit)]) @
     [(''_BOOT_ID'', JStr boot), (''__REALTIME_TIMESTAMP'', JStr (show_nat us))]"
  obtain s where "print_members ?ms = s @ [CHR 0x7D]" using print_members_last [of ?ms] by blast
  then have "item_line (Entry m unit us boot) = (CHR 0x7B # s) @ [CHR 0x7D]"
    unfolding item_line.simps entry_json_def json_print.simps by simp
  then show ?thesis unfolding dropCR_def by simp
qed

lemma recover_item:
  assumes "item_ok i"
  shows "(case recover_line service from to (dropCR (item_line i)) of None \<Rightarrow> [] | Some ev \<Rightarrow> [ev]) = item_events service from to i"
proof (cases i)
  case (Damaged line)
  then show ?thesis using assms by (simp add: recover_line_def unmarshal_record_def)
next
  case (Entry m unit us boot)
  obtain name v where mm: "mark_member m = (name, JStr v)" by (cases m) auto
  note ok = assms [unfolded Entry]
  note st = mark_messageState [OF ok mm] and un = unmarshal_entry [OF ok mm, unfolded item_line.simps]
  have us: "parseTimestampUS (show_nat us) = int us" "wrap64 (int us * 1000) = int us * 1000" "go_div (int us) 1000 = int (us div 1000)"
    using ok by (auto intro!: parse_timestamp wrap64_id simp: go_div_pos zdiv_int)
  show ?thesis
    using ok dropCR_entry [of m unit us boot] by (cases "mark_state m") (auto simp: Entry recover_line_def un st us Let_def)
qed

lemma split_lines_line: "nl \<notin> set l \<Longrightarrow> split_lines acc (l @ nl # s) = (acc @ l) # split_lines [] s"
  by (induction l arbitrary: acc) auto

lemma item_line_no_nl: "item_ok i \<Longrightarrow> nl \<notin> set (item_line i)"
  using json_print_no_nl(1) [OF entry_json_ok] by (cases i) (auto simp: nl_def)

lemma split_items:
  "list_all item_ok items \<Longrightarrow> split_lines [] (concat (map (\<lambda>i. item_line i @ [nl]) items)) = map item_line items"
  by (induction items) (simp_all add: split_lines_line item_line_no_nl)

lemma scan_items:
  assumes "list_all item_ok items"
  shows "scan_lines (concat (map (\<lambda>i. item_line i @ [nl]) items)) None = (map (\<lambda>i. dropCR (item_line i)) items, None)"
proof -
  have "length (item_line i) < 1048576" if "i \<in> set items" for i
    using assms that by (cases i) (auto simp: list_all_iff)
  then have fit: "takeWhile (\<lambda>l. length l < 1048576) (map item_line items) = map item_line items"
    by (auto simp: takeWhile_eq_all_conv)
  show ?thesis unfolding scan_lines_def split_items [OF assms] Let_def fit by simp
qed

lemma recover_items:
  "list_all item_ok items \<Longrightarrow>
     List.map_filter (recover_line service from to) (map (\<lambda>i. dropCR (item_line i)) items) = concat (map (item_events service from to) items)"
proof (induction items)
  case (Cons i items)
  then show ?case using recover_item [of i service "from" to] by (auto simp: map_filter_simps split: option.splits)
qed (simp add: map_filter_simps)

lemma recoverUnit_prints:
  "prints (journalctl (recover_args loc service from to)) items \<Longrightarrow>
     recoverUnit journalctl loc service from to = Inr (concat (map (item_events service from to) items))"
  by (simp add: recoverUnit_def prints_def scan_items recover_items Let_def)

text \<open>
  What \<open>previousState\<close> finds in a journal printed newest first: the state of the first start, stop or failure
  of the unit before the instant.
\<close>

fun previous_mark :: "string \<Rightarrow> go_time \<Rightarrow> journal_item list \<Rightarrow> availability option" where
  "previous_mark service at' [] = None"
| "previous_mark service at' (Damaged line # items) = previous_mark service at' items"
| "previous_mark service at' (Entry m unit us boot # items) =
     (if mark_state m \<noteq> None \<and> (unit = [] \<or> unit = service) \<and> int (us div 1000) < UnixMilli at' then mark_state m
      else previous_mark service at' items)"

lemma previous_items:
  "list_all item_ok items \<Longrightarrow> previous_loop service at' (map (\<lambda>i. dropCR (item_line i)) items) = previous_mark service at' items"
proof (induction service at' items rule: previous_mark.induct)
  case (3 service at' m unit us boot items)
  obtain name v where mm: "mark_member m = (name, JStr v)" by (cases m) auto
  have ok: "item_ok (Entry m unit us boot)" using "3.prems" by simp
  note st = mark_messageState [OF ok mm] and un = unmarshal_entry [OF ok mm, unfolded item_line.simps]
  have us: "parseTimestampUS (show_nat us) = int us" "go_div (int us) 1000 = int (us div 1000)"
    using ok by (auto intro!: parse_timestamp simp: go_div_pos zdiv_int)
  show ?case
    using "3" ok dropCR_entry [of m unit us boot] by (cases "mark_state m") (auto simp: un st us Let_def)
qed (simp_all add: unmarshal_record_def)

lemma previousState_prints:
  "prints (journalctl (previous_args loc service at')) items \<Longrightarrow>
     previousState journalctl loc service at' = Inr (previous_mark service at' items)"
  by (simp add: previousState_def prints_def scan_items previous_items Let_def split: option.splits)

lemma recoverUnit_no_entries:
  assumes "no_entries (journalctl (recover_args loc service from to))"
  shows "\<exists>err. recoverUnit journalctl loc service from to = Inl err \<and> isNoJournalEntriesError err"
proof -
  obtain msg where "jc_waitErr (journalctl (recover_args loc service from to)) = Some (ExitError 1 msg)"
    using assms by (auto simp: no_entries_def)
  moreover have "isNoJournalEntriesError (jc_fail service (''no journal entries: '' @ msg))"
    using Contains_append [of "''journalctl '' @ service" "'': no journal entries:''" "'' '' @ msg"]
    by (simp add: isNoJournalEntriesError_def jc_fail_def)
  ultimately show ?thesis using assms by (simp add: recoverUnit_def no_entries_def scan_lines_def Let_def)
qed


text \<open>A journal with one start of a unit and one line that is not JSON, and one with no entries.\<close>

definition sample_line :: string where
  "sample_line = json_print (JObj [(''MESSAGE_ID'', JStr messageIDUnitStarted), (''UNIT'', JStr ''a.service''),
     (''_BOOT_ID'', JStr ''AB-c''), (''__REALTIME_TIMESTAMP'', JStr ''1700000000123456'')])"

definition sample_run :: jc_run where
  "sample_run = \<lparr>jc_stdoutPipeErr = None, jc_stderrPipeErr = None, jc_startErr = None,
     jc_stdout = sample_line @ [nl] @ ''--'' @ [nl], jc_readErr = None, jc_stderr = [], jc_waitErr = None\<rparr>"

definition sample_journal :: journalctl where
  "sample_journal args = (if args ! 1 = ''a.service'' then sample_run
     else sample_run\<lparr>jc_stdout := [], jc_waitErr := Some (ExitError 1 ''exit status 1'')\<rparr>)"

lemma sample_prints: "prints sample_run [Entry StartedId ''a.service'' 1700000000123456 ''AB-c'', Damaged ''--'']"
proof -
  have us: "show_nat 1700000000123456 = ''1700000000123456''"
    by (simp add: show_nat.simps digit_char_def char_of_def bit_0)
  have line: "item_line (Entry StartedId ''a.service'' 1700000000123456 ''AB-c'') = sample_line"
    by (simp add: sample_line_def entry_json_def us messageIDUnitStarted_def del: json_print.simps)
  have "length sample_line < 1048576"
    by (simp add: sample_line_def messageIDUnitStarted_def print_str_def esc_char_def)
  then have "item_ok (Entry StartedId ''a.service'' 1700000000123456 ''AB-c'')"
    using line by (simp add: ascii_def)
  moreover have "item_ok (Damaged ''--'')"
    by (simp add: nl_def dropCR_def json_parse_def skip_ws_def json_ws_def parse_num_def)
  ultimately show ?thesis by (simp add: prints_def sample_run_def line del: item_ok.simps item_line.simps(1))
qed


end
