(* ===== verification/Backfill.thy ===== *)
theory Backfill
  imports Journal
begin

text \<open>
  The state timeline of a recovered slot, \<open>BuildStateFill\<close> of \<open>internal/recovery/backfill.go\<close>.

  A run of the loop over the interval ticks is \<open>fill_loop\<close>. What the timeline should be is stated on the
  recovered list as it is, in any order (\<open>latest\<close>, \<open>earliest\<close>, \<open>expected_state\<close>), without the sort, the loop and
  the starting state of the code; \<open>state_at\<close> links the two.
\<close>

section \<open>The state at the start of the slot\<close>

definition invertState :: "availability \<Rightarrow> availability" where
  "invertState state = (if state = StateUp then StateDown else StateUp)"

definition slotStartState ::
  "journalctl \<Rightarrow> location \<Rightarrow> string \<Rightarrow> go_time \<Rightarrow> event list \<Rightarrow> (string \<Rightarrow> availability option)
     \<Rightarrow> string + availability" where
  "slotStartState journalctl loc service start events current =
     (case events of ev # _ \<Rightarrow> Inr (invertState (ev_State ev))
      | [] \<Rightarrow>
        let ask = (case previousState journalctl loc service start of
                     Inl err \<Rightarrow> Inl err
                   | Inr None \<Rightarrow> Inr StateDown
                   | Inr (Some state) \<Rightarrow> Inr state)
        in case current service of
             Some state \<Rightarrow> if state \<noteq> StateUnknown then Inr state else ask
           | None \<Rightarrow> ask)"

section \<open>Filling the slot\<close>

definition sample_of_event :: "string \<Rightarrow> event \<Rightarrow> state_sample" where
  "sample_of_event service ev =
     \<lparr>ss_Service = service, ss_State = ev_State ev, ss_TimestampUnixMS = ev_EventTimeUnixMS ev\<rparr>"

text \<open>The inner loop: the events up to \<open>ms\<close> become samples; the rest is kept.\<close>

fun emit_due ::
  "string \<Rightarrow> int \<Rightarrow> availability \<Rightarrow> event list \<Rightarrow> state_sample list \<times> availability \<times> event list" where
  "emit_due service ms state [] = ([], state, [])"
| "emit_due service ms state (ev # evs) =
     (if ev_EventTimeUnixMS ev \<le> ms
      then (case emit_due service ms (ev_State ev) evs of (xs, state', rest) \<Rightarrow>
              (sample_of_event service ev # xs, state', rest))
      else ([], state, ev # evs))"

text \<open>The loop over the ticks and, behind it, the loop over the remaining events.\<close>

function fill_loop ::
  "string \<Rightarrow> duration \<Rightarrow> go_time \<Rightarrow> go_time \<Rightarrow> availability \<Rightarrow> event list \<Rightarrow> state_sample list" where
  "fill_loop service interval end ts state evs =
     (if 0 < interval \<and> ts < end
      then (case emit_due service (UnixMilli ts) state evs of (xs, state', rest) \<Rightarrow>
              xs @ \<lparr>ss_Service = service, ss_State = state', ss_TimestampUnixMS = UnixMilli ts\<rparr> #
              fill_loop service interval end (ts + interval) state' rest)
      else map (sample_of_event service) evs)"
  by pat_completeness auto
termination
  by (relation "measure (\<lambda>(service, interval, end, ts, state, evs). nat (end - ts))") auto

declare fill_loop.simps [simp del]

text \<open>The events of one service inside the slot, in stable time order.\<close>

definition slot_events :: "go_time \<Rightarrow> go_time \<Rightarrow> event list \<Rightarrow> string \<Rightarrow> event list" where
  "slot_events start end events service =
     sort_key ev_EventTimeUnixMS
       (filter (\<lambda>ev. ev_Service ev = service \<and> \<not> (ev_EventTimeUnixMS ev < UnixMilli start \<or>
          ev_EventTimeUnixMS ev \<ge> UnixMilli end)) events)"

fun fill_services ::
  "journalctl \<Rightarrow> location \<Rightarrow> string list \<Rightarrow> go_time \<Rightarrow> go_time \<Rightarrow> event list \<Rightarrow> duration
     \<Rightarrow> (string \<Rightarrow> availability option) \<Rightarrow> state_sample list \<Rightarrow> string + state_sample list" where
  "fill_services journalctl loc [] start end events interval current out = Inr out"
| "fill_services journalctl loc (service # services) start end events interval current out =
     (let evs = slot_events start end events service in
      case slotStartState journalctl loc service start evs current of
        Inl err \<Rightarrow> Inl err
      | Inr state \<Rightarrow> fill_services journalctl loc services start end events interval current
                       (out @ fill_loop service interval end start state evs))"

definition sample_order :: "state_sample \<Rightarrow> int \<times> string" where
  "sample_order x = (ss_TimestampUnixMS x, ss_Service x)"

definition BuildStateFill ::
  "journalctl \<Rightarrow> location \<Rightarrow> string list \<Rightarrow> go_time \<Rightarrow> go_time \<Rightarrow> event list \<Rightarrow> duration
     \<Rightarrow> (string \<Rightarrow> availability option) \<Rightarrow> string + state_sample list" where
  "BuildStateFill journalctl loc services start end events interval current =
     (if interval \<le> 0 \<or> \<not> start < end then Inr []
      else case fill_services journalctl loc services start end events interval current [] of
          Inl err \<Rightarrow> Inl err | Inr out \<Rightarrow> Inr (sort_key sample_order out))"

section \<open>What the loop produces\<close>

text \<open>The state in force at a time: that of the last event at or before it, or the one before all events.\<close>

fun state_at :: "availability \<Rightarrow> event list \<Rightarrow> int \<Rightarrow> availability" where
  "state_at s0 [] ms = s0"
| "state_at s0 (ev # evs) ms = (if ev_EventTimeUnixMS ev \<le> ms then state_at (ev_State ev) evs ms else s0)"

lemma emit_due_spec:
  "emit_due service ms state evs =
     (map (sample_of_event service) (takeWhile (\<lambda>ev. ev_EventTimeUnixMS ev \<le> ms) evs),
      state_at state evs ms, dropWhile (\<lambda>ev. ev_EventTimeUnixMS ev \<le> ms) evs)"
  by (induction service ms state evs rule: emit_due.induct) auto

lemma state_at_drop:
  assumes "ms \<le> ms'"
  shows "state_at (state_at s0 evs ms) (dropWhile (\<lambda>ev. ev_EventTimeUnixMS ev \<le> ms) evs) ms' = state_at s0 evs ms'"
  using assms by (induction s0 evs ms rule: state_at.induct) auto

text \<open>The ticks: \<open>start\<close>, \<open>start + interval\<close> and so on, before \<open>end\<close>.\<close>

definition is_tick :: "duration \<Rightarrow> go_time \<Rightarrow> go_time \<Rightarrow> go_time \<Rightarrow> bool" where
  "is_tick interval start end t \<longleftrightarrow> (\<exists>k::nat. t = start + int k * interval) \<and> t < end"

lemma is_tick_first: "ts < end \<Longrightarrow> is_tick interval ts end ts"
  unfolding is_tick_def by (intro conjI exI [of _ 0]) simp_all

lemma is_tick_next:
  assumes "0 < interval" and "is_tick interval ts end t" and "t \<noteq> ts"
  shows "is_tick interval (ts + interval) end t"
proof -
  obtain k where k: "t = ts + int k * interval" "t < end" using assms(2) by (auto simp: is_tick_def)
  with assms(3) obtain j where "k = Suc j" by (cases k) auto
  with k have "t = ts + interval + int j * interval" by (simp add: algebra_simps)
  with k show ?thesis by (auto simp: is_tick_def)
qed

lemma is_tick_later: "is_tick interval (ts + interval) end t \<Longrightarrow> is_tick interval ts end t"
proof -
  assume "is_tick interval (ts + interval) end t"
  then obtain k where "t = ts + interval + int k * interval" "t < end" by (auto simp: is_tick_def)
  then have "t = ts + int (Suc k) * interval \<and> t < end" by (simp add: algebra_simps)
  then show ?thesis unfolding is_tick_def by blast
qed

text \<open>The sample of a tick.\<close>

definition tick_sample :: "string \<Rightarrow> availability \<Rightarrow> event list \<Rightarrow> go_time \<Rightarrow> state_sample" where
  "tick_sample service s0 evs t =
     \<lparr>ss_Service = service, ss_State = state_at s0 evs (UnixMilli t), ss_TimestampUnixMS = UnixMilli t\<rparr>"

lemma fill_loop_set:
  assumes "0 < interval"
  shows "set (fill_loop service interval end ts state evs) =
     sample_of_event service ` set evs \<union> tick_sample service state evs ` {t. is_tick interval ts end t}"
  using assms
proof (induction service interval "end" ts state evs rule: fill_loop.induct)
  case (1 service interval "end" ts state evs)
  show ?case
  proof (cases "ts < end")
    case False
    then have none: "{t. is_tick interval ts end t} = {}"
      using "1.prems" by (auto simp: is_tick_def) (smt (verit) mult_nonneg_nonneg of_nat_0_le_iff)
    show ?thesis unfolding none using False by (subst fill_loop.simps) simp
  next
    case True
    let ?ms = "UnixMilli ts"
    let ?due = "\<lambda>ev. ev_EventTimeUnixMS ev \<le> ?ms"
    let ?later = "{t. is_tick interval (ts + interval) end t}"
    have "set (fill_loop service interval end (ts + interval) (state_at state evs ?ms) (dropWhile ?due evs)) =
        sample_of_event service ` set (dropWhile ?due evs) \<union>
        tick_sample service (state_at state evs ?ms) (dropWhile ?due evs) ` ?later"
      using "1.IH" [OF _ emit_due_spec [of service ?ms state evs, symmetric]] "1.prems" True by blast
    also have "tick_sample service (state_at state evs ?ms) (dropWhile ?due evs) ` ?later =
        tick_sample service state evs ` ?later"
    proof (rule image_cong [OF refl])
      fix t
      assume "t \<in> ?later"
      then have "?ms \<le> UnixMilli t" using "1.prems" by (intro UnixMilli_mono) (auto simp: is_tick_def)
      then show "tick_sample service (state_at state evs ?ms) (dropWhile ?due evs) t = tick_sample service state evs t"
        by (simp add: tick_sample_def state_at_drop)
    qed
    finally have IH: "set (fill_loop service interval end (ts + interval) (state_at state evs ?ms) (dropWhile ?due evs)) =
        sample_of_event service ` set (dropWhile ?due evs) \<union> tick_sample service state evs ` ?later" .
    have ticks: "{t. is_tick interval ts end t} = insert ts ?later"
      using is_tick_first [OF True] is_tick_next [OF "1.prems"] is_tick_later by blast
    have evs: "set evs = set (takeWhile ?due evs) \<union> set (dropWhile ?due evs)"
      by (metis set_append takeWhile_dropWhile_id)
    have "set (fill_loop service interval end ts state evs) = sample_of_event service ` set (takeWhile ?due evs) \<union>
        {tick_sample service state evs ts} \<union> sample_of_event service ` set (dropWhile ?due evs) \<union>
        tick_sample service state evs ` ?later"
      using True "1.prems" by (subst fill_loop.simps) (auto simp: emit_due_spec IH tick_sample_def)
    then show ?thesis unfolding ticks evs image_Un by blast
  qed
qed

lemma fill_services_set:
  assumes "fill_services journalctl loc services start end events interval current out = Inr res" and "0 < interval"
  shows "\<exists>s0. set res = set out \<union> (\<Union>service \<in> set services.
       sample_of_event service ` set (slot_events start end events service) \<union>
       tick_sample service (s0 service) (slot_events start end events service) ` {t. is_tick interval start end t}) \<and>
     (\<forall>service \<in> set services. slotStartState journalctl loc service start
        (slot_events start end events service) current = Inr (s0 service))"
  using assms(1)
proof (induction services arbitrary: out)
  case (Cons service services)
  let ?evs = "slot_events start end events service"
  obtain st where st: "slotStartState journalctl loc service start ?evs current = Inr st"
    using Cons.prems by (auto simp: Let_def split: sum.splits)
  from Cons.IH [of "out @ fill_loop service interval end start st ?evs"] Cons.prems st
  obtain s0 where s0: "set res = set (out @ fill_loop service interval end start st ?evs) \<union>
      (\<Union>x \<in> set services. sample_of_event x ` set (slot_events start end events x) \<union>
         tick_sample x (s0 x) (slot_events start end events x) ` {t. is_tick interval start end t})"
    and st0: "\<forall>x \<in> set services. slotStartState journalctl loc x start (slot_events start end events x) current = Inr (s0 x)"
    by (auto simp: Let_def)
  let ?s1 = "s0(service := st)"
  have "?s1 x = s0 x" if "x \<in> set services" for x
    using that st st0 by (cases "x = service") auto
  then show ?case
    using s0 st st0 by (intro exI [of _ ?s1]) (auto simp: fill_loop_set [OF assms(2)])
qed simp

lemma slot_events_mem:
  "ev \<in> set (slot_events start end events service) \<longleftrightarrow> ev \<in> set events \<and> ev_Service ev = service \<and>
     UnixMilli start \<le> ev_EventTimeUnixMS ev \<and> ev_EventTimeUnixMS ev < UnixMilli end"
  by (auto simp: slot_events_def)

lemma tick_within:
  assumes "0 < interval" and "is_tick interval start end t"
  shows "UnixMilli start \<le> UnixMilli t \<and> UnixMilli t \<le> UnixMilli end"
  using assms by (auto simp: is_tick_def intro!: UnixMilli_mono)

section \<open>The timeline against the transitions as recovered\<close>

text \<open>
  The latest and the earliest of a list of transitions in any order: at the same millisecond the one later
  in the list is the later one.
\<close>

fun latest :: "event list \<Rightarrow> event option" where
  "latest [] = None"
| "latest (ev # evs) =
     (case latest evs of None \<Rightarrow> Some ev
      | Some later \<Rightarrow> Some (if ev_EventTimeUnixMS later < ev_EventTimeUnixMS ev then ev else later))"

fun earliest :: "event list \<Rightarrow> event option" where
  "earliest [] = None"
| "earliest (ev # evs) =
     (case earliest evs of None \<Rightarrow> Some ev
      | Some first \<Rightarrow> Some (if ev_EventTimeUnixMS ev \<le> ev_EventTimeUnixMS first then ev else first))"

lemma last_insort:
  "sorted (map t ys) \<Longrightarrow> last (insort_key t x ys) = (if ys = [] \<or> t (last ys) < t x then x else last ys)"
proof (induction ys)
  case (Cons y ys)
  then have "\<not> t (last ys) < t x" if "ys \<noteq> []" "t x \<le> t y"
    using that by (auto simp: not_less intro: order_trans)
  then show ?case using Cons by auto
qed simp

lemma sort_key_empty: "sort_key t xs = [] \<longleftrightarrow> xs = []"
  using length_sort [of t xs] by (metis length_0_conv)

lemma latest_sorted: "latest evs = (if evs = [] then None else Some (last (sort_key ev_EventTimeUnixMS evs)))"
  by (induction evs) (auto simp: last_insort sort_key_empty)

lemma earliest_sorted: "earliest evs = (if evs = [] then None else Some (hd (sort_key ev_EventTimeUnixMS evs)))"
proof (induction evs)
  case (Cons ev evs)
  then show ?case by (cases "sort_key ev_EventTimeUnixMS evs") (auto simp: sort_key_empty)
qed simp

lemma state_at_last:
  "sorted (map ev_EventTimeUnixMS evs) \<Longrightarrow> state_at s0 evs ms =
     (let due = filter (\<lambda>ev. ev_EventTimeUnixMS ev \<le> ms) evs in if due = [] then s0 else ev_State (last due))"
  by (induction evs arbitrary: s0) (auto simp: Let_def filter_empty_conv)

text \<open>The transitions of a service inside the slot, and the state a service has at a time in it.\<close>

definition in_slot :: "go_time \<Rightarrow> go_time \<Rightarrow> string \<Rightarrow> event \<Rightarrow> bool" where
  "in_slot start end service ev \<longleftrightarrow> ev_Service ev = service \<and>
     UnixMilli start \<le> ev_EventTimeUnixMS ev \<and> ev_EventTimeUnixMS ev < UnixMilli end"

definition expected_state ::
  "journalctl \<Rightarrow> location \<Rightarrow> go_time \<Rightarrow> go_time \<Rightarrow> event list \<Rightarrow> (string \<Rightarrow> availability option) \<Rightarrow> string
     \<Rightarrow> int \<Rightarrow> string + availability" where
  "expected_state journalctl loc start end events current service ms =
     (case latest (filter (\<lambda>ev. in_slot start end service ev \<and> ev_EventTimeUnixMS ev \<le> ms) events) of
        Some ev \<Rightarrow> Inr (ev_State ev)
      | None \<Rightarrow>
        case earliest (filter (in_slot start end service) events) of
          Some ev \<Rightarrow> Inr (if ev_State ev = StateUp then StateDown else StateUp)
        | None \<Rightarrow>
          if current service \<notin> {None, Some StateUnknown} then Inr (the (current service))
          else (case previousState journalctl loc service start of
                  Inr (Some state) \<Rightarrow> Inr state | Inr None \<Rightarrow> Inr StateDown | Inl err \<Rightarrow> Inl err))"

lemma slot_events_alt: "slot_events start end events service = sort_key ev_EventTimeUnixMS (filter (in_slot start end service) events)"
  by (auto simp: slot_events_def in_slot_def not_le not_less intro!: arg_cong [of _ _ "sort_key ev_EventTimeUnixMS"] filter_cong)

lemma slotStartState_expected:
  assumes "slotStartState journalctl loc service start (slot_events start end events service) current = Inr s0"
  shows "expected_state journalctl loc start end events current service ms =
     Inr (state_at s0 (slot_events start end events service) ms)"
proof -
  let ?evs = "filter (in_slot start end service) events" and ?due = "\<lambda>ev. ev_EventTimeUnixMS ev \<le> ms"
  have due: "filter (\<lambda>ev. in_slot start end service ev \<and> ?due ev) events = filter ?due ?evs" by (simp add: conj_commute)
  have "state_at s0 (slot_events start end events service) ms =
      (case latest (filter ?due ?evs) of None \<Rightarrow> s0 | Some ev \<Rightarrow> ev_State ev)"
    by (simp add: slot_events_alt state_at_last filter_sort latest_sorted sort_key_empty Let_def)
  moreover have "s0 = (if ev_State ev = StateUp then StateDown else StateUp)" if "earliest ?evs = Some ev" for ev
    using that assms unfolding earliest_sorted slotStartState_def invertState_def slot_events_alt
    by (cases "sort_key ev_EventTimeUnixMS ?evs") (auto split: if_splits simp: sort_key_empty)
  moreover have "Inr s0 = (if current service \<notin> {None, Some StateUnknown} then Inr (the (current service))
      else (case previousState journalctl loc service start of
           Inr (Some state) \<Rightarrow> Inr state | Inr None \<Rightarrow> Inr StateDown | Inl err \<Rightarrow> Inl err))" if "earliest ?evs = None"
    using that assms unfolding earliest_sorted slotStartState_def slot_events_alt
    by (auto simp: Let_def split: option.splits sum.splits if_splits)
  ultimately show ?thesis
    unfolding expected_state_def due by (auto split: option.splits)
qed


text \<open>Two ticks, a stop between them, which makes the service up at the start of the slot, and a later start listed first.\<close>

definition sample_stop :: event where
  "sample_stop = \<lparr>ev_Sequence = 0, ev_Service = ''a.service'', ev_State = StateDown, ev_EventTimeUnixMS = 1500,
     ev_EventTimeMonotonicUS = 0, ev_BootID = [], ev_Source = SourceRecovery,
     ev_SystemdActiveState = ''down'', ev_SystemdSubState = []\<rparr>"

definition sample_fill :: "string + state_sample list" where
  "sample_fill = BuildStateFill sample_journal \<lparr>loc_first = 0, loc_changes = []\<rparr> [''a.service''] Second (3 * Second)
     [sample_stop\<lparr>ev_State := StateUp, ev_EventTimeUnixMS := 2500\<rparr>, sample_stop] Second (\<lambda>_. None)"


end
