(* ===== verification/RemoteWrite.thy ===== *)
theory RemoteWrite
  imports Model GoJson "HOL-Library.AList" "HOL-Library.Multiset"
begin

text \<open>
  The Remote Write sender, \<open>internal/remote_write/remote_write.go\<close>.

  The network is a queue of the results of the successive requests, with a log of the requests made;
  a request whose result is not in the queue is answered 200. The bytes of a request are the snappy
  encoding of its protobuf form, which are opaque here; \<open>marshalErr\<close> is the error of the protobuf
  encoder, a parameter. Whether the context ends while the sender waits for a retry is a queue of its
  own, and so is the outcome of each checkpoint write, which names the first call that fails.
  Counters are 64-bit words. The two mutexes make each exported method one step.
\<close>

section \<open>Configuration, requests and errors\<close>

record rw_config =
  rw_Enabled :: bool
  rw_URL :: string
  rw_BatchSize :: int
  rw_FlushInterval :: duration
  rw_RetryInterval :: duration
  rw_Timeout :: duration
  rw_Checkpoint :: string
  rw_StateInterval :: duration
  rw_Labels :: "(string \<times> string) list"

record rw_stats =
  SuccessfulRequests :: uint64
  FailedRequests :: uint64
  Retries :: uint64
  SentSamples :: uint64

definition maxAttempts :: nat where
  "maxAttempts = 3"

datatype rw_error = PermanentError int | RwError string

definition PermanentError_Error :: "int \<Rightarrow> string" where
  "PermanentError_Error code =
     ''remote_write rejected request: HTTP '' @ show_int code @
     (if code = 400 then ''; if another exporter writes systemd_service_state with the same labels, '' @
        ''samples collide and the receiver rejects them as out of order'' else [])"

definition IsPermanent :: "rw_error \<Rightarrow> bool" where
  "IsPermanent err \<longleftrightarrow> (case err of PermanentError _ \<Rightarrow> True | RwError _ \<Rightarrow> False)"

text \<open>\<open>prompb\<close>: a label is a name and a value; a sample is a value, 0 or 1, and a timestamp.\<close>

type_synonym label = "string \<times> string"

record prom_sample =
  ps_Value :: nat
  ps_Timestamp :: int

record time_series =
  ts_Labels :: "label list"
  ts_Samples :: "prom_sample list"

type_synonym write_request = "time_series list"

datatype http_result = HttpStatus int | HttpError string

section \<open>The sender\<close>

datatype ck_step = CkMkdir | CkOpen | CkWrite | CkSync | CkClose | CkRename | CkDirOpen | CkDirSync | CkDirClose

record sender =
  sd_cfg :: rw_config
  sd_lastSent :: uint64
  sd_successfulRequests :: uint64
  sd_failedRequests :: uint64
  sd_retries :: uint64
  sd_sentSamples :: uint64
  sd_file :: "string option"
  sd_saves :: "(ck_step \<times> string) option list"
  sd_results :: "http_result list"
  sd_cancels :: "string option list"
  sd_log :: "(write_request \<times> http_result) list"

definition checkpoint_fields :: "uint64 json_fields" where
  "checkpoint_fields = [(''last_sequence'', put_uint 64 (\<lambda>n _. of_nat n))]"

definition marshal_checkpoint :: "uint64 \<Rightarrow> string" where
  "marshal_checkpoint seq = json_print (JObj [(''last_sequence'', json_uint seq)])"

definition unmarshal_checkpoint :: "string \<Rightarrow> uint64 option" where
  "unmarshal_checkpoint s = Option.bind (json_parse s) (decode_struct checkpoint_fields 0)"

text \<open>\<open>loadCheckpoint\<close>; \<open>readErr\<close> is the error of reading an existing file.\<close>

definition loadCheckpoint :: "string option \<Rightarrow> sender \<Rightarrow> rw_error option \<times> sender" where
  "loadCheckpoint readErr s =
     (case sd_file s of None \<Rightarrow> (None, s)
      | Some data \<Rightarrow>
        case readErr of Some e \<Rightarrow> (Some (RwError (''read remote_write checkpoint: '' @ e)), s)
        | None \<Rightarrow>
          case unmarshal_checkpoint data of
            None \<Rightarrow> (Some (RwError ''decode remote_write checkpoint''), s)
          | Some seq \<Rightarrow> (None, s\<lparr>sd_lastSent := seq\<rparr>))"

text \<open>\<open>New(cfg)\<close>: \<open>Inr None\<close> is the nil sender of a disabled target; \<open>s0\<close> carries the environment.\<close>

definition with_defaults :: "rw_config \<Rightarrow> rw_config" where
  "with_defaults cfg =
     cfg\<lparr>rw_BatchSize := (if rw_BatchSize cfg \<le> 0 then 100 else rw_BatchSize cfg),
         rw_FlushInterval := (if rw_FlushInterval cfg \<le> 0 then Second else rw_FlushInterval cfg),
         rw_RetryInterval := (if rw_RetryInterval cfg \<le> 0 then Second else rw_RetryInterval cfg),
         rw_Timeout := (if rw_Timeout cfg \<le> 0 then 10 * Second else rw_Timeout cfg),
         rw_StateInterval := (if rw_StateInterval cfg \<le> 0 then Minute else rw_StateInterval cfg),
         rw_Checkpoint := (if rw_Checkpoint cfg = [] then
            ''/var/lib/systemd-transition-exporter/remote_write.checkpoint'' else rw_Checkpoint cfg)\<rparr>"

definition Sender_New :: "rw_config \<Rightarrow> string option \<Rightarrow> sender \<Rightarrow> rw_error + sender option" where
  "Sender_New cfg readErr env =
     (if \<not> rw_Enabled cfg then Inr None
      else if rw_URL cfg = [] then Inl (RwError ''remote_write.url is required when enabled'')
      else let s = env\<lparr>sd_cfg := with_defaults cfg, sd_lastSent := 0, sd_successfulRequests := 0,
                       sd_failedRequests := 0, sd_retries := 0, sd_sentSamples := 0\<rparr>
           in case loadCheckpoint readErr s of (Some e, _) \<Rightarrow> Inl e | (None, s1) \<Rightarrow> Inr (Some s1))"

definition LastSent :: "sender \<Rightarrow> uint64" where
  "LastSent s = sd_lastSent s"

definition Stats :: "sender \<Rightarrow> rw_stats" where
  "Stats s = \<lparr>SuccessfulRequests = sd_successfulRequests s, FailedRequests = sd_failedRequests s,
     Retries = sd_retries s, SentSamples = sd_sentSamples s\<rparr>"

section \<open>Building a request\<close>

definition rw_labels :: "rw_config \<Rightarrow> string \<Rightarrow> label list" where
  "rw_labels cfg service =
     [(''__name__'', ''systemd_service_state''), (''name'', service)] @
     sort_key fst (filter (\<lambda>(n, v). n \<noteq> ''__name__'' \<and> n \<noteq> ''name'') (rw_Labels cfg))"

text \<open>The map from services to their series, in the order in which they first occur.\<close>

type_synonym series_map = "(string \<times> time_series) list"

definition add_sample :: "rw_config \<Rightarrow> string \<Rightarrow> prom_sample \<Rightarrow> series_map \<Rightarrow> series_map" where
  "add_sample cfg service x series =
     (let ts = (case map_of series service of Some ts \<Rightarrow> ts
                | None \<Rightarrow> \<lparr>ts_Labels = rw_labels cfg service, ts_Samples = []\<rparr>)
      in AList.update service (ts\<lparr>ts_Samples := ts_Samples ts @ [x]\<rparr>) series)"

definition state_value :: "availability \<Rightarrow> nat" where
  "state_value state = (if state = StateUp then 1 else 0)"

definition event_series :: "rw_config \<Rightarrow> event list \<Rightarrow> series_map" where
  "event_series cfg events =
     fold (\<lambda>e. add_sample cfg (ev_Service e)
        \<lparr>ps_Value = state_value (ev_State e), ps_Timestamp = ev_EventTimeUnixMS e\<rparr>) events []"

definition state_series :: "rw_config \<Rightarrow> state_sample list \<Rightarrow> series_map" where
  "state_series cfg samples =
     fold (\<lambda>x. add_sample cfg (ss_Service x)
        \<lparr>ps_Value = state_value (ss_State x), ps_Timestamp = ss_TimestampUnixMS x\<rparr>) samples []"

text \<open>
  The request: samples of a series in stable time order, series in the order of the second label's
  value. The map has one series per service, so the order in which it is visited does not matter.
\<close>

definition build_request :: "series_map \<Rightarrow> write_request" where
  "build_request series =
     sort_key (\<lambda>ts. snd (ts_Labels ts ! 1))
       (map (\<lambda>(service, ts). ts\<lparr>ts_Samples := sort_key ps_Timestamp (ts_Samples ts)\<rparr>) series)"

definition sample_count :: "series_map \<Rightarrow> nat" where
  "sample_count series = sum_list (map (\<lambda>(service, ts). length (ts_Samples ts)) series)"

section \<open>Sending\<close>

definition http_Do :: "write_request \<Rightarrow> sender \<Rightarrow> http_result \<times> sender" where
  "http_Do req s =
     (let res = (case sd_results s of [] \<Rightarrow> HttpStatus 200 | r # _ \<Rightarrow> r) in
      (res, s\<lparr>sd_results := tl (sd_results s), sd_log := sd_log s @ [(req, res)]\<rparr>))"

text \<open>The retry wait: the error of a context that ends first, \<open>None\<close> when the timer fires.\<close>

definition wait_retry :: "sender \<Rightarrow> string option \<times> sender" where
  "wait_retry s = (case sd_cancels s of [] \<Rightarrow> None | c # _ \<Rightarrow> c, s\<lparr>sd_cancels := tl (sd_cancels s)\<rparr>)"

text \<open>How the loop of \<open>sendSeries\<close> reads a result: accepted, rejected for good, or an error to retry after.\<close>

fun accepted_2xx :: "http_result \<Rightarrow> bool" where
  "accepted_2xx (HttpStatus code) \<longleftrightarrow> 200 \<le> code \<and> code < 300"
| "accepted_2xx (HttpError _) \<longleftrightarrow> False"

fun rejected_4xx :: "http_result \<Rightarrow> int option" where
  "rejected_4xx (HttpStatus code) = (if 400 \<le> code \<and> code < 500 then Some code else None)"
| "rejected_4xx (HttpError _) = None"

fun last_error :: "http_result \<Rightarrow> rw_error" where
  "last_error (HttpStatus code) = RwError (''remote_write receiver returned HTTP '' @ show_int code)"
| "last_error (HttpError e) = RwError e"

text \<open>The loop from a given attempt on; \<open>reqErr\<close> is the error of \<open>NewRequestWithContext\<close>.\<close>

function send_attempt ::
  "string option \<Rightarrow> nat \<Rightarrow> write_request \<Rightarrow> nat \<Rightarrow> sender \<Rightarrow> rw_error option \<times> sender" where
  "send_attempt reqErr attempt req sampleCount s =
     (case reqErr of Some e \<Rightarrow> (Some (RwError e), s)
      | None \<Rightarrow>
        (case http_Do req s of (res, s1) \<Rightarrow>
           if accepted_2xx res
           then (None, s1\<lparr>sd_successfulRequests := sd_successfulRequests s1 + 1,
                         sd_sentSamples := sd_sentSamples s1 + of_nat sampleCount\<rparr>)
           else
             let s2 = s1\<lparr>sd_failedRequests := sd_failedRequests s1 + 1\<rparr> in
             case rejected_4xx res of Some code \<Rightarrow> (Some (PermanentError code), s2)
             | None \<Rightarrow>
               if attempt \<ge> maxAttempts then (Some (last_error res), s2)
               else
                 (case wait_retry (s2\<lparr>sd_retries := sd_retries s2 + 1\<rparr>) of
                    (Some e, s3) \<Rightarrow> (Some (RwError e), s3)
                  | (None, s3) \<Rightarrow> send_attempt reqErr (attempt + 1) req sampleCount s3)))"
  by pat_completeness auto
termination
  by (relation "measure (\<lambda>(reqErr, attempt, req, sampleCount, s). maxAttempts - attempt)") auto

declare send_attempt.simps [simp del]

text \<open>The parameters of the environment that do not change: the encoder and the request constructor.\<close>

record transport =
  tr_marshalErr :: "write_request \<Rightarrow> string option"
  tr_reqErr :: "string option"

definition sendSeries :: "transport \<Rightarrow> series_map \<Rightarrow> sender \<Rightarrow> rw_error option \<times> sender" where
  "sendSeries tr series s =
     (let request = build_request series in
      case tr_marshalErr tr request of
        Some e \<Rightarrow> (Some (RwError (''marshal remote_write request: '' @ e)), s)
      | None \<Rightarrow> send_attempt (tr_reqErr tr) 1 request (sample_count series) s)"

definition sendBatch :: "transport \<Rightarrow> event list \<Rightarrow> sender \<Rightarrow> rw_error option \<times> sender" where
  "sendBatch tr events s = sendSeries tr (event_series (sd_cfg s) events) s"

text \<open>
  \<open>saveCheckpoint(seq)\<close>. The file is replaced when the rename is reached; the sequence in memory advances
  only when every call succeeds. The temporary file is never read.
\<close>

definition ck_message :: "ck_step \<Rightarrow> string" where
  "ck_message step1 =
     (case step1 of CkMkdir \<Rightarrow> [] | CkOpen \<Rightarrow> ''open checkpoint temporary file: ''
      | CkWrite \<Rightarrow> ''write checkpoint temporary file: '' | CkSync \<Rightarrow> ''sync checkpoint temporary file: ''
      | CkClose \<Rightarrow> ''close checkpoint temporary file: '' | CkRename \<Rightarrow> ''rename checkpoint temporary file: ''
      | CkDirOpen \<Rightarrow> ''open checkpoint directory: '' | CkDirSync \<Rightarrow> ''sync checkpoint directory: ''
      | CkDirClose \<Rightarrow> ''close checkpoint directory: '')"

definition saveCheckpoint :: "uint64 \<Rightarrow> sender \<Rightarrow> rw_error option \<times> sender" where
  "saveCheckpoint seq s =
     (if seq \<le> sd_lastSent s then (None, s)
      else
        let data = marshal_checkpoint seq @ [nl];
            out = (case sd_saves s of [] \<Rightarrow> None | x # _ \<Rightarrow> x);
            s1 = s\<lparr>sd_saves := tl (sd_saves s)\<rparr>
        in case out of
             None \<Rightarrow> (None, s1\<lparr>sd_file := Some data, sd_lastSent := seq\<rparr>)
           | Some (step1, e) \<Rightarrow>
             (Some (RwError (ck_message step1 @ e)),
              if step1 \<in> {CkDirOpen, CkDirSync, CkDirClose} then s1\<lparr>sd_file := Some data\<rparr> else s1))"

text \<open>
  The loop over the batches. \<open>New\<close> gives every sender a positive batch size; the guard on it only
  makes the recursion total. The sum \<open>start+BatchSize\<close> of the source cannot overflow: a second batch begins
  only when the batch size is below the number of events, and a first one begins at 0.
\<close>

function send_batches :: "transport \<Rightarrow> event list \<Rightarrow> sender \<Rightarrow> rw_error option \<times> sender" where
  "send_batches tr pending s =
     (let n = nat (rw_BatchSize (sd_cfg s)) in
      if pending = [] \<or> n = 0 then (None, s)
      else let batch = take n pending in
        case sendBatch tr batch s of
          (Some err, s1) \<Rightarrow> (Some err, s1)
        | (None, s1) \<Rightarrow>
          (case saveCheckpoint (ev_Sequence (last batch)) s1 of
             (Some (RwError e), s2) \<Rightarrow>
               (Some (RwError (''persist remote_write checkpoint after successful batch: '' @ e)), s2)
           | (Some err, s2) \<Rightarrow> (Some err, s2)
           | (None, s2) \<Rightarrow> send_batches tr (drop n pending) s2))"
  by pat_completeness auto
termination
  by (relation "measure (\<lambda>(tr, pending, s). length pending)") auto

declare send_batches.simps [simp del]

definition sendEventsLocked :: "transport \<Rightarrow> event list \<Rightarrow> sender \<Rightarrow> rw_error option \<times> sender" where
  "sendEventsLocked tr events s =
     (let pending = filter (\<lambda>e. ev_Sequence e > sd_lastSent s) events in
      if pending = [] then (None, s)
      else send_batches tr (sort_key ev_Sequence pending) s)"

text \<open>The exported methods; a nil sender (\<open>None\<close>) and an empty argument do nothing.\<close>

definition Send :: "transport \<Rightarrow> event list \<Rightarrow> sender option \<Rightarrow> rw_error option \<times> sender option" where
  "Send tr events so =
     (case so of None \<Rightarrow> (None, None)
      | Some s \<Rightarrow> if events = [] then (None, Some s)
                  else map_prod id Some (sendEventsLocked tr events s))"

definition SendRecoveredStates ::
  "transport \<Rightarrow> state_sample list \<Rightarrow> sender option \<Rightarrow> rw_error option \<times> sender option" where
  "SendRecoveredStates tr samples so =
     (case so of None \<Rightarrow> (None, None)
      | Some s \<Rightarrow> if samples = [] then (None, Some s)
                  else map_prod id Some (sendSeries tr (state_series (sd_cfg s) samples) s))"

section \<open>Migration of a legacy checkpoint\<close>

text \<open>
  The three files \<open>MigrateCheckpoint\<close> touches, and the first of its calls that fails, with its error;
  \<open>MgExclExists\<close> is the destination appearing between the check and the exclusive create.
\<close>

record mig_files =
  mg_source :: "string option"
  mg_destination :: "string option"
  mg_marker :: "string option"

datatype mig_step = MgReadMarker | MgStat | MgReadSource | MgMkdir | MgExclExists | MgOpen | MgWrite | MgSync
  | MgClose | MgWriteMarker

definition MigrateCheckpoint ::
  "string \<Rightarrow> string \<Rightarrow> (mig_step \<times> string) option \<Rightarrow> mig_files \<Rightarrow> rw_error option \<times> mig_files" where
  "MigrateCheckpoint source destination fault fs =
     (let fails = (\<lambda>step1. case fault of None \<Rightarrow> False | Some (f, _) \<Rightarrow> f = step1);
          text1 = (case fault of None \<Rightarrow> [] | Some (_, e) \<Rightarrow> e);
          mark = fs\<lparr>mg_marker := Some (destination @ [nl])\<rparr>
      in
      if source = [] \<or> destination = [] \<or> source = destination then (None, fs)
      else if fails MgReadMarker then (Some (RwError (''read checkpoint migration marker: '' @ text1)), fs)
      else if mg_marker fs \<noteq> None then (None, fs)
      else if fails MgStat then (Some (RwError (''stat destination checkpoint: '' @ text1)), fs)
      else if mg_destination fs \<noteq> None
      then (if fails MgWriteMarker then (Some (RwError text1), fs) else (None, mark))
      else case mg_source fs of None \<Rightarrow> (None, fs)
      | Some data \<Rightarrow>
        if fails MgReadSource then (Some (RwError (''read legacy remote_write checkpoint: '' @ text1)), fs)
        else if unmarshal_checkpoint data = None
        then (Some (RwError ''decode legacy remote_write checkpoint''), fs)
        else if fails MgMkdir then (Some (RwError (''create checkpoint directory: '' @ text1)), fs)
        else if fails MgExclExists then (None, fs)
        else if fails MgOpen then (Some (RwError (''create migrated checkpoint: '' @ text1)), fs)
        else if fails MgWrite then (Some (RwError (''write migrated checkpoint: '' @ text1)), fs)
        else if fails MgSync then (Some (RwError (''sync migrated checkpoint: '' @ text1)), fs)
        else if fails MgClose then (Some (RwError (''close migrated checkpoint: '' @ text1)), fs)
        else if fails MgWriteMarker then (Some (RwError (''write checkpoint migration marker: '' @ text1)), fs)
        else (None, mark\<lparr>mg_destination := Some (data @ [nl])\<rparr>))"

text \<open>A migration is all or nothing, keeps the source, never replaces a destination, and happens once.\<close>

lemma MigrateCheckpoint_effect:
  assumes "MigrateCheckpoint source destination fault fs = (e, fs')"
  shows "mg_source fs' = mg_source fs \<and>
     (mg_destination fs \<noteq> None \<or> mg_marker fs \<noteq> None \<longrightarrow> mg_destination fs' = mg_destination fs) \<and>
     (e \<noteq> None \<longrightarrow> fs' = fs) \<and>
     (mg_destination fs' \<noteq> mg_destination fs \<longrightarrow> mg_marker fs' \<noteq> None \<and>
        (\<exists>data. mg_source fs = Some data \<and> mg_destination fs' = Some (data @ [nl])))"
  using assms unfolding MigrateCheckpoint_def Let_def
  by (auto split: if_splits option.splits)

section \<open>The request carries exactly its samples\<close>

definition event_sample :: "event \<Rightarrow> prom_sample" where
  "event_sample e = \<lparr>ps_Value = state_value (ev_State e), ps_Timestamp = ev_EventTimeUnixMS e\<rparr>"

lemma event_series_snoc:
  "event_series cfg (evs @ [e]) = add_sample cfg (ev_Service e) (event_sample e) (event_series cfg evs)"
  by (simp add: event_series_def event_sample_def)

lemma event_series_distinct: "distinct (map fst (event_series cfg evs))"
proof (induction evs rule: rev_induct)
  case Nil
  show ?case by (simp add: event_series_def)
next
  case (snoc e evs)
  then show ?case by (simp add: event_series_snoc add_sample_def Let_def distinct_update)
qed

lemma event_series_lookup:
  "map_of (event_series cfg evs) service =
     (if service \<in> ev_Service ` set evs
      then Some \<lparr>ts_Labels = rw_labels cfg service,
                ts_Samples = map event_sample (filter (\<lambda>e. ev_Service e = service) evs)\<rparr>
      else None)"
proof (induction evs rule: rev_induct)
  case Nil
  show ?case by (simp add: event_series_def)
next
  case (snoc e evs)
  then show ?case
    by (auto simp: event_series_snoc add_sample_def Let_def update_conv' filter_empty_conv image_iff) metis
qed

lemma rw_labels_service [simp]:
  "rw_labels cfg service ! 1 = (''name'', service)" "rw_labels cfg service ! Suc 0 = (''name'', service)"
  by (simp_all add: rw_labels_def)

lemma event_series_entry:
  "(service, ts) \<in> set (event_series cfg evs) \<longleftrightarrow> service \<in> ev_Service ` set evs \<and>
     ts = \<lparr>ts_Labels = rw_labels cfg service,
          ts_Samples = map event_sample (filter (\<lambda>e. ev_Service e = service) evs)\<rparr>"
  using map_of_eq_Some_iff [OF event_series_distinct, of cfg evs service ts] event_series_lookup [of cfg evs service]
  by (auto split: if_splits)

definition series_for :: "rw_config \<Rightarrow> event list \<Rightarrow> string \<Rightarrow> time_series" where
  "series_for cfg evs service =
     \<lparr>ts_Labels = rw_labels cfg service,
      ts_Samples = sort_key ps_Timestamp (map event_sample (filter (\<lambda>e. ev_Service e = service) evs))\<rparr>"

lemma build_request_set:
  "set (build_request (event_series cfg evs)) = series_for cfg evs ` ev_Service ` set evs"
proof -
  have "set (event_series cfg evs) = (\<lambda>service. (service, \<lparr>ts_Labels = rw_labels cfg service,
      ts_Samples = map event_sample (filter (\<lambda>e. ev_Service e = service) evs)\<rparr>)) ` ev_Service ` set evs"
    by (auto simp: event_series_entry)
  then show ?thesis by (simp add: build_request_def image_image series_for_def)
qed

definition carries :: "rw_config \<Rightarrow> write_request \<Rightarrow> event \<Rightarrow> bool" where
  "carries cfg req e \<longleftrightarrow> (\<exists>ts \<in> set req. ts_Labels ts = rw_labels cfg (ev_Service e) \<and> event_sample e \<in> set (ts_Samples ts))"

lemma build_request_carries: "e \<in> set evs \<Longrightarrow> carries cfg (build_request (event_series cfg evs)) e"
  unfolding carries_def build_request_set
  by (intro bexI [of _ "series_for cfg evs (ev_Service e)"]) (auto simp: series_for_def)

section \<open>The attempts\<close>

definition rw_frame where
  "rw_frame s = (sd_cfg s, sd_lastSent s, sd_file s, sd_saves s)"

lemma send_attempt_log:
  assumes "send_attempt None attempt req sampleCount s = (e, s')" and "attempt \<le> maxAttempts"
  shows "\<exists>rs. sd_log s' = sd_log s @ map (Pair req) rs \<and> rs \<noteq> [] \<and> length rs \<le> maxAttempts + 1 - attempt \<and>
     (\<forall>r \<in> set (butlast rs). \<not> accepted_2xx r \<and> rejected_4xx r = None) \<and>
     (e = None \<longleftrightarrow> accepted_2xx (last rs)) \<and>
     (\<forall>code. e = Some (PermanentError code) \<longleftrightarrow> rejected_4xx (last rs) = Some code) \<and> rw_frame s' = rw_frame s"
  using assms
proof (induction "None :: string option" attempt req sampleCount s arbitrary: e s' rule: send_attempt.induct)
  case (1 attempt req sampleCount s)
  obtain res s1 where do: "http_Do req s = (res, s1)" by (cases "http_Do req s")
  have s1: "sd_log s1 = sd_log s @ [(req, res)]" "rw_frame s1 = rw_frame s"
    using do by (auto simp: http_Do_def Let_def rw_frame_def)
  let ?s2 = "s1\<lparr>sd_failedRequests := sd_failedRequests s1 + 1\<rparr>"
  obtain c s3 where wt: "wait_retry (?s2\<lparr>sd_retries := sd_retries ?s2 + 1\<rparr>) = (c, s3)"
    by (cases "wait_retry (?s2\<lparr>sd_retries := sd_retries ?s2 + 1\<rparr>)")
  have s3: "sd_log s3 = sd_log s1" "rw_frame s3 = rw_frame s1"
    using wt by (auto simp: wait_retry_def rw_frame_def split: list.splits)
  have excl: "accepted_2xx res \<Longrightarrow> rejected_4xx res = None" by (cases res) auto
  have lasterr: "last_error res \<noteq> PermanentError code" for code by (cases res) auto
  have eq: "(e, s') = (if accepted_2xx res
           then (None, s1\<lparr>sd_successfulRequests := sd_successfulRequests s1 + 1,
                         sd_sentSamples := sd_sentSamples s1 + of_nat sampleCount\<rparr>)
           else case rejected_4xx res of Some code \<Rightarrow> (Some (PermanentError code), ?s2)
             | None \<Rightarrow> if attempt \<ge> maxAttempts then (Some (last_error res), ?s2)
               else (case c of Some e \<Rightarrow> (Some (RwError e), s3)
                     | None \<Rightarrow> send_attempt None (attempt + 1) req sampleCount s3))"
    using "1.prems"(1) unfolding send_attempt.simps [of None attempt] option.case do prod.case Let_def wt
    by (cases c) (simp_all split: if_splits option.splits)
  show ?case
  proof (cases "\<not> accepted_2xx res \<and> rejected_4xx res = None \<and> attempt < maxAttempts \<and> c = None")
    case True
    then have "send_attempt None (attempt + 1) req sampleCount s3 = (e, s')" using eq by simp
    then obtain rs where rs: "sd_log s' = sd_log s3 @ map (Pair req) rs" "rs \<noteq> []"
      "length rs \<le> maxAttempts + 1 - (attempt + 1)"
      "\<forall>r \<in> set (butlast rs). \<not> accepted_2xx r \<and> rejected_4xx r = None"
      "e = None \<longleftrightarrow> accepted_2xx (last rs)"
      "\<forall>code. e = Some (PermanentError code) \<longleftrightarrow> rejected_4xx (last rs) = Some code" "rw_frame s' = rw_frame s3"
      using "1.hyps" [OF refl do [symmetric] _ refl _ _ wt [symmetric], of e s'] True by auto
    then show ?thesis
      using True s1 s3 by (intro exI [of _ "res # rs"]) auto
  next
    case False
    then show ?thesis
      using eq s1 s3 excl lasterr "1.prems"(2)
      by (intro exI [of _ "[res]"])
        (auto simp: rw_frame_def split: if_splits option.splits)
  qed
qed

section \<open>Delivery and the checkpoint\<close>

text \<open>The requests the receiver accepted.\<close>

definition acked :: "sender \<Rightarrow> write_request list" where
  "acked s = map fst (filter (\<lambda>x. accepted_2xx (snd x)) (sd_log s))"

definition delivered :: "sender \<Rightarrow> event \<Rightarrow> bool" where
  "delivered s e \<longleftrightarrow> (\<exists>req \<in> set (acked s). carries (sd_cfg s) req e)"

lemma sendSeries_effect:
  assumes "sendSeries tr series s = (e, s')"
  shows "rw_frame s' = rw_frame s \<and> set (acked s) \<subseteq> set (acked s') \<and>
     (e = None \<longrightarrow> build_request series \<in> set (acked s'))"
proof (cases "tr_marshalErr tr (build_request series) = None \<and> tr_reqErr tr = None")
  case True
  then have "send_attempt None 1 (build_request series) (sample_count series) s = (e, s')"
    using assms by (simp add: sendSeries_def)
  from send_attempt_log [OF this] obtain rs where rs: "sd_log s' = sd_log s @ map (Pair (build_request series)) rs"
    "rs \<noteq> []" "e = None \<longleftrightarrow> accepted_2xx (last rs)" "rw_frame s' = rw_frame s"
    by (auto simp: maxAttempts_def)
  have "(build_request series, last rs) \<in> set (sd_log s')" using rs(1,2) by simp
  then show ?thesis using rs by (force simp: acked_def)
next
  case False
  then show ?thesis
    using assms by (auto simp: sendSeries_def send_attempt.simps [of "Some _"] Let_def split: option.splits)
qed

lemma sendBatch_effect:
  assumes "sendBatch tr evs s = (e, s')"
  shows "rw_frame s' = rw_frame s \<and> set (acked s) \<subseteq> set (acked s') \<and> (e = None \<longrightarrow> (\<forall>ev \<in> set evs. delivered s' ev))"
proof -
  have eff: "rw_frame s' = rw_frame s" "set (acked s) \<subseteq> set (acked s')"
    "e = None \<longrightarrow> build_request (event_series (sd_cfg s) evs) \<in> set (acked s')"
    using sendSeries_effect assms unfolding sendBatch_def by blast+
  then have "sd_cfg s' = sd_cfg s" by (simp add: rw_frame_def)
  with eff show ?thesis
    using build_request_carries [of _ evs "sd_cfg s"] by (auto simp: delivered_def intro!: bexI)
qed

definition checkpoint_text :: "uint64 \<Rightarrow> string" where
  "checkpoint_text seq = marshal_checkpoint seq @ [nl]"

lemma saveCheckpoint_effect:
  assumes "saveCheckpoint seq s = (e, s')" and "sd_lastSent s < seq"
  shows "sd_log s' = sd_log s \<and> sd_cfg s' = sd_cfg s \<and>
     (e = None \<longrightarrow> sd_lastSent s' = seq \<and> sd_file s' = Some (checkpoint_text seq)) \<and>
     (e \<noteq> None \<longrightarrow> sd_lastSent s' = sd_lastSent s \<and> sd_file s' \<in> {sd_file s, Some (checkpoint_text seq)})"
proof -
  have "\<not> seq \<le> sd_lastSent s" using assms(2) by simp
  with assms(1) show ?thesis
    by (auto simp: saveCheckpoint_def checkpoint_text_def Let_def split: option.splits prod.splits)
qed

text \<open>
  The state of the sender when the first \<open>k\<close> pending events are covered by the sequence in memory and
  the first \<open>k'\<close> by the file.
\<close>

definition covered :: "sender \<Rightarrow> event list \<Rightarrow> nat \<Rightarrow> nat \<Rightarrow> sender \<Rightarrow> bool" where
  "covered s pending k k' s' \<longleftrightarrow> k \<le> k' \<and> k' \<le> length pending \<and> sd_cfg s' = sd_cfg s \<and>
     set (acked s) \<subseteq> set (acked s') \<and> (\<forall>ev \<in> set (take k' pending). delivered s' ev) \<and>
     sd_lastSent s' = (if k = 0 then sd_lastSent s else ev_Sequence (pending ! (k - 1))) \<and>
     sd_file s' = (if k' = 0 then sd_file s else Some (checkpoint_text (ev_Sequence (pending ! (k' - 1)))))"

lemma delivered_mono:
  "set (acked s) \<subseteq> set (acked s') \<Longrightarrow> sd_cfg s' = sd_cfg s \<Longrightarrow> delivered s ev \<Longrightarrow> delivered s' ev"
  by (auto simp: delivered_def)

lemma covered_shift:
  assumes "covered s1 (drop n pending) k k' s'" and "0 < n" "n < length pending"
    and "sd_cfg s1 = sd_cfg s" and "set (acked s) \<subseteq> set (acked s1)"
    and "\<forall>ev \<in> set (take n pending). delivered s1 ev"
    and "sd_lastSent s1 = ev_Sequence (pending ! (n - 1))"
    and "sd_file s1 = Some (checkpoint_text (ev_Sequence (pending ! (n - 1))))"
  shows "covered s pending (n + k) (n + k') s'"
proof -
  have idx: "drop n pending ! (j - 1) = pending ! (n + j - 1)" if "0 < j" "j \<le> length pending - n" for j
    using that assms(3) by (simp add: nth_drop)
  have "delivered s' ev" if "ev \<in> set (take (n + k') pending)" for ev
    using that assms(1,6) delivered_mono [of s1 s' ev]
    by (auto simp: covered_def take_add)
  with assms idx [of k] idx [of k'] show ?thesis by (auto simp: covered_def)
qed

text \<open>One batch: what is covered when sending it or saving its checkpoint fails, and when both succeed.\<close>

lemma one_batch:
  fixes n :: nat
  defines "m \<equiv> \<lambda>pending :: event list. min (length pending) n"
  assumes "sendBatch tr (take n pending) s = (e1, s1)"
    and "saveCheckpoint (ev_Sequence (last (take n pending))) s1 = (e2, s2)"
    and "pending \<noteq> []" and "0 < n" and "\<forall>ev \<in> set pending. sd_lastSent s < ev_Sequence ev"
  shows "(e1 \<noteq> None \<longrightarrow> covered s pending 0 0 s1) \<and>
     (e1 = None \<longrightarrow> e2 \<noteq> None \<longrightarrow> (\<exists>k'. covered s pending 0 k' s2)) \<and>
     (e1 = None \<longrightarrow> e2 = None \<longrightarrow> covered s pending (m pending) (m pending) s2)"
proof -
  let ?batch = "take n pending"
  let ?m = "m pending"
  note b = sendBatch_effect [OF assms(2)]
  have cfg1: "sd_cfg s1 = sd_cfg s" "sd_lastSent s1 = sd_lastSent s" "sd_file s1 = sd_file s"
    using b by (simp_all add: rw_frame_def)
  have m: "0 < ?m" "?m \<le> length pending" "take ?m pending = ?batch"
    using assms(4,5) by (auto simp: m_def min_def)
  have lastb: "last ?batch = pending ! (?m - 1)"
    using assms(4,5) m by (subst last_conv_nth) (auto simp: m_def min.commute)
  have "last ?batch \<in> set pending" using assms(4,5) by (metis in_set_takeD last_in_set less_numeral_extra(3) take_eq_Nil2)
  then have "sd_lastSent s1 < ev_Sequence (last ?batch)" using assms(6) cfg1 by simp
  note v = saveCheckpoint_effect [OF assms(3) this]
  then have ack2: "acked s2 = acked s1" by (simp add: acked_def)
  have deliv: "\<forall>ev \<in> set (take ?m pending). delivered s2 ev" if "e1 = None"
    using b that delivered_mono [of s1 s2] ack2 v m(3) by auto
  have "covered s pending 0 0 s1" using b cfg1 by (simp add: covered_def)
  moreover have "\<exists>k'. covered s pending 0 k' s2" if "e1 = None" "e2 \<noteq> None"
  proof -
    have "covered s pending 0 (if sd_file s2 = sd_file s then 0 else ?m) s2"
      using b v that cfg1 ack2 deliv m(1,2) lastb by (auto simp: covered_def)
    then show ?thesis by blast
  qed
  moreover have "covered s pending ?m ?m s2" if "e1 = None" "e2 = None"
    using b v that cfg1 ack2 deliv m(1,2) lastb by (auto simp: covered_def)
  ultimately show ?thesis by blast
qed

lemma later_sequences:
  assumes "sorted_wrt (<) (map ev_Sequence pending)" and "0 < n" "n < length pending"
  shows "sorted_wrt (<) (map ev_Sequence (drop n pending)) \<and>
     (\<forall>ev \<in> set (drop n pending). ev_Sequence (pending ! (n - 1)) < ev_Sequence ev)"
proof -
  have "ev_Sequence (pending ! (n - 1)) < ev_Sequence ev" if mem: "ev \<in> set (drop n pending)" for ev
  proof -
    obtain j where "j < length (drop n pending)" "ev = drop n pending ! j"
      using mem by (auto simp only: in_set_conv_nth)
    then have "j < length pending - n" "ev = pending ! (n + j)" using assms(3) by (simp_all add: nth_drop)
    then show ?thesis
      using sorted_wrt_nth_less [OF assms(1), of "n - 1" "n + j"] assms(2,3) by simp
  qed
  then show ?thesis using assms(1) by (simp add: drop_map [symmetric] sorted_wrt_drop)
qed

lemma send_batches_covered:
  assumes "send_batches tr pending s = (e, s')" and "0 < rw_BatchSize (sd_cfg s)"
    and "sorted_wrt (<) (map ev_Sequence pending)" and "\<forall>ev \<in> set pending. sd_lastSent s < ev_Sequence ev"
  shows "\<exists>k k'. covered s pending k k' s' \<and> (e = None \<longrightarrow> k = length pending)"
  using assms
proof (induction tr pending s arbitrary: e s' rule: send_batches.induct)
  case (1 tr pending s)
  let ?n = "nat (rw_BatchSize (sd_cfg s))"
  show ?case
  proof (cases "pending = []")
    case True
    then show ?thesis
      using "1.prems"(1) by (intro exI [of _ 0]) (simp add: send_batches.simps covered_def)
  next
    case False
    obtain e1 s1 where sb: "sendBatch tr (take ?n pending) s = (e1, s1)" by (cases "sendBatch tr (take ?n pending) s")
    obtain e2 s2 where sv: "saveCheckpoint (ev_Sequence (last (take ?n pending))) s1 = (e2, s2)"
      by (cases "saveCheckpoint (ev_Sequence (last (take ?n pending))) s1")
    have n: "0 < ?n" using "1.prems"(2) by simp
    note one = one_batch [OF sb sv False n "1.prems"(4)]
    have step: "(e, s') = (case e1 of Some err \<Rightarrow> (Some err, s1) | None \<Rightarrow>
        (case e2 of Some (RwError m) \<Rightarrow> (Some (RwError (''persist remote_write checkpoint after successful batch: '' @ m)), s2)
         | Some err \<Rightarrow> (Some err, s2) | None \<Rightarrow> send_batches tr (drop ?n pending) s2))"
      using "1.prems"(1) False n unfolding send_batches.simps [of tr pending s]
      by (cases e1; cases e2) (auto simp: sb sv Let_def split: rw_error.splits)
    show ?thesis
    proof (cases "e1 = None \<and> e2 = None")
      case False
      then show ?thesis using one step by (cases e1) (auto split: option.splits rw_error.splits)
    next
      case ok: True
      have rest: "send_batches tr (drop ?n pending) s2 = (e, s')" using step ok by simp
      show ?thesis
      proof (cases "?n < length pending")
        case False
        then have "s' = s2" using rest by (simp add: send_batches.simps)
        with one ok False show ?thesis by (auto simp: min_def split: if_splits)
      next
        case True
        then have here: "covered s pending ?n ?n s2" using one ok by (simp add: min_def)
        obtain k k' where "covered s2 (drop ?n pending) k k' s'" "e = None \<longrightarrow> k = length (drop ?n pending)"
          using "1.IH" [OF refl _ refl sb [symmetric] _ sv [symmetric] _, of e s'] ok False n rest
            here "1.prems"(2) later_sequences [OF "1.prems"(3) n True] by (auto simp: covered_def)
        moreover from this(1) have "covered s pending (?n + k) (?n + k') s'"
          by (rule covered_shift) (use here n True in \<open>auto simp: covered_def\<close>)
        ultimately show ?thesis
          using True by (intro exI [of _ "?n + k"] exI [of _ "?n + k'"]) auto
      qed
    qed
  qed
qed

section \<open>What a send of any length keeps\<close>

text \<open>The sender after a call: the same configuration, every delivery still recorded, the sequence not smaller.\<close>

definition rw_later :: "sender \<Rightarrow> sender \<Rightarrow> bool" where
  "rw_later s s' \<longleftrightarrow> sd_cfg s' = sd_cfg s \<and> set (acked s) \<subseteq> set (acked s') \<and> sd_lastSent s \<le> sd_lastSent s'"

lemma rw_later_refl [simp]: "rw_later s s"
  by (simp add: rw_later_def)

lemma rw_later_trans: "rw_later s s1 \<Longrightarrow> rw_later s1 s2 \<Longrightarrow> rw_later s s2"
  by (auto simp: rw_later_def)

lemma rw_later_delivered: "rw_later s s' \<Longrightarrow> delivered s ev \<Longrightarrow> delivered s' ev"
  by (auto simp: rw_later_def delivered_def)

lemma sendSeries_later: "sendSeries tr series s = (e, s') \<Longrightarrow> rw_later s s'"
  using sendSeries_effect [of tr series s e s'] by (simp add: rw_later_def rw_frame_def)

lemma saveCheckpoint_later: "saveCheckpoint seq s = (e, s') \<Longrightarrow> rw_later s s'"
  by (auto simp: saveCheckpoint_def rw_later_def acked_def Let_def split: if_splits option.splits prod.splits)

lemma send_batches_later:
  assumes "send_batches tr pending s = (e, s')" and "0 < rw_BatchSize (sd_cfg s)"
  shows "rw_later s s' \<and> (e = None \<longrightarrow> (\<forall>ev \<in> set pending. delivered s' ev))"
  using assms
proof (induction tr pending s arbitrary: e s' rule: send_batches.induct)
  case (1 tr pending s)
  let ?n = "nat (rw_BatchSize (sd_cfg s))"
  show ?case
  proof (cases "pending = []")
    case True
    then show ?thesis using "1.prems"(1) by (simp add: send_batches.simps)
  next
    case False
    obtain e1 s1 where sb: "sendBatch tr (take ?n pending) s = (e1, s1)" by (cases "sendBatch tr (take ?n pending) s")
    obtain e2 s2 where sv: "saveCheckpoint (ev_Sequence (last (take ?n pending))) s1 = (e2, s2)"
      by (cases "saveCheckpoint (ev_Sequence (last (take ?n pending))) s1")
    have n: "?n \<noteq> 0" using "1.prems"(2) by simp
    have l1: "rw_later s s1" using sb sendSeries_later unfolding sendBatch_def by blast
    have l2: "rw_later s1 s2" using saveCheckpoint_later [OF sv] .
    show ?thesis
    proof (cases "e1 = None \<and> e2 = None")
      case True
      have rest: "send_batches tr (drop ?n pending) s2 = (e, s')"
        using "1.prems"(1) False n True unfolding send_batches.simps [of tr pending s] by (simp add: sb sv Let_def)
      have "0 < rw_BatchSize (sd_cfg s2)" using l1 l2 "1.prems"(2) by (simp add: rw_later_def)
      from "1.IH" [OF refl _ refl sb [symmetric] _ sv [symmetric] _ rest this] True False n
      have l3: "rw_later s2 s'" "e = None \<longrightarrow> (\<forall>ev \<in> set (drop ?n pending). delivered s' ev)" by auto
      have "\<forall>ev \<in> set (take ?n pending). delivered s' ev"
        using sendBatch_effect [OF sb] True rw_later_delivered [OF rw_later_trans [OF l2 l3(1)]] by blast
      moreover have "set pending = set (take ?n pending) \<union> set (drop ?n pending)"
        by (metis append_take_drop_id set_append)
      ultimately show ?thesis using l1 l2 l3 rw_later_trans by blast
    next
      case fail: False
      then have "e \<noteq> None \<and> (s' = s1 \<or> s' = s2)"
        using "1.prems"(1) False n unfolding send_batches.simps [of tr pending s]
        by (cases e1; cases e2) (auto simp: sb sv Let_def split: rw_error.splits)
      then show ?thesis using l1 l2 rw_later_trans by blast
    qed
  qed
qed

lemma Send_later:
  assumes "sendEventsLocked tr events s = (e, s')" and "0 < rw_BatchSize (sd_cfg s)"
  shows "rw_later s s' \<and> (e = None \<longrightarrow> (\<forall>ev \<in> set events. delivered s' ev \<or> ev_Sequence ev \<le> sd_lastSent s))"
  using assms send_batches_later [of tr "sort_key ev_Sequence (filter (\<lambda>e. sd_lastSent s < ev_Sequence e) events)" s e s']
  by (auto simp: sendEventsLocked_def Let_def filter_empty_conv not_less split: if_splits)

section \<open>Properties\<close>

lemma sort_strict:
  assumes "distinct (map f xs)"
  shows "sorted_wrt (<) (map f (sort_key f xs))"
proof -
  have "distinct (map f (sort_key f xs))" using assms by (simp add: distinct_map)
  then show ?thesis by (simp add: strict_sorted_iff)
qed

lemma sorted_index_le:
  assumes "sorted_wrt (<) (map ev_Sequence xs)" and "ev \<in> set xs" and "k \<le> length xs" and "0 < k"
    and "ev_Sequence ev \<le> ev_Sequence (xs ! (k - 1))"
  shows "ev \<in> set (take k xs)"
proof -
  obtain i where i: "i < length xs" "ev = xs ! i" using assms(2) by (auto simp: in_set_conv_nth)
  have "i < k"
  proof (rule ccontr)
    assume "\<not> i < k"
    then have "ev_Sequence (xs ! (k - 1)) < ev_Sequence (xs ! i)"
      using sorted_wrt_nth_less [OF assms(1), of "k - 1" i] i assms(4) by simp
    with i assms(5) show False by simp
  qed
  with i assms(3) show ?thesis by (auto simp: in_set_conv_nth)
qed

lemma sorted_last_index:
  assumes "sorted_wrt (<) (map ev_Sequence xs)" and "ev \<in> set xs"
  shows "ev_Sequence ev \<le> ev_Sequence (xs ! (length xs - 1))"
proof -
  obtain i where i: "i < length xs" "ev = xs ! i" using assms(2) by (auto simp: in_set_conv_nth)
  have "sorted (map ev_Sequence xs)" using assms(1) by (simp add: strict_sorted_iff)
  from sorted_nth_mono [OF this, of i "length xs - 1"] i show ?thesis by simp
qed

lemma checkpoint_roundtrip: "unmarshal_checkpoint (checkpoint_text seq) = Some seq"
proof -
  let ?j = "JObj [(''last_sequence'', json_uint seq)]"
  have "json_ok ?j" by (simp add: ascii_def)
  then have "json_parse (checkpoint_text seq) = Some ?j"
    unfolding checkpoint_text_def marshal_checkpoint_def by (rule json_roundtrip_line)
  then show ?thesis
    by (simp add: unmarshal_checkpoint_def decode_struct_def checkpoint_fields_def)
qed

lemma covered_upto:
  assumes "covered s p k k' s'" and "sorted_wrt (<) (map ev_Sequence p)"
    and "ev \<in> set p" and "0 < j" and "j \<le> k'" and "ev_Sequence ev \<le> ev_Sequence (p ! (j - 1))"
  shows "delivered s' ev"
proof -
  have "ev \<in> set (take j p)" using sorted_index_le [OF assms(2), of ev j] assms by (simp add: covered_def)
  then have "ev \<in> set (take k' p)" using assms(5) by (meson set_take_subset_set_take subsetD)
  with assms(1) show ?thesis by (simp add: covered_def)
qed


definition sample_cfg :: rw_config where
  "sample_cfg = \<lparr>rw_Enabled = True, rw_URL = ''http://r/w'', rw_BatchSize = 1, rw_FlushInterval = Second,
     rw_RetryInterval = Second, rw_Timeout = Second, rw_Checkpoint = ''cp'', rw_StateInterval = Minute,
     rw_Labels = [(''zone'', ''a'')]\<rparr>"

definition sample_sender :: sender where
  "sample_sender = \<lparr>sd_cfg = sample_cfg, sd_lastSent = 0, sd_successfulRequests = 0, sd_failedRequests = 0,
     sd_retries = 0, sd_sentSamples = 0, sd_file = None, sd_saves = [], sd_results = [], sd_cancels = [], sd_log = []\<rparr>"

definition sample_transport :: transport where
  "sample_transport = \<lparr>tr_marshalErr = (\<lambda>_. None), tr_reqErr = None\<rparr>"

definition numbered_event :: "uint64 \<Rightarrow> event" where
  "numbered_event n = \<lparr>ev_Sequence = n, ev_Service = ''a.service'', ev_State = StateUp, ev_EventTimeUnixMS = 1000,
     ev_EventTimeMonotonicUS = 0, ev_BootID = ''b'', ev_Source = SourceSystemd, ev_SystemdActiveState = ''active'',
     ev_SystemdSubState = ''running''\<rparr>"


text \<open>A sequence of calls of the two exported methods, each with what the network does, and the errors they return.\<close>

datatype sender_call = CallSend "event list" | CallStates "state_sample list"

fun sender_calls :: "(transport \<times> sender_call) list \<Rightarrow> sender option \<Rightarrow> rw_error option list \<times> sender option" where
  "sender_calls [] so = ([], so)"
| "sender_calls ((tr, c) # cs) so =
     (case (case c of CallSend events \<Rightarrow> Send tr events so | CallStates samples \<Rightarrow> SendRecoveredStates tr samples so) of
        (err, so1) \<Rightarrow> (case sender_calls cs so1 of (errs, so2) \<Rightarrow> (err # errs, so2)))"

fun without_event :: "event \<Rightarrow> sender_call \<Rightarrow> sender_call" where
  "without_event ev (CallSend events) = CallSend (filter (\<lambda>x. x \<noteq> ev) events)"
| "without_event ev (CallStates samples) = CallStates samples"

lemma Send_skips:
  assumes "ev_Sequence ev \<le> sd_lastSent s"
  shows "Send tr (filter (\<lambda>x. x \<noteq> ev) events) (Some s) = Send tr events (Some s)"
proof -
  have "filter (\<lambda>e. ev_Sequence e > sd_lastSent s) (filter (\<lambda>x. x \<noteq> ev) events) = filter (\<lambda>e. ev_Sequence e > sd_lastSent s) events"
    using assms by (induction events) (auto simp: not_less)
  then have "sendEventsLocked tr (filter (\<lambda>x. x \<noteq> ev) events) s = sendEventsLocked tr events s"
    by (simp only: sendEventsLocked_def)
  then show ?thesis by (cases "filter (\<lambda>x. x \<noteq> ev) events = []") (auto simp: Send_def sendEventsLocked_def Let_def)
qed

lemma Send_keeps:
  assumes "0 < rw_BatchSize (sd_cfg s)"
  shows "\<exists>err s1. Send tr events (Some s) = (err, Some s1) \<and> rw_later s s1"
proof -
  obtain e s1 where "sendEventsLocked tr events s = (e, s1)" by (cases "sendEventsLocked tr events s")
  with Send_later [OF this assms] show ?thesis by (simp add: Send_def)
qed

lemma SendRecoveredStates_keeps: "\<exists>err s1. SendRecoveredStates tr samples (Some s) = (err, Some s1) \<and> rw_later s s1"
proof -
  obtain e s1 where "sendSeries tr (state_series (sd_cfg s) samples) s = (e, s1)"
    by (cases "sendSeries tr (state_series (sd_cfg s) samples) s")
  with sendSeries_later [OF this] show ?thesis by (simp add: SendRecoveredStates_def)
qed

text \<open>C34. An event that comes late is never sent. Once the sender has sent a sequence number at or above that of an
  event, the event has no effect on any later call: over every sequence of sends of events and of state
  samples, whatever the network and the checkpoint file do, the sender makes the same requests, returns the
  same errors and ends in the same state as if the event were taken out of every call. An event that
  another one with a higher number overtakes on its way to the sender is therefore lost without an error.\<close>

theorem late_event_is_never_sent:
  assumes "ev_Sequence ev \<le> sd_lastSent s" and "0 < rw_BatchSize (sd_cfg s)"
  shows "sender_calls (map (map_prod id (without_event ev)) calls) (Some s) = sender_calls calls (Some s)"
  using assms
proof (induction calls arbitrary: s)
  case (Cons c cs)
  obtain tr call where c: "c = (tr, call)" by (cases c)
  define step where "step = (case call of CallSend events \<Rightarrow> Send tr events (Some s) | CallStates samples \<Rightarrow> SendRecoveredStates tr samples (Some s))"
  have same: "(case without_event ev call of CallSend events \<Rightarrow> Send tr events (Some s)
      | CallStates samples \<Rightarrow> SendRecoveredStates tr samples (Some s)) = step"
    using Send_skips [OF Cons.prems(1)] by (cases call) (simp_all add: step_def)
  obtain err s1 where s1: "step = (err, Some s1)" "rw_later s s1"
    using Send_keeps [OF Cons.prems(2)] SendRecoveredStates_keeps by (cases call) (fastforce simp: step_def)+
  then have "ev_Sequence ev \<le> sd_lastSent s1" "0 < rw_BatchSize (sd_cfg s1)"
    using Cons.prems by (auto simp: rw_later_def)
  from Cons.IH [OF this] show ?case using same s1(1) by (simp add: c step_def)
qed simp

theorem late_event_is_never_sent_witness:
  "sender_calls [(sample_transport, CallSend [numbered_event 2])] (Some (sample_sender\<lparr>sd_lastSent := 3\<rparr>)) =
     ([None], Some (sample_sender\<lparr>sd_lastSent := 3\<rparr>))"
  using late_event_is_never_sent [of "numbered_event 2" "sample_sender\<lparr>sd_lastSent := 3\<rparr>"
      "[(sample_transport, CallSend [numbered_event 2])]"]
  by (simp add: Send_def sample_sender_def sample_cfg_def numbered_event_def)

text \<open>C28. Bounded, classified attempts. One call makes at most three requests, all with the same content, and
  makes none after an answer that accepted it or rejected it for good; it returns nil exactly when the
  last answer was 2xx and a PermanentError exactly when it was 4xx, whichever 4xx that was; and it
  never touches the checkpoint.\<close>

theorem attempts_bounded_and_classified:
  assumes "sendSeries tr series s = (e, s')"
  shows "\<exists>rs. sd_log s' = sd_log s @ map (Pair (build_request series)) rs \<and> length rs \<le> 3 \<and>
     (\<forall>r \<in> set (butlast rs). \<not> accepted_2xx r \<and> rejected_4xx r = None) \<and>
     (e = None \<longleftrightarrow> rs \<noteq> [] \<and> accepted_2xx (last rs)) \<and>
     (\<forall>code. e = Some (PermanentError code) \<longleftrightarrow> rs \<noteq> [] \<and> rejected_4xx (last rs) = Some code) \<and>
     sd_lastSent s' = sd_lastSent s \<and> sd_file s' = sd_file s"
proof (cases "tr_marshalErr tr (build_request series) = None \<and> tr_reqErr tr = None")
  case True
  then have "send_attempt None 1 (build_request series) (sample_count series) s = (e, s')"
    using assms by (simp add: sendSeries_def)
  from send_attempt_log [OF this] show ?thesis by (auto simp: maxAttempts_def rw_frame_def)
next
  case False
  then show ?thesis
    using assms by (intro exI [of _ "[]"])
      (auto simp: sendSeries_def send_attempt.simps [of "Some _"] Let_def split: option.splits)
qed

theorem attempts_bounded_and_classified_witness:
  "\<exists>e s'. sendSeries sample_transport [] (sample_sender\<lparr>sd_results := [HttpStatus 503, HttpStatus 429]\<rparr>) = (e, s') \<and>
     e = Some (PermanentError 429) \<and> (\<exists>rs. sd_log s' = map (Pair []) rs \<and> length rs \<le> 3)"
proof -
  let ?s = "sample_sender\<lparr>sd_results := [HttpStatus 503, HttpStatus 429]\<rparr>"
  obtain e s' where run: "sendSeries sample_transport [] ?s = (e, s')" "e = Some (PermanentError 429)"
    by (simp add: sendSeries_def send_attempt.simps http_Do_def wait_retry_def sample_sender_def sample_transport_def
        maxAttempts_def Let_def)
  from attempts_bounded_and_classified [OF run(1)] show ?thesis
    using run by (auto simp: sample_sender_def build_request_def)
qed

text \<open>C29. What a request holds: one series per service of the batch, in the order of the service names, with
  the labels of that service and its samples in time order, none lost, added or duplicated.\<close>

theorem request_holds_exactly_the_batch:
  "map (\<lambda>ts. snd (ts_Labels ts ! 1)) (build_request (event_series cfg evs))
     = sorted_list_of_set (ev_Service ` set evs) \<and>
   list_all (\<lambda>ts. \<exists>service. ts_Labels ts = rw_labels cfg service \<and> sorted (map ps_Timestamp (ts_Samples ts)) \<and>
       mset (ts_Samples ts) = mset (map event_sample (filter (\<lambda>e. ev_Service e = service) evs)))
     (build_request (event_series cfg evs))"
proof
  let ?req = "build_request (event_series cfg evs)"
  let ?names = "map (\<lambda>ts. snd (ts_Labels ts ! 1)) ?req"
  let ?L = "map (\<lambda>(service, ts). ts\<lparr>ts_Samples := sort_key ps_Timestamp (ts_Samples ts)\<rparr>) (event_series cfg evs)"
  have "map (\<lambda>ts. snd (ts_Labels ts ! 1)) ?L = map fst (event_series cfg evs)"
    by (auto simp: event_series_entry)
  moreover have "mset ?names = mset (map (\<lambda>ts. snd (ts_Labels ts ! 1)) ?L)"
    unfolding build_request_def mset_map mset_sort ..
  ultimately have "mset ?names = mset (map fst (event_series cfg evs))" by (simp only:)
  from mset_eq_imp_distinct_iff [OF this] have "distinct ?names" using event_series_distinct by simp
  moreover have "sorted ?names" unfolding build_request_def by (rule sorted_sort_key)
  moreover have "set ?names = ev_Service ` set evs"
    by (simp add: build_request_set image_image series_for_def)
  ultimately show "?names = sorted_list_of_set (ev_Service ` set evs)"
    by (intro sorted_distinct_set_unique) simp_all
  show "list_all (\<lambda>ts. \<exists>service. ts_Labels ts = rw_labels cfg service \<and> sorted (map ps_Timestamp (ts_Samples ts)) \<and>
       mset (ts_Samples ts) = mset (map event_sample (filter (\<lambda>e. ev_Service e = service) evs))) ?req"
    unfolding list_all_iff build_request_set by (auto simp: series_for_def)
qed

text \<open>The labels of a series are in the order of their names, as the Remote Write protocol demands,
  exactly when no configured label comes before name; the code sorts only the labels behind it.\<close>

theorem labels_sorted_iff:
  "sorted (map fst (rw_labels cfg service)) \<longleftrightarrow>
     list_all (\<lambda>(n, v). n = ''__name__'' \<or> ''name'' \<le> n) (rw_Labels cfg)"
proof -
  have le: "''__name__'' \<le> ''name''" and ne: "''__name__'' \<noteq> ''name''"
    by (simp_all add: less_eq_char_def)
  let ?f = "filter (\<lambda>(n, v). n \<noteq> ''__name__'' \<and> n \<noteq> ''name'') (rw_Labels cfg)"
  have "sorted (map fst (rw_labels cfg service)) \<longleftrightarrow> (\<forall>n \<in> fst ` set ?f. ''name'' \<le> n \<and> ''__name__'' \<le> n)"
    using le by (auto simp: rw_labels_def)
  also have "\<dots> \<longleftrightarrow> (\<forall>n \<in> fst ` set ?f. ''name'' \<le> n)" using le order_trans by blast
  also have "\<dots> \<longleftrightarrow> list_all (\<lambda>(n, v). n = ''__name__'' \<or> ''name'' \<le> n) (rw_Labels cfg)"
    by (auto simp: list_all_iff)
  finally show ?thesis .
qed

end
