(* ===== verification/Delivery.thy ===== *)
theory Delivery
  imports Slots RemoteWrite
begin

text \<open>
  The delivery worker of one receiver, \<open>internal/delivery/worker.go\<close>.

  The Go interface \<open>Sender\<close> is the record \<open>sender_ops\<close> over an arbitrary sender state, so the worker is
  verified for every implementation of it and then used with the one of \<open>RemoteWrite\<close>. The variables
  that \<open>Run\<close> keeps in its closures are fields of the worker. One turn of the loop is \<open>run_turn\<close>: the
  work before the \<open>select\<close>, then the case the \<open>select\<close> takes. What a turn reads from outside (the
  clock, whether the context has ended, the engine's current states) is its \<open>wenv\<close>; it does not
  change within one turn. The channel is the list of its elements. Log output is left out.
\<close>

section \<open>Types\<close>

record 's sender_ops =
  so_Send :: "event list \<Rightarrow> 's \<Rightarrow> rw_error option \<times> 's"
  so_SendRecoveredStates :: "state_sample list \<Rightarrow> 's \<Rightarrow> rw_error option \<times> 's"
  so_LastSent :: "'s \<Rightarrow> uint64"

record recovery_job =
  rj_Fill :: "state_sample list"
  rj_Events :: "event list"

definition maxPendingStates :: nat where
  "maxPendingStates = 10000"

record worker_config =
  wc_TargetID :: string
  wc_BatchSize :: int
  wc_FlushInterval :: duration
  wc_StateInterval :: duration
  wc_RecoveryWindow :: duration
  wc_Services :: "string list"
  wc_StartupEvents :: "event list"
  wc_StartupFill :: "state_sample list"
  wc_StartupSlot :: go_time

text \<open>\<open>CurrentState\<close> of the configuration reads the engine; \<open>None\<close> is a nil function.\<close>

record wenv =
  we_loc :: location
  we_now :: go_time
  we_ctxErr :: bool
  we_current :: "(string \<Rightarrow> service_state option) option"

datatype worker_command = CmdEvent event | CmdRecovery recovery_job

record 's worker =
  wk_cfg :: worker_config
  wk_sender :: 's
  wk_queue :: "worker_command list"
  wk_published :: "string \<Rightarrow> int option"
  wk_pendingStates :: "state_sample list"
  wk_batch :: "event list"
  wk_degradedSince :: go_time
  wk_pendingRecovery :: "recovery_job option"
  wk_pendingSlotSamples :: "go_time list"
  wk_nextOpening :: go_time
  wk_nextClosing :: go_time
  wk_dropped :: nat

definition Worker_New :: "worker_config \<Rightarrow> 's \<Rightarrow> 's worker" where
  "Worker_New cfg sender =
     \<lparr>wk_cfg = cfg\<lparr>wc_BatchSize := (if wc_BatchSize cfg \<le> 0 then 100 else wc_BatchSize cfg)\<rparr>,
      wk_sender = sender, wk_queue = [], wk_published = Map.empty, wk_pendingStates = [], wk_batch = [],
      wk_degradedSince = zero_time, wk_pendingRecovery = None, wk_pendingSlotSamples = [],
      wk_nextOpening = zero_time, wk_nextClosing = zero_time, wk_dropped = 0\<rparr>"

definition TargetID :: "'s worker \<Rightarrow> string" where
  "TargetID w = wc_TargetID (wk_cfg w)"

section \<open>Enqueueing\<close>

definition queue_capacity :: nat where
  "queue_capacity = 100000"

definition enqueue :: "worker_command \<Rightarrow> 's worker \<Rightarrow> bool \<times> 's worker" where
  "enqueue cmd w =
     (if length (wk_queue w) < queue_capacity then (True, w\<lparr>wk_queue := wk_queue w @ [cmd]\<rparr>) else (False, w))"

definition EnqueueEvent :: "event \<Rightarrow> 's worker \<Rightarrow> bool \<times> 's worker" where
  "EnqueueEvent ev w = enqueue (CmdEvent ev) w"

definition EnqueueRecovery :: "state_sample list \<Rightarrow> event list \<Rightarrow> 's worker \<Rightarrow> bool \<times> 's worker" where
  "EnqueueRecovery fill events w = enqueue (CmdRecovery \<lparr>rj_Fill = fill, rj_Events = events\<rparr>) w"

section \<open>The backlog of state samples\<close>

definition pruneStates :: "wenv \<Rightarrow> 's worker \<Rightarrow> 's worker" where
  "pruneStates env w =
     (let window = wc_RecoveryWindow (wk_cfg w);
          kept = (if window > 0
                  then filter (\<lambda>x. ss_TimestampUnixMS x \<ge> UnixMilli (SlotStart (we_loc env) (we_now env) window))
                         (wk_pendingStates w)
                  else wk_pendingStates w);
          excess = length kept - maxPendingStates
      in w\<lparr>wk_pendingStates := (if excess > 0 then drop excess kept else kept)\<rparr>)"

definition bufferStates :: "wenv \<Rightarrow> state_sample list \<Rightarrow> 's worker \<Rightarrow> 's worker" where
  "bufferStates env samples w =
     (if samples = [] then w
      else pruneStates env (w\<lparr>wk_pendingStates := wk_pendingStates w @ samples\<rparr>))"

definition dropStale :: "'s worker \<Rightarrow> state_sample list \<Rightarrow> state_sample list" where
  "dropStale w samples =
     filter (\<lambda>x. case wk_published w (ss_Service x) of
                   Some last1 \<Rightarrow> \<not> ss_TimestampUnixMS x \<le> last1 | None \<Rightarrow> True) samples"

definition notePublished :: "string \<Rightarrow> int \<Rightarrow> 's worker \<Rightarrow> 's worker" where
  "notePublished service ts w =
     (case wk_published w service of
        Some last1 \<Rightarrow> if ts > last1 then w\<lparr>wk_published := (wk_published w)(service \<mapsto> ts)\<rparr> else w
      | None \<Rightarrow> w\<lparr>wk_published := (wk_published w)(service \<mapsto> ts)\<rparr>)"

definition noteSamples :: "state_sample list \<Rightarrow> 's worker \<Rightarrow> 's worker" where
  "noteSamples samples w = fold (\<lambda>x. notePublished (ss_Service x) (ss_TimestampUnixMS x)) samples w"

definition slotStateSamples ::
  "string list \<Rightarrow> (string \<Rightarrow> service_state option) option \<Rightarrow> go_time \<Rightarrow> state_sample list" where
  "slotStateSamples services current at' =
     (case current of None \<Rightarrow> []
      | Some cur \<Rightarrow>
        if IsZero at' then []
        else List.map_filter (\<lambda>service. case cur service of None \<Rightarrow> None
               | Some st \<Rightarrow> Some \<lparr>ss_Service = service, ss_State = st_Availability st,
                                ss_TimestampUnixMS = UnixMilli at'\<rparr>) services)"

definition earlierTime :: "go_time \<Rightarrow> go_time \<Rightarrow> go_time" where
  "earlierTime a b = (if IsZero a then b else if IsZero b \<or> a < b then a else b)"

section \<open>The closures of Run\<close>

definition markDegraded :: "wenv \<Rightarrow> 's worker \<Rightarrow> 's worker" where
  "markDegraded env w = (if IsZero (wk_degradedSince w) then w\<lparr>wk_degradedSince := we_now env\<rparr> else w)"

text \<open>\<open>drop\<close> reports the events to \<open>OnDropped\<close>; the total is kept.\<close>

definition drop_events :: "nat \<Rightarrow> 's worker \<Rightarrow> 's worker" where
  "drop_events n w = w\<lparr>wk_dropped := wk_dropped w + n\<rparr>"

definition worker_Send :: "'s sender_ops \<Rightarrow> event list \<Rightarrow> 's worker \<Rightarrow> rw_error option \<times> 's worker" where
  "worker_Send ops evs w = (case so_Send ops evs (wk_sender w) of (err, s) \<Rightarrow> (err, w\<lparr>wk_sender := s\<rparr>))"

definition worker_SendStates :: "'s sender_ops \<Rightarrow> state_sample list \<Rightarrow> 's worker \<Rightarrow> rw_error option \<times> 's worker" where
  "worker_SendStates ops xs w =
     (case so_SendRecoveredStates ops xs (wk_sender w) of (err, s) \<Rightarrow> (err, w\<lparr>wk_sender := s\<rparr>))"

definition flush :: "wenv \<Rightarrow> 's sender_ops \<Rightarrow> 's worker \<Rightarrow> bool \<times> 's worker" where
  "flush env ops w =
     (if wk_batch w = [] then (True, w)
      else case worker_Send ops (wk_batch w) w of
          (None, w1) \<Rightarrow> (True, w1\<lparr>wk_batch := []\<rparr>)
        | (Some err, w1) \<Rightarrow>
          if we_ctxErr env then (False, w1)
          else
            let w2 = markDegraded env w1 in
            if IsPermanent err then (True, (drop_events (length (wk_batch w2)) w2)\<lparr>wk_batch := []\<rparr>)
            else (False, w2))"

text \<open>\<open>sendRecovery\<close>: its last part, which sends the recovered transitions, is \<open>send_job_events\<close>.\<close>

definition send_job_events :: "wenv \<Rightarrow> 's sender_ops \<Rightarrow> recovery_job \<Rightarrow> 's worker \<Rightarrow> bool \<times> 's worker" where
  "send_job_events env ops job w =
     (case worker_Send ops (rj_Events job) w of
        (None, w1) \<Rightarrow> (True, w1)
      | (Some err, w1) \<Rightarrow>
        if we_ctxErr env then (False, w1)
        else
          let w2 = markDegraded env w1 in
          if IsPermanent err then (True, drop_events (length (rj_Events job)) w2) else (False, w2))"

definition sendRecovery :: "wenv \<Rightarrow> 's sender_ops \<Rightarrow> recovery_job \<Rightarrow> 's worker \<Rightarrow> bool \<times> 's worker" where
  "sendRecovery env ops job w =
     (case flush env ops w of (flushed, w1) \<Rightarrow>
        if \<not> flushed then (False, w1)
        else
          case worker_SendStates ops (rj_Fill job) w1 of
            (None, w2) \<Rightarrow> send_job_events env ops job w2
          | (Some err, w2) \<Rightarrow>
            let w3 = (if we_ctxErr env then w2 else markDegraded env w2) in
            if \<not> IsPermanent err then (False, w3) else send_job_events env ops job w3)"

definition deliverStates :: "wenv \<Rightarrow> 's sender_ops \<Rightarrow> 's worker \<Rightarrow> bool \<times> 's worker" where
  "deliverStates env ops w =
     (if wk_pendingStates w = [] then (True, w)
      else if wk_pendingRecovery w \<noteq> None \<or> wk_queue w \<noteq> [] then (False, w)
      else
        case flush env ops w of (flushed, w1) \<Rightarrow>
        if \<not> flushed then (False, w1)
        else
          let samples = dropStale w1 (wk_pendingStates w1) in
          if samples = [] then (True, w1\<lparr>wk_pendingStates := []\<rparr>)
          else
            case worker_SendStates ops samples w1 of
              (None, w2) \<Rightarrow>
                (True, (noteSamples samples w2)\<lparr>wk_degradedSince := zero_time, wk_pendingStates := []\<rparr>)
            | (Some err, w2) \<Rightarrow>
              let w3 = (if we_ctxErr env then w2 else markDegraded env w2) in
              if \<not> IsPermanent err then (False, w3) else (True, w3\<lparr>wk_pendingStates := []\<rparr>))"

definition recordStates :: "wenv \<Rightarrow> state_sample list \<Rightarrow> 's worker \<Rightarrow> bool \<times> 's worker" where
  "recordStates env samples w =
     (if samples = [] \<or> wk_pendingRecovery w \<noteq> None \<or> wk_queue w \<noteq> [] then (False, w)
      else (True, bufferStates env samples w))"

definition heartbeat :: "wenv \<Rightarrow> 's sender_ops \<Rightarrow> 's worker \<Rightarrow> 's worker" where
  "heartbeat env ops w =
     (case recordStates env (slotStateSamples (wc_Services (wk_cfg w)) (we_current env) (we_now env)) w of
        (recorded, w1) \<Rightarrow> if recorded then snd (deliverStates env ops w1) else w1)"

definition sendSlotSample :: "wenv \<Rightarrow> 's sender_ops \<Rightarrow> go_time \<Rightarrow> 's worker \<Rightarrow> bool \<times> 's worker" where
  "sendSlotSample env ops at' w =
     (if IsZero at' then (True, w)
      else
        let samples = slotStateSamples (wc_Services (wk_cfg w)) (we_current env) at' in
        if samples = [] then (True, w)
        else case recordStates env samples w of (recorded, w1) \<Rightarrow>
          if \<not> recorded then (False, w1) else (True, snd (deliverStates env ops w1)))"

fun try_slot_samples :: "wenv \<Rightarrow> 's sender_ops \<Rightarrow> go_time list \<Rightarrow> 's worker \<Rightarrow> 's worker" where
  "try_slot_samples env ops [] w = w"
| "try_slot_samples env ops (at' # rest) w =
     (case sendSlotSample env ops at' w of (sent, w1) \<Rightarrow>
        if \<not> sent then w1 else try_slot_samples env ops rest (w1\<lparr>wk_pendingSlotSamples := rest\<rparr>))"

definition trySlotSamples :: "wenv \<Rightarrow> 's sender_ops \<Rightarrow> 's worker \<Rightarrow> 's worker" where
  "trySlotSamples env ops w = try_slot_samples env ops (wk_pendingSlotSamples w) w"

definition enqueueSlotSample :: "go_time \<Rightarrow> 's worker \<Rightarrow> 's worker" where
  "enqueueSlotSample at' w =
     (let xs = wk_pendingSlotSamples w in
      if IsZero at' then w
      else if xs \<noteq> [] \<and> last xs = at' then w
      else let ys = xs @ [at'] in
        w\<lparr>wk_pendingSlotSamples := (if length ys > 4 then drop (length ys - 4) ys else ys)\<rparr>)"

definition advancePast :: "location \<Rightarrow> go_time \<Rightarrow> 's worker \<Rightarrow> 's worker" where
  "advancePast loc fired w =
     (let sz = wc_RecoveryWindow (wk_cfg w) in
      if fired = wk_nextOpening w
      then w\<lparr>wk_nextOpening := SlotOpeningTime (SlotStart loc (wk_nextOpening w) sz + sz)\<rparr>
      else w\<lparr>wk_nextClosing := SlotClosingTime (SlotStart loc (wk_nextClosing w) sz + sz) sz\<rparr>)"

text \<open>
  The loop that catches up with the slot edges after the timer fired. Whether it ends depends on the
  slot grid, so a run that does not end is \<open>None\<close>.
\<close>

partial_function (option) slot_loop :: "location \<Rightarrow> go_time \<Rightarrow> 's worker \<Rightarrow> 's worker option" where
  "slot_loop loc now w =
     (let n = earlierTime (wk_nextOpening w) (wk_nextClosing w) in
      if now < n then Some w
      else slot_loop loc now (advancePast loc n (enqueueSlotSample n w)))"

definition slot_fired :: "wenv \<Rightarrow> 's worker \<Rightarrow> 's worker option" where
  "slot_fired env w =
     (let fired = earlierTime (wk_nextOpening w) (wk_nextClosing w) in
      slot_loop (we_loc env) (we_now env) (advancePast (we_loc env) fired (enqueueSlotSample fired w)))"

section \<open>Run\<close>

definition merge_job :: "recovery_job \<Rightarrow> recovery_job option \<Rightarrow> recovery_job" where
  "merge_job job pending =
     (case pending of None \<Rightarrow> job
      | Some p \<Rightarrow> \<lparr>rj_Fill = rj_Fill p @ rj_Fill job, rj_Events = rj_Events p @ rj_Events job\<rparr>)"

fun take_command :: "wenv \<Rightarrow> 's sender_ops \<Rightarrow> worker_command \<Rightarrow> 's worker \<Rightarrow> 's worker" where
  "take_command env ops (CmdEvent ev) w =
     (let w1 = w\<lparr>wk_batch := wk_batch w @ [ev]\<rparr> in
      if int (length (wk_batch w1)) \<ge> wc_BatchSize (wk_cfg w1) then snd (flush env ops w1) else w1)"
| "take_command env ops (CmdRecovery job) w =
     w\<lparr>wk_pendingRecovery := Some (merge_job job (wk_pendingRecovery w))\<rparr>"

text \<open>The work at the top of the loop, before the \<open>select\<close>.\<close>

definition before_select :: "wenv \<Rightarrow> 's sender_ops \<Rightarrow> 's worker \<Rightarrow> 's worker" where
  "before_select env ops w =
     (let w1 = (case wk_pendingRecovery w of None \<Rightarrow> w
                | Some job \<Rightarrow> (case sendRecovery env ops job w of (sent, w') \<Rightarrow>
                    if sent then w'\<lparr>wk_pendingRecovery := None\<rparr> else w'))
      in trySlotSamples env ops w1)"

datatype select_case = CaseQueue | CaseFlush | CaseState | CaseSlot | CaseDone

text \<open>
  The case the \<open>select\<close> takes; \<open>None\<close> when it cannot be taken (an empty queue, no slot timer) or its body
  does not end. The flag says whether \<open>Run\<close> goes on.
\<close>

fun select_step :: "wenv \<Rightarrow> 's sender_ops \<Rightarrow> select_case \<Rightarrow> 's worker \<Rightarrow> (bool \<times> 's worker) option" where
  "select_step env ops CaseQueue w =
     (case wk_queue w of [] \<Rightarrow> None
      | cmd # rest \<Rightarrow> Some (True, take_command env ops cmd (w\<lparr>wk_queue := rest\<rparr>)))"
| "select_step env ops CaseFlush w = Some (True, snd (flush env ops w))"
| "select_step env ops CaseState w = Some (True, heartbeat env ops w)"
| "select_step env ops CaseSlot w =
     (if wc_RecoveryWindow (wk_cfg w) > SlotEndLead then map_option (Pair True) (slot_fired env w) else None)"
| "select_step env ops CaseDone w = Some (False, snd (flush env ops w))"

definition run_turn :: "wenv \<Rightarrow> 's sender_ops \<Rightarrow> select_case \<Rightarrow> 's worker \<Rightarrow> (bool \<times> 's worker) option" where
  "run_turn env ops c w = select_step env ops c (before_select env ops w)"

text \<open>\<open>startup\<close>, which leaves its two results in the batch and the degraded mark, and the slot setup of \<open>Run\<close>.\<close>

definition startup_pending :: "'s sender_ops \<Rightarrow> 's worker \<Rightarrow> event list" where
  "startup_pending ops w =
     filter (\<lambda>ev. ev_Sequence ev > so_LastSent ops (wk_sender w)) (wc_StartupEvents (wk_cfg w))"

definition startup_split :: "worker_config \<Rightarrow> event list \<Rightarrow> nat" where
  "startup_split cfg pending =
     (if IsZero (wc_StartupSlot cfg) then 0
      else length (takeWhile (\<lambda>ev. ev_EventTimeUnixMS ev < UnixMilli (wc_StartupSlot cfg)) pending))"

definition startup :: "wenv \<Rightarrow> 's sender_ops \<Rightarrow> 's worker \<Rightarrow> 's worker" where
  "startup env ops w =
     (let cfg = wk_cfg w; pending = startup_pending ops w; split = startup_split cfg pending
      in case worker_Send ops (take split pending) w of
           (Some err, w1) \<Rightarrow> w1\<lparr>wk_batch := pending, wk_degradedSince := we_now env\<rparr>
         | (None, w1) \<Rightarrow>
           (case worker_SendStates ops (wc_StartupFill cfg) w1 of (ferr, w2) \<Rightarrow>
              let w3 = (case ferr of None \<Rightarrow> w2
                        | Some err \<Rightarrow> if IsPermanent err then w2 else bufferStates env (wc_StartupFill cfg) w2);
                  degraded = (if ferr \<noteq> None \<and> \<not> we_ctxErr env then we_now env else zero_time)
              in case worker_Send ops (drop split pending) w3 of
                   (Some err, w4) \<Rightarrow> w4\<lparr>wk_batch := drop split pending, wk_degradedSince := we_now env\<rparr>
                 | (None, w4) \<Rightarrow> w4\<lparr>wk_batch := [], wk_degradedSince := degraded\<rparr>))"

definition slot_setup :: "wenv \<Rightarrow> 's worker \<Rightarrow> 's worker" where
  "slot_setup env w =
     (let sz = wc_RecoveryWindow (wk_cfg w); loc = we_loc env; now = we_now env in
      if sz > SlotEndLead
      then w\<lparr>wk_pendingSlotSamples :=
               filter (\<lambda>t. \<not> IsZero t) [DueSlotOpening loc now sz, DueSlotClosing loc now sz],
             wk_nextOpening := NextSlotOpening loc now sz, wk_nextClosing := NextSlotClosing loc now sz\<rparr>
      else w)"

definition Run_start :: "wenv \<Rightarrow> 's sender_ops \<Rightarrow> 's worker \<Rightarrow> 's worker" where
  "Run_start env ops w = slot_setup env (startup env ops w)"

text \<open>What other goroutines and the loop do to a worker that runs.\<close>

inductive worker_step :: "'s sender_ops \<Rightarrow> 's worker \<Rightarrow> 's worker \<Rightarrow> bool" for ops where
  step_event: "EnqueueEvent ev w = (ok, w') \<Longrightarrow> worker_step ops w w'"
| step_recovery: "EnqueueRecovery fill evs w = (ok, w') \<Longrightarrow> worker_step ops w w'"
| step_turn: "run_turn env ops c w = Some (go, w') \<Longrightarrow> worker_step ops w w'"

inductive worker_reach :: "'s sender_ops \<Rightarrow> 's worker \<Rightarrow> bool" for ops where
  reach_start: "worker_reach ops (Run_start env ops (Worker_New cfg s))"
| reach_step: "worker_reach ops w \<Longrightarrow> worker_step ops w w' \<Longrightarrow> worker_reach ops w'"

section \<open>Bounds\<close>

definition worker_bounded :: "'s worker \<Rightarrow> bool" where
  "worker_bounded w \<longleftrightarrow> length (wk_pendingStates w) \<le> maxPendingStates \<and> length (wk_pendingSlotSamples w) \<le> 4 \<and>
     length (wk_queue w) \<le> queue_capacity \<and> 0 < wc_BatchSize (wk_cfg w)"

text \<open>What sending leaves alone: everything but the sender, the batch, the degraded mark and the drop count.\<close>

definition send_frame where
  "send_frame w = (wk_cfg w, wk_queue w, wk_published w, wk_pendingStates w, wk_pendingRecovery w,
     wk_pendingSlotSamples w, wk_nextOpening w, wk_nextClosing w)"

lemma markDegraded_frame [simp]:
  "send_frame (markDegraded env w) = send_frame w" "wk_sender (markDegraded env w) = wk_sender w"
  "wk_batch (markDegraded env w) = wk_batch w" "wk_dropped (markDegraded env w) = wk_dropped w"
  by (simp_all add: markDegraded_def send_frame_def)

lemma drop_events_frame [simp]:
  "send_frame (drop_events n w) = send_frame w" "wk_sender (drop_events n w) = wk_sender w"
  "wk_batch (drop_events n w) = wk_batch w" "wk_dropped (drop_events n w) = wk_dropped w + n"
  by (simp_all add: drop_events_def send_frame_def)

lemma update_frame [simp]:
  "send_frame (w\<lparr>wk_sender := s\<rparr>) = send_frame w" "send_frame (w\<lparr>wk_batch := b\<rparr>) = send_frame w"
  "send_frame (w\<lparr>wk_degradedSince := t\<rparr>) = send_frame w"
  by (simp_all add: send_frame_def)

lemma flush_frame: "send_frame (snd (flush env ops w)) = send_frame w"
  by (simp add: flush_def worker_Send_def Let_def split: prod.splits option.splits)

lemma send_job_events_frame: "send_frame (snd (send_job_events env ops job w)) = send_frame w"
  by (simp add: send_job_events_def worker_Send_def Let_def split: prod.splits option.splits)

lemma sendRecovery_frame: "send_frame (snd (sendRecovery env ops job w)) = send_frame w"
  using flush_frame [of env ops w]
  by (auto simp: sendRecovery_def worker_SendStates_def Let_def send_job_events_frame split: prod.splits option.splits)

lemma noteSamples_frame:
  "wk_cfg (noteSamples xs w) = wk_cfg w \<and> wk_queue (noteSamples xs w) = wk_queue w \<and>
   wk_sender (noteSamples xs w) = wk_sender w \<and> wk_batch (noteSamples xs w) = wk_batch w \<and>
   wk_dropped (noteSamples xs w) = wk_dropped w \<and> wk_pendingRecovery (noteSamples xs w) = wk_pendingRecovery w \<and>
   wk_pendingSlotSamples (noteSamples xs w) = wk_pendingSlotSamples w \<and>
   wk_pendingStates (noteSamples xs w) = wk_pendingStates w \<and>
   wk_nextOpening (noteSamples xs w) = wk_nextOpening w \<and> wk_nextClosing (noteSamples xs w) = wk_nextClosing w"
  unfolding noteSamples_def
  by (induction xs arbitrary: w) (auto simp: notePublished_def split: option.splits)

text \<open>The part of the frame that delivering state samples keeps, which does not mention the backlog.\<close>

definition backlog_frame where
  "backlog_frame w = (wk_cfg w, wk_queue w, wk_pendingRecovery w, wk_pendingSlotSamples w, wk_nextOpening w, wk_nextClosing w)"

lemma frame_states: "send_frame w' = send_frame w \<Longrightarrow> backlog_frame w' = backlog_frame w \<and> wk_pendingStates w' = wk_pendingStates w"
  by (simp add: send_frame_def backlog_frame_def)

lemma deliverStates_frame:
  "backlog_frame (snd (deliverStates env ops w)) = backlog_frame w \<and>
   wk_pendingStates (snd (deliverStates env ops w)) \<in> {[], wk_pendingStates w}"
proof -
  obtain f w1 where fl: "flush env ops w = (f, w1)" by (cases "flush env ops w")
  have w1: "backlog_frame w1 = backlog_frame w" "wk_pendingStates w1 = wk_pendingStates w"
    using flush_frame [of env ops w] frame_states [of w1 w] by (simp_all add: fl)
  then show ?thesis
    by (auto simp: deliverStates_def fl worker_SendStates_def Let_def backlog_frame_def noteSamples_frame markDegraded_def
        split: prod.splits option.splits)
qed

lemma pruneStates_bound: "length (wk_pendingStates (pruneStates env w)) \<le> maxPendingStates"
  by (simp add: pruneStates_def Let_def)

lemma bufferStates_frame:
  "backlog_frame (bufferStates env xs w) = backlog_frame w \<and> wk_batch (bufferStates env xs w) = wk_batch w \<and>
   wk_sender (bufferStates env xs w) = wk_sender w \<and> wk_dropped (bufferStates env xs w) = wk_dropped w \<and>
   (length (wk_pendingStates w) \<le> maxPendingStates \<longrightarrow>
      length (wk_pendingStates (bufferStates env xs w)) \<le> maxPendingStates)"
  using pruneStates_bound [of env "w\<lparr>wk_pendingStates := wk_pendingStates w @ xs\<rparr>"]
  by (auto simp: bufferStates_def backlog_frame_def pruneStates_def Let_def)

lemma flush_bounded: "worker_bounded w \<Longrightarrow> worker_bounded (snd (flush env ops w))"
  using frame_states [OF flush_frame [of env ops w]] by (auto simp: worker_bounded_def backlog_frame_def)

lemma deliverStates_bounded: "worker_bounded w \<Longrightarrow> worker_bounded (snd (deliverStates env ops w))"
  using deliverStates_frame [of env ops w] by (auto simp: worker_bounded_def backlog_frame_def)

lemma recordStates_bounded: "worker_bounded w \<Longrightarrow> worker_bounded (snd (recordStates env xs w))"
  using bufferStates_frame [of env xs w]
  by (auto simp: recordStates_def worker_bounded_def backlog_frame_def)

lemma heartbeat_bounded: "worker_bounded w \<Longrightarrow> worker_bounded (heartbeat env ops w)"
  using recordStates_bounded [of w env "slotStateSamples (wc_Services (wk_cfg w)) (we_current env) (we_now env)"]
    deliverStates_bounded
  by (auto simp: heartbeat_def split: prod.split)

lemma sendSlotSample_bounded: "worker_bounded w \<Longrightarrow> worker_bounded (snd (sendSlotSample env ops t w))"
  using recordStates_bounded [of w env "slotStateSamples (wc_Services (wk_cfg w)) (we_current env) t"] deliverStates_bounded
  by (auto simp: sendSlotSample_def Let_def split: prod.split)

lemma sendSlotSample_backlog_frame: "backlog_frame (snd (sendSlotSample env ops t w)) = backlog_frame w"
  by (simp add: sendSlotSample_def recordStates_def Let_def
      bufferStates_frame [THEN conjunct1] deliverStates_frame [THEN conjunct1])

lemma try_slot_samples_bounded:
  "worker_bounded w \<Longrightarrow> wk_pendingSlotSamples w = ts \<Longrightarrow> worker_bounded (try_slot_samples env ops ts w)"
proof (induction ts arbitrary: w)
  case (Cons t ts)
  obtain ok w1 where s: "sendSlotSample env ops t w = (ok, w1)" by (cases "sendSlotSample env ops t w")
  have "worker_bounded w1" and "wk_pendingSlotSamples w1 = t # ts"
    using sendSlotSample_bounded [OF Cons.prems(1), of env ops t] sendSlotSample_backlog_frame [of env ops t w] Cons.prems(2)
    by (simp_all add: s backlog_frame_def)
  then show ?case using Cons.IH [of "w1\<lparr>wk_pendingSlotSamples := ts\<rparr>"] by (simp add: s worker_bounded_def)
qed simp

lemma before_select_bounded:
  assumes "worker_bounded w"
  shows "worker_bounded (before_select env ops w)"
proof -
  let ?w1 = "case wk_pendingRecovery w of None \<Rightarrow> w
      | Some job \<Rightarrow> (case sendRecovery env ops job w of (sent, w') \<Rightarrow> if sent then w'\<lparr>wk_pendingRecovery := None\<rparr> else w')"
  have "worker_bounded ?w1"
  proof (cases "wk_pendingRecovery w")
    case (Some job)
    then show ?thesis
      using assms sendRecovery_frame [of env ops job w]
      by (auto simp: worker_bounded_def send_frame_def split: prod.splits)
  qed (use assms in simp)
  from try_slot_samples_bounded [OF this refl] show ?thesis
    by (simp only: before_select_def trySlotSamples_def Let_def)
qed

lemma enqueueSlotSample_bounded: "worker_bounded w \<Longrightarrow> worker_bounded (enqueueSlotSample t w)"
  by (auto simp: enqueueSlotSample_def worker_bounded_def Let_def)

lemma advancePast_bounded: "worker_bounded w \<Longrightarrow> worker_bounded (advancePast loc t w)"
  by (auto simp: advancePast_def worker_bounded_def Let_def)

lemma slot_loop_bounded: "slot_loop loc now w = Some w' \<Longrightarrow> worker_bounded w \<Longrightarrow> worker_bounded w'"
proof (induction rule: slot_loop.raw_induct [rotated 1, consumes 1])
  case (1 slot_loop' loc now w w')
  let ?n = "earlierTime (wk_nextOpening w) (wk_nextClosing w)"
  have "worker_bounded (advancePast loc ?n (enqueueSlotSample ?n w))"
    using 1 enqueueSlotSample_bounded advancePast_bounded by blast
  with 1 show ?case by (auto simp: Let_def split: if_splits)
qed

lemma take_command_bounded: "worker_bounded w \<Longrightarrow> worker_bounded (take_command env ops cmd w)"
proof (cases cmd)
  case (CmdEvent ev)
  assume "worker_bounded w"
  then have "worker_bounded (w\<lparr>wk_batch := wk_batch w @ [ev]\<rparr>)" by (simp add: worker_bounded_def)
  then show ?thesis by (simp add: CmdEvent Let_def flush_bounded)
next
  case (CmdRecovery job)
  assume "worker_bounded w"
  then show ?thesis by (simp add: CmdRecovery worker_bounded_def)
qed

lemma select_step_bounded:
  assumes "select_step env ops c w = Some (go, w')" and "worker_bounded w"
  shows "worker_bounded w'"
proof (cases c)
  case CaseQueue
  then obtain cmd rest where q: "wk_queue w = cmd # rest" and w': "w' = take_command env ops cmd (w\<lparr>wk_queue := rest\<rparr>)"
    using assms(1) by (auto split: list.splits)
  have "worker_bounded (w\<lparr>wk_queue := rest\<rparr>)" using assms(2) q by (simp add: worker_bounded_def)
  then show ?thesis unfolding w' by (rule take_command_bounded)
next
  case CaseSlot
  then obtain fired where "slot_loop (we_loc env) (we_now env)
      (advancePast (we_loc env) fired (enqueueSlotSample fired w)) = Some w'"
    using assms(1) by (auto simp: slot_fired_def Let_def split: if_splits)
  then show ?thesis
    using slot_loop_bounded advancePast_bounded enqueueSlotSample_bounded assms(2) by blast
qed (use assms flush_bounded heartbeat_bounded in auto)

lemma worker_sends_frame:
  "worker_Send ops evs w = (e, w1) \<Longrightarrow> \<exists>s. so_Send ops evs (wk_sender w) = (e, s) \<and> w1 = w\<lparr>wk_sender := s\<rparr>"
  "worker_SendStates ops xs w = (e, w1) \<Longrightarrow> \<exists>s. so_SendRecoveredStates ops xs (wk_sender w) = (e, s) \<and> w1 = w\<lparr>wk_sender := s\<rparr>"
  by (auto simp: worker_Send_def worker_SendStates_def split: prod.splits)

text \<open>The three sends of \<open>startup\<close>, spelled out.\<close>

lemma startup_cases:
  fixes ops :: "'s sender_ops" and w :: "'s worker" and env :: wenv
  defines "p \<equiv> startup_pending ops w" and "k \<equiv> startup_split (wk_cfg w) (startup_pending ops w)"
    and "fill \<equiv> wc_StartupFill (wk_cfg w)"
  obtains (before) err s1 where "so_Send ops (take k p) (wk_sender w) = (Some err, s1)"
      and "startup env ops w = w\<lparr>wk_sender := s1, wk_batch := p, wk_degradedSince := we_now env\<rparr>"
  | (rest) s1 s2 ferr w3 s4 err t where "so_Send ops (take k p) (wk_sender w) = (None, s1)"
      and "so_SendRecoveredStates ops fill s1 = (ferr, s2)"
      and "w3 = (case ferr of None \<Rightarrow> w\<lparr>wk_sender := s2\<rparr> | Some e \<Rightarrow> if IsPermanent e then w\<lparr>wk_sender := s2\<rparr>
                  else bufferStates env fill (w\<lparr>wk_sender := s2\<rparr>))"
      and "so_Send ops (drop k p) s2 = (err, s4)"
      and "startup env ops w = w3\<lparr>wk_sender := s4, wk_batch := (if err = None then [] else drop k p), wk_degradedSince := t\<rparr>"
proof -
  obtain e1 s1 where 1: "so_Send ops (take k p) (wk_sender w) = (e1, s1)" by (cases "so_Send ops (take k p) (wk_sender w)")
  obtain ferr s2 where 2: "so_SendRecoveredStates ops fill s1 = (ferr, s2)" by (cases "so_SendRecoveredStates ops fill s1")
  define w3 where w3: "w3 = (case ferr of None \<Rightarrow> w\<lparr>wk_sender := s2\<rparr> | Some e \<Rightarrow> if IsPermanent e then w\<lparr>wk_sender := s2\<rparr>
      else bufferStates env fill (w\<lparr>wk_sender := s2\<rparr>))"
  have s3: "wk_sender w3 = s2" by (simp add: w3 bufferStates_frame split: option.split)
  obtain err s4 where 3: "so_Send ops (drop k p) s2 = (err, s4)" by (cases "so_Send ops (drop k p) s2")
  note fold = p_def [symmetric] k_def [unfolded p_def [symmetric], symmetric] fill_def [symmetric]
  show ?thesis
  proof (cases e1)
    case (Some a)
    then have "startup env ops w = w\<lparr>wk_sender := s1, wk_batch := p, wk_degradedSince := we_now env\<rparr>"
      using 1 by (simp add: startup_def worker_Send_def Let_def fold)
    then show ?thesis using 1 Some before by blast
  next
    case None
    let ?t = "if err \<noteq> None \<or> ferr \<noteq> None \<and> \<not> we_ctxErr env then we_now env else zero_time"
    have "startup env ops w = w3\<lparr>wk_sender := s4, wk_batch := (if err = None then [] else drop k p), wk_degradedSince := ?t\<rparr>"
      using 1 2 3 None s3 unfolding startup_def worker_Send_def worker_SendStates_def Let_def fold
      by (cases err) (auto simp: w3 [symmetric])
    with 1 2 3 None w3 show ?thesis using rest by blast
  qed
qed

lemma startup_bounded: "worker_bounded (startup env ops (Worker_New cfg s))"
proof -
  let ?w = "Worker_New cfg s"
  have w: "worker_bounded ?w" by (simp add: worker_bounded_def Worker_New_def maxPendingStates_def)
  show ?thesis
  proof (cases rule: startup_cases [of ops ?w env])
    case (before err s1)
    then show ?thesis using w by (simp add: worker_bounded_def)
  next
    case (rest s1 s2 ferr w3 s4 err t)
    have "worker_bounded (?w\<lparr>wk_sender := s2\<rparr>)" using w by (simp add: worker_bounded_def)
    then have "worker_bounded w3"
      using bufferStates_frame [of env "wc_StartupFill (wk_cfg ?w)" "?w\<lparr>wk_sender := s2\<rparr>"]
      by (auto simp: rest(3) worker_bounded_def backlog_frame_def split: option.split)
    then show ?thesis using rest(5) by (simp add: worker_bounded_def)
  qed
qed

lemma Run_start_bounded: "worker_bounded (Run_start env ops (Worker_New cfg s))"
  using startup_bounded [of env ops cfg s]
  by (simp add: Run_start_def slot_setup_def worker_bounded_def Let_def)

lemma worker_step_bounded: "worker_step ops w w' \<Longrightarrow> worker_bounded w \<Longrightarrow> worker_bounded w'"
proof (induction rule: worker_step.induct)
  case (step_turn env c w go w')
  then show ?case using select_step_bounded before_select_bounded by (metis run_turn_def)
qed (auto simp: EnqueueEvent_def EnqueueRecovery_def enqueue_def worker_bounded_def split: if_splits)

lemma worker_reach_bounded: "worker_reach ops w \<Longrightarrow> worker_bounded w"
  by (induction rule: worker_reach.induct) (auto simp: Run_start_bounded dest: worker_step_bounded)

section \<open>The sender as an interface\<close>

text \<open>
  What the worker relies on: a sender keeps what it delivered and never moves its sequence back, and a
  send that returns nil has delivered every event above that sequence.
\<close>

locale event_sender =
  fixes ops :: "'s sender_ops"
    and handed :: "'s \<Rightarrow> event \<Rightarrow> bool"
    and ok :: "'s \<Rightarrow> bool"
  assumes Send_keeps: "ok s \<Longrightarrow> so_Send ops evs s = (e, s') \<Longrightarrow>
      ok s' \<and> so_LastSent ops s \<le> so_LastSent ops s' \<and> (\<forall>ev. handed s ev \<longrightarrow> handed s' ev)"
    and States_keeps: "ok s \<Longrightarrow> so_SendRecoveredStates ops xs s = (e, s') \<Longrightarrow>
      ok s' \<and> so_LastSent ops s \<le> so_LastSent ops s' \<and> (\<forall>ev. handed s ev \<longrightarrow> handed s' ev)"
    and Send_nil: "ok s \<Longrightarrow> so_Send ops evs s = (None, s') \<Longrightarrow> ev \<in> set evs \<Longrightarrow>
      handed s' ev \<or> ev_Sequence ev \<le> so_LastSent ops s"

text \<open>The events a worker still holds.\<close>

definition command_events :: "worker_command \<Rightarrow> event list" where
  "command_events cmd = (case cmd of CmdEvent ev \<Rightarrow> [ev] | CmdRecovery job \<Rightarrow> rj_Events job)"

definition held :: "'s worker \<Rightarrow> event set" where
  "held w = set (wk_batch w) \<union> (case wk_pendingRecovery w of None \<Rightarrow> {} | Some job \<Rightarrow> set (rj_Events job)) \<union>
     (\<Union>cmd \<in> set (wk_queue w). set (command_events cmd))"

lemma held_simps [simp]:
  "held (w\<lparr>wk_sender := s\<rparr>) = held w" "held (w\<lparr>wk_pendingStates := xs\<rparr>) = held w"
  "held (w\<lparr>wk_degradedSince := t\<rparr>) = held w" "held (w\<lparr>wk_pendingSlotSamples := ts\<rparr>) = held w"
  "held (markDegraded env w) = held w" "held (drop_events n w) = held w"
  by (simp_all add: held_def markDegraded_def drop_events_def)

context event_sender
begin

definition accounted :: "'s worker \<Rightarrow> event set" where
  "accounted w = held w \<union> {ev. handed (wk_sender w) ev \<or> ev_Sequence ev \<le> so_LastSent ops (wk_sender w)}"

text \<open>A step that loses nothing unless it reports a drop.\<close>

definition keeps :: "'s worker \<Rightarrow> 's worker \<Rightarrow> bool" where
  "keeps w w' \<longleftrightarrow> (ok (wk_sender w) \<longrightarrow> ok (wk_sender w')) \<and> wk_dropped w \<le> wk_dropped w' \<and>
     (ok (wk_sender w) \<longrightarrow> accounted w \<subseteq> accounted w' \<or> wk_dropped w < wk_dropped w')"

lemma keeps_refl: "keeps w w"
  by (simp add: keeps_def)

lemma keeps_trans: "keeps w w1 \<Longrightarrow> keeps w1 w2 \<Longrightarrow> keeps w w2"
  unfolding keeps_def by (meson le_less_trans less_le_trans order_trans)

lemma keeps_eq:
  "held w' = held w \<Longrightarrow> wk_sender w' = wk_sender w \<Longrightarrow> wk_dropped w' = wk_dropped w \<Longrightarrow> keeps w w'"
  by (simp add: keeps_def accounted_def)

lemma keeps_states:
  assumes "so_SendRecoveredStates ops xs (wk_sender w) = (e, s)"
    and "held w' = held w" "wk_sender w' = s" "wk_dropped w' = wk_dropped w"
  shows "keeps w w'"
  using assms States_keeps [of "wk_sender w" xs e s] by (auto simp: keeps_def accounted_def)

lemma keeps_send:
  assumes "so_Send ops evs (wk_sender w) = (e, s)" and "wk_sender w' = s" and "wk_dropped w \<le> wk_dropped w'"
    and "held w \<subseteq> held w' \<union> set evs"
    and "e = None \<or> held w \<subseteq> held w' \<or> wk_dropped w < wk_dropped w'"
  shows "keeps w w'"
proof -
  have "accounted w \<subseteq> accounted w'" if "ok (wk_sender w)" "e = None \<or> held w \<subseteq> held w'"
  proof
    fix ev
    assume ev: "ev \<in> accounted w"
    have k: "so_LastSent ops (wk_sender w) \<le> so_LastSent ops s" "handed (wk_sender w) ev \<Longrightarrow> handed s ev"
      using Send_keeps [OF that(1) assms(1)] by auto
    have "handed s ev \<or> ev_Sequence ev \<le> so_LastSent ops (wk_sender w)" if "e = None" "ev \<in> set evs"
      using Send_nil [OF \<open>ok (wk_sender w)\<close>, of evs s ev] assms(1) that by blast
    then show "ev \<in> accounted w'"
      using ev k assms(2,4) that(2) unfolding accounted_def by (cases "ev \<in> set evs") (auto dest: order_trans)
  qed
  then show ?thesis
    using Send_keeps [OF _ assms(1)] assms(2,3,5) by (auto simp: keeps_def)
qed

lemma flush_keeps: "keeps w (snd (flush env ops w))"
proof (cases "wk_batch w = []")
  case True
  then show ?thesis by (simp add: flush_def keeps_refl)
next
  case False
  obtain e s where s: "so_Send ops (wk_batch w) (wk_sender w) = (e, s)"
    by (cases "so_Send ops (wk_batch w) (wk_sender w)")
  have batch: "held w \<subseteq> held (v\<lparr>wk_batch := []\<rparr>) \<union> set (wk_batch w)" if "held v = held w" "send_frame v = send_frame w" for v :: "'s worker"
    using that(2) by (auto simp: held_def send_frame_def)
  show ?thesis
  proof (cases e)
    case None
    then show ?thesis
      using False s batch [of "w\<lparr>wk_sender := s\<rparr>"]
      by (intro keeps_send [OF s]) (simp_all add: flush_def worker_Send_def)
  next
    case (Some err)
    let ?w2 = "markDegraded env (w\<lparr>wk_sender := s\<rparr>)"
    let ?w3 = "drop_events (length (wk_batch ?w2)) ?w2"
    have "keeps w (w\<lparr>wk_sender := s\<rparr>)" and "keeps w ?w2" by (rule keeps_send [OF s]; simp)+
    moreover have "keeps w (?w3\<lparr>wk_batch := []\<rparr>)"
      using False batch [of ?w3] by (intro keeps_send [OF s]) simp_all
    ultimately show ?thesis using False s Some by (simp add: flush_def worker_Send_def Let_def)
  qed
qed

lemma send_job_events_keeps:
  assumes "wk_pendingRecovery w = Some job" and "send_job_events env ops job w = (sent, w')"
  shows "keeps w (if sent then w'\<lparr>wk_pendingRecovery := None\<rparr> else w')"
proof -
  obtain e s where s: "so_Send ops (rj_Events job) (wk_sender w) = (e, s)"
    by (cases "so_Send ops (rj_Events job) (wk_sender w)")
  have job: "held w \<subseteq> held (v\<lparr>wk_pendingRecovery := None\<rparr>) \<union> set (rj_Events job)"
    if "held v = held w" "send_frame v = send_frame w" "wk_batch v = wk_batch w" for v :: "'s worker"
    using that assms(1) by (auto simp: held_def send_frame_def)
  let ?w2 = "markDegraded env (w\<lparr>wk_sender := s\<rparr>)"
  let ?w3 = "drop_events (length (rj_Events job)) ?w2"
  have keep: "keeps w (w\<lparr>wk_sender := s\<rparr>)" "keeps w ?w2" by (rule keeps_send [OF s]; simp)+
  have ok: "keeps w (w\<lparr>wk_sender := s, wk_pendingRecovery := None\<rparr>)" if "e = None"
    using that job [of "w\<lparr>wk_sender := s\<rparr>"] by (intro keeps_send [OF s]) simp_all
  have drop: "keeps w (?w3\<lparr>wk_pendingRecovery := None\<rparr>)"
  proof (cases "rj_Events job = []")
    case True
    then show ?thesis using job [of ?w3] by (intro keeps_send [OF s]) simp_all
  next
    case False
    then show ?thesis using job [of ?w3] by (intro keeps_send [OF s]) simp_all
  qed
  show ?thesis
    using assms(2) s keep ok drop by (cases e) (auto simp: send_job_events_def worker_Send_def Let_def split: if_splits)
qed

lemma sendRecovery_keeps:
  assumes "wk_pendingRecovery w = Some job" and "sendRecovery env ops job w = (sent, w')"
  shows "keeps w (if sent then w'\<lparr>wk_pendingRecovery := None\<rparr> else w')"
proof -
  obtain f w1 where fl: "flush env ops w = (f, w1)" by (cases "flush env ops w")
  have k1: "keeps w w1" using flush_keeps [of w env] by (simp add: fl)
  have p1: "wk_pendingRecovery w1 = Some job"
    using flush_frame [of env ops w] assms(1) by (simp add: fl send_frame_def)
  obtain e s where s: "so_SendRecoveredStates ops (rj_Fill job) (wk_sender w1) = (e, s)"
    by (cases "so_SendRecoveredStates ops (rj_Fill job) (wk_sender w1)")
  let ?w2 = "w1\<lparr>wk_sender := s\<rparr>"
  have k2: "keeps w ?w2" "keeps w (markDegraded env ?w2)"
    using keeps_trans [OF k1 keeps_states [OF s]] by simp_all
  have "wk_pendingRecovery ?w2 = Some job" "wk_pendingRecovery (markDegraded env ?w2) = Some job"
    using p1 by (simp_all add: markDegraded_def)
  note jobs = send_job_events_keeps [OF this(1)] send_job_events_keeps [OF this(2)]
  let ?r = "if sent then w'\<lparr>wk_pendingRecovery := None\<rparr> else w'"
  have r: "send_job_events env ops job ?w2 = (sent, w') \<Longrightarrow> keeps w ?r"
      "send_job_events env ops job (markDegraded env ?w2) = (sent, w') \<Longrightarrow> keeps w ?r"
    by (rule keeps_trans [OF k2(1) jobs(1)], assumption) (rule keeps_trans [OF k2(2) jobs(2)], assumption)
  show ?thesis
    using assms(2) k1 k2 r
    by (cases f; cases e)
      (simp_all add: sendRecovery_def fl worker_SendStates_def s Let_def del: if_True if_False split: if_split_asm)
qed

lemma deliverStates_keeps: "keeps w (snd (deliverStates env ops w))"
proof -
  obtain f w1 where fl: "flush env ops w = (f, w1)" by (cases "flush env ops w")
  have k1: "keeps w w1" using flush_keeps [of w env] by (simp add: fl)
  let ?xs = "dropStale w1 (wk_pendingStates w1)"
  obtain e s where s: "so_SendRecoveredStates ops ?xs (wk_sender w1) = (e, s)"
    by (cases "so_SendRecoveredStates ops ?xs (wk_sender w1)")
  let ?w2 = "w1\<lparr>wk_sender := s\<rparr>"
  have ns: "held (noteSamples ?xs ?w2) = held w1" by (simp add: held_def noteSamples_frame)
  have "keeps w1 (w1\<lparr>wk_pendingStates := []\<rparr>)" by (intro keeps_eq) simp_all
  moreover have "keeps w1 ((noteSamples ?xs ?w2)\<lparr>wk_degradedSince := zero_time, wk_pendingStates := []\<rparr>)"
    using ns by (intro keeps_states [OF s]) (simp_all add: noteSamples_frame)
  moreover have "keeps w1 ?w2" "keeps w1 (markDegraded env ?w2)" "keeps w1 (?w2\<lparr>wk_pendingStates := []\<rparr>)"
      "keeps w1 ((markDegraded env ?w2)\<lparr>wk_pendingStates := []\<rparr>)"
    by (rule keeps_states [OF s]; simp)+
  ultimately show ?thesis
    using k1 keeps_trans [OF k1] keeps_refl
    by (auto simp: deliverStates_def fl worker_SendStates_def s Let_def split: option.split)
qed

lemma bufferStates_keeps: "keeps w (bufferStates env xs w)"
  using bufferStates_frame [of env xs w] by (intro keeps_eq) (simp_all add: held_def backlog_frame_def)

lemma sendSlotSample_keeps: "keeps w (snd (sendSlotSample env ops t w))"
  by (simp add: sendSlotSample_def recordStates_def Let_def keeps_refl keeps_trans [OF bufferStates_keeps deliverStates_keeps])

lemma heartbeat_keeps: "keeps w (heartbeat env ops w)"
  by (simp add: heartbeat_def recordStates_def keeps_refl keeps_trans [OF bufferStates_keeps deliverStates_keeps])

lemma try_slot_samples_keeps: "keeps w (try_slot_samples env ops ts w)"
proof (induction ts arbitrary: w)
  case (Cons t ts)
  obtain sent w1 where s: "sendSlotSample env ops t w = (sent, w1)" by (cases "sendSlotSample env ops t w")
  have 1: "keeps w w1" using sendSlotSample_keeps [of w env t] by (simp add: s)
  have "keeps w1 (w1\<lparr>wk_pendingSlotSamples := ts\<rparr>)" by (intro keeps_eq) simp_all
  from keeps_trans [OF 1 keeps_trans [OF this Cons.IH]] show ?case using 1 by (simp add: s)
qed (simp add: keeps_refl)

lemma before_select_keeps: "keeps w (before_select env ops w)"
proof (cases "wk_pendingRecovery w")
  case None
  then show ?thesis by (simp add: before_select_def trySlotSamples_def try_slot_samples_keeps)
next
  case (Some job)
  obtain sent w1 where r: "sendRecovery env ops job w = (sent, w1)" by (cases "sendRecovery env ops job w")
  show ?thesis
    using keeps_trans [OF sendRecovery_keeps [OF Some r] try_slot_samples_keeps]
    by (simp add: before_select_def trySlotSamples_def Some r Let_def)
qed

end

text \<open>What the slot edges touch: neither the events nor the sender.\<close>

definition slot_frame where
  "slot_frame w = (wk_cfg w, wk_queue w, wk_batch w, wk_pendingRecovery w, wk_sender w, wk_dropped w, wk_pendingStates w)"

lemma slot_edge_frame: "slot_frame (advancePast loc t (enqueueSlotSample t w)) = slot_frame w"
  by (simp add: slot_frame_def advancePast_def enqueueSlotSample_def Let_def)

lemma slot_loop_frame: "slot_loop loc now w = Some w' \<Longrightarrow> slot_frame w' = slot_frame w"
proof (induction rule: slot_loop.raw_induct [rotated 1, consumes 1])
  case (1 slot_loop' loc now w w')
  then show ?case by (auto simp: Let_def slot_edge_frame split: if_splits)
qed

lemma slot_fired_frame: "slot_fired env w = Some w' \<Longrightarrow> slot_frame w' = slot_frame w"
  using slot_loop_frame slot_edge_frame by (fastforce simp: slot_fired_def Let_def)

context event_sender
begin

lemma take_command_keeps:
  assumes "wk_queue w = cmd # rest"
  shows "keeps w (take_command env ops cmd (w\<lparr>wk_queue := rest\<rparr>))"
proof (cases cmd)
  case (CmdEvent ev)
  let ?w = "w\<lparr>wk_queue := rest, wk_batch := wk_batch w @ [ev]\<rparr>"
  have "keeps w ?w" using assms by (intro keeps_eq) (auto simp: held_def CmdEvent command_events_def)
  then show ?thesis using keeps_trans [OF _ flush_keeps, of w ?w] by (simp add: CmdEvent Let_def)
next
  case (CmdRecovery job)
  show ?thesis
    using assms by (intro keeps_eq) (auto simp: held_def CmdRecovery command_events_def merge_job_def split: option.splits)
qed

lemma select_step_keeps:
  assumes "select_step env ops c w = Some (go, w')"
  shows "keeps w w'"
proof (cases c)
  case CaseQueue
  then show ?thesis using assms take_command_keeps by (auto split: list.splits)
next
  case CaseSlot
  then have "slot_fired env w = Some w'" using assms by (auto split: if_splits)
  from slot_fired_frame [OF this] show ?thesis by (intro keeps_eq) (simp_all add: slot_frame_def held_def)
qed (use assms flush_keeps heartbeat_keeps in auto)

lemma worker_step_keeps: "worker_step ops w w' \<Longrightarrow> keeps w w'"
proof (induction rule: worker_step.induct)
  case (step_turn env c w go w')
  then show ?case using keeps_trans [OF before_select_keeps select_step_keeps] by (simp add: run_turn_def)
qed (auto simp: EnqueueEvent_def EnqueueRecovery_def enqueue_def keeps_def accounted_def held_def split: if_splits)

lemma worker_steps_keep: "(worker_step ops)\<^sup>*\<^sup>* w w' \<Longrightarrow> keeps w w'"
  by (induction rule: rtranclp_induct) (auto intro: keeps_refl keeps_trans worker_step_keeps)

text \<open>\<open>startup\<close> keeps every event of the write-ahead log that the sender has not covered.\<close>

lemma startup_ok:
  assumes "ok (wk_sender w)"
  shows "ok (wk_sender (startup env ops w)) \<and> wk_dropped (startup env ops w) = wk_dropped w"
proof (cases rule: startup_cases [of ops w env])
  case (before err s1)
  then show ?thesis using Send_keeps [OF assms before(1)] by simp
next
  case (rest s1 s2 ferr w3 s4 err t)
  have "ok s4" using Send_keeps [OF assms rest(1)] States_keeps [OF _ rest(2)] Send_keeps [OF _ rest(4)] by blast
  moreover have "wk_dropped w3 = wk_dropped w" by (simp add: rest(3) bufferStates_frame split: option.split)
  ultimately show ?thesis by (simp add: rest(5))
qed

lemma startup_accounts:
  assumes "ok (wk_sender w)" and "ev \<in> set (wc_StartupEvents (wk_cfg w))"
  shows "ev \<in> accounted (startup env ops w)"
proof (cases rule: startup_cases [of ops w env])
  case (before err s1)
  then show ?thesis
    using assms Send_keeps [OF assms(1) before(1)] by (auto simp: accounted_def held_def startup_pending_def not_less)
next
  case (rest s1 s2 ferr w3 s4 err t)
  let ?p = "startup_pending ops w" and ?k = "startup_split (wk_cfg w) (startup_pending ops w)"
  note k1 = Send_keeps [OF assms(1) rest(1)]
  note k2 = States_keeps [OF conjunct1 [OF k1] rest(2)]
  note k3 = Send_keeps [OF conjunct1 [OF k2] rest(4)]
  have le: "so_LastSent ops (wk_sender w) \<le> so_LastSent ops s2" "so_LastSent ops s2 \<le> so_LastSent ops s4"
    using k1 k2 k3 by auto
  have first: "handed s4 ev \<or> ev_Sequence ev \<le> so_LastSent ops s4" if "ev \<in> set (take ?k ?p)"
    using Send_nil [OF assms(1) rest(1) that] k1 k2 k3 le by (auto dest: order_trans)
  have second: "handed s4 ev \<or> ev_Sequence ev \<le> so_LastSent ops s4" if "ev \<in> set (drop ?k ?p)" "err = None"
    using Send_nil [of s2 "drop ?k ?p" s4 ev] rest(4) that k2 le by (auto dest: order_trans)
  have "ev_Sequence ev \<le> so_LastSent ops s4 \<or> ev \<in> set (take ?k ?p) \<or> ev \<in> set (drop ?k ?p)"
  proof (cases "ev \<in> set ?p")
    case True
    then show ?thesis by (metis append_take_drop_id set_append Un_iff)
  next
    case False
    then have "ev_Sequence ev \<le> so_LastSent ops (wk_sender w)" using assms(2) by (simp add: startup_pending_def not_less)
    then show ?thesis using order_trans [OF order_trans [OF _ le(1)] le(2)] by blast
  qed
  then show ?thesis
    using first second k3 by (auto simp: rest(5) accounted_def held_def)
qed

lemma Run_start_accounts:
  assumes "ok s"
  shows "set (wc_StartupEvents cfg) \<subseteq> accounted (Run_start env ops (Worker_New cfg s))"
    and "ok (wk_sender (Run_start env ops (Worker_New cfg s)))" and "wk_dropped (Run_start env ops (Worker_New cfg s)) = 0"
proof -
  let ?w = "Worker_New cfg s"
  have slot: "held (slot_setup env w) = held w" "wk_sender (slot_setup env w) = wk_sender w"
    "wk_dropped (slot_setup env w) = wk_dropped w" for w :: "'s worker"
    by (simp_all add: slot_setup_def held_def Let_def)
  have new: "wk_sender ?w = s" "wk_dropped ?w = 0" "wc_StartupEvents (wk_cfg ?w) = wc_StartupEvents cfg"
    by (simp_all add: Worker_New_def)
  show "set (wc_StartupEvents cfg) \<subseteq> accounted (Run_start env ops ?w)"
    using startup_accounts [of ?w _ env] assms by (auto simp: new Run_start_def slot accounted_def)
  show "ok (wk_sender (Run_start env ops ?w))" and "wk_dropped (Run_start env ops ?w) = 0"
    using startup_ok [of ?w env] assms by (simp_all add: new Run_start_def slot)
qed

end

section \<open>The remote-write sender\<close>

definition rw_ops :: "transport \<Rightarrow> sender option sender_ops" where
  "rw_ops tr = \<lparr>so_Send = Send tr, so_SendRecoveredStates = SendRecoveredStates tr,
     so_LastSent = (\<lambda>so. case so of None \<Rightarrow> 0 | Some s \<Rightarrow> LastSent s)\<rparr>"

definition rw_handed :: "sender option \<Rightarrow> event \<Rightarrow> bool" where
  "rw_handed so ev = (case so of None \<Rightarrow> False | Some s \<Rightarrow> delivered s ev)"

definition rw_ok :: "sender option \<Rightarrow> bool" where
  "rw_ok so = (case so of None \<Rightarrow> False | Some s \<Rightarrow> 0 < rw_BatchSize (sd_cfg s))"

lemma rw_Send_cases:
  assumes "rw_ok so" and "Send tr evs so = (e, so')"
  obtains s s' where "so = Some s" and "so' = Some s'" and "rw_later s s'" and "0 < rw_BatchSize (sd_cfg s)"
    and "e = None \<longrightarrow> (\<forall>ev \<in> set evs. delivered s' ev \<or> ev_Sequence ev \<le> sd_lastSent s)"
proof -
  obtain s where s: "so = Some s" "0 < rw_BatchSize (sd_cfg s)" using assms(1) by (auto simp: rw_ok_def split: option.splits)
  then show ?thesis
    using assms(2) that Send_later [OF _ s(2), of tr evs e]
    by (cases "sendEventsLocked tr evs s") (auto simp: Send_def split: if_splits)
qed

lemma rw_States_cases:
  assumes "rw_ok so" and "SendRecoveredStates tr xs so = (e, so')"
  obtains s s' where "so = Some s" and "so' = Some s'" and "rw_later s s'" and "0 < rw_BatchSize (sd_cfg s)"
proof -
  obtain s where s: "so = Some s" "0 < rw_BatchSize (sd_cfg s)" using assms(1) by (auto simp: rw_ok_def split: option.splits)
  then show ?thesis
    using assms(2) that sendSeries_later [of tr "state_series (sd_cfg s) xs" s e]
    by (cases "sendSeries tr (state_series (sd_cfg s) xs) s") (auto simp: SendRecoveredStates_def split: if_splits)
qed

lemmas rw_sender_simps = rw_ops_def rw_ok_def rw_handed_def LastSent_def rw_later_def

interpretation rw: event_sender "rw_ops tr" rw_handed rw_ok for tr
proof (unfold_locales, goal_cases)
  case (1 so evs e so')
  have "Send tr evs so = (e, so')" using 1(2) by (simp add: rw_ops_def)
  from 1(1) this show ?case
    by (rule rw_Send_cases) (auto simp: rw_sender_simps intro: rw_later_delivered [unfolded rw_later_def])
next
  case (2 so xs e so')
  have "SendRecoveredStates tr xs so = (e, so')" using 2(2) by (simp add: rw_ops_def)
  from 2(1) this show ?case
    by (rule rw_States_cases) (auto simp: rw_sender_simps intro: rw_later_delivered [unfolded rw_later_def])
next
  case (3 so evs so' ev)
  have "Send tr evs so = (None, so')" using 3(2) by (simp add: rw_ops_def)
  from 3(1) this show ?case by (rule rw_Send_cases) (use 3(3) in \<open>auto simp: rw_sender_simps\<close>)
qed

section \<open>The slot edges\<close>

lemma slot_loop_returns:
  assumes "whole_minutes (wc_RecoveryWindow (wk_cfg w)) k" and "\<And>t. steady loc t"
  shows "\<exists>w'. slot_loop loc now w = Some w' \<and> now < earlierTime (wk_nextOpening w') (wk_nextClosing w')"
  using assms(1)
proof (induction w rule: measure_induct_rule
    [where f = "\<lambda>w. nat (now + 1 - wk_nextOpening w) + nat (now + 1 - wk_nextClosing w)"])
  case (less w)
  let ?n = "earlierTime (wk_nextOpening w) (wk_nextClosing w)" and ?sz = "wc_RecoveryWindow (wk_cfg w)"
  let ?w = "advancePast loc ?n (enqueueSlotSample ?n w)"
  have cfg: "wk_cfg ?w = wk_cfg w" using slot_edge_frame [of loc ?n w] by (simp add: slot_frame_def)
  have up: "t < SlotOpeningTime (SlotStart loc t ?sz + ?sz)" "t < SlotClosingTime (SlotStart loc t ?sz + ?sz) ?sz" for t
    using slot_contains(2) [OF less.prems assms(2), of t] slot_edges_inside [OF less.prems, of "SlotStart loc t ?sz + ?sz"]
    by auto
  show ?case
  proof (cases "now < ?n")
    case True
    then show ?thesis by (subst slot_loop.simps) (simp add: Let_def)
  next
    case False
    have "?n = wk_nextOpening w \<or> ?n = wk_nextClosing w" by (simp add: earlierTime_def)
    then have "nat (now + 1 - wk_nextOpening ?w) + nat (now + 1 - wk_nextClosing ?w)
        < nat (now + 1 - wk_nextOpening w) + nat (now + 1 - wk_nextClosing w)"
      using False up [of "wk_nextOpening w"] up [of "wk_nextClosing w"]
      by (auto simp: advancePast_def enqueueSlotSample_def Let_def)
    from less.IH [OF this] less.prems cfg False show ?thesis by (subst slot_loop.simps) (simp add: Let_def)
  qed
qed

section \<open>Properties\<close>

text \<open>C31. Bounded memory: in every reachable state of a running worker, whatever the receiver does and in
  whatever order commands arrive, the backlog of state samples holds at most 10000 samples, at most
  four slot samples are pending, the queue holds at most 100000 commands and the batch size is positive.\<close>

theorem worker_memory_bounded:
  assumes "worker_reach ops w"
  shows "length (wk_pendingStates w) \<le> 10000 \<and> length (wk_pendingSlotSamples w) \<le> 4 \<and> length (wk_queue w) \<le> 100000 \<and>
     0 < wc_BatchSize (wk_cfg w)"
  using worker_reach_bounded [OF assms]
  by (simp add: worker_bounded_def maxPendingStates_def queue_capacity_def)

definition sample_worker_cfg :: worker_config where
  "sample_worker_cfg = \<lparr>wc_TargetID = ''r'', wc_BatchSize = 0, wc_FlushInterval = Second, wc_StateInterval = Second,
     wc_RecoveryWindow = 15 * Minute, wc_Services = [''a.service''], wc_StartupEvents = [numbered_event 3],
     wc_StartupFill = [], wc_StartupSlot = zero_time\<rparr>"

definition sample_wenv :: wenv where
  "sample_wenv = \<lparr>we_loc = sample_zone, we_now = sample_ready, we_ctxErr = False, we_current = None\<rparr>"

theorem worker_memory_bounded_witness:
  "length (wk_pendingStates (Run_start sample_wenv (rw_ops sample_transport)
     (Worker_New sample_worker_cfg (Some sample_sender)))) \<le> 10000"
  using worker_memory_bounded [OF reach_start [where env = sample_wenv and ops = "rw_ops sample_transport"
      and cfg = sample_worker_cfg and s = "Some sample_sender"]]
  by blast

text \<open>C6. No silent loss: take any run of a worker over the remote-write sender. An event that the
  write-ahead log handed to it at startup, or that was in its queue, its batch or its pending recovery
  at any moment of the run, is at every later moment still held, or was accepted by the receiver in a
  request that carries it, or has a sequence the checkpoint covers, as long as no drop was reported.\<close>

theorem worker_loses_no_event_silently:
  assumes "0 < rw_BatchSize (sd_cfg s)"
    and "w0 = Run_start env (rw_ops tr) (Worker_New cfg (Some s))"
    and "(worker_step (rw_ops tr))\<^sup>*\<^sup>* w0 w1" and "(worker_step (rw_ops tr))\<^sup>*\<^sup>* w1 w2"
    and "ev \<in> set (wc_StartupEvents cfg) \<union> held w1" and "wk_dropped w2 = 0"
  shows "\<exists>s2. wk_sender w2 = Some s2 \<and> (ev \<in> held w2 \<or> delivered s2 ev \<or> ev_Sequence ev \<le> LastSent s2)"
proof -
  have ok: "rw_ok (Some s)" using assms(1) by (simp add: rw_ok_def)
  have k1: "rw.keeps tr w0 w1" and k2: "rw.keeps tr w1 w2" using assms(3,4) by (simp_all add: rw.worker_steps_keep)
  have start: "set (wc_StartupEvents cfg) \<subseteq> rw.accounted tr w0" "rw_ok (wk_sender w0)" "wk_dropped w0 = 0"
    using rw.Run_start_accounts [OF ok] by (simp_all add: assms(2))
  have d: "wk_dropped w1 = 0" "rw_ok (wk_sender w1)" "rw_ok (wk_sender w2)"
    using k1 k2 start(2) assms(6) by (simp_all add: rw.keeps_def)
  have "ev \<in> rw.accounted tr w1"
    using k1 start d assms(5) by (auto simp: rw.keeps_def rw.accounted_def)
  then have "ev \<in> rw.accounted tr w2" using k2 d assms(6) by (auto simp: rw.keeps_def)
  then show ?thesis
    using d(3) unfolding rw.accounted_def rw_handed_def rw_ok_def by (auto simp: rw_ops_def split: option.splits)
qed

theorem worker_loses_no_event_silently_witness:
  "\<exists>s2. wk_sender (snd (EnqueueEvent (numbered_event 5) (Run_start sample_wenv (rw_ops sample_transport)
        (Worker_New sample_worker_cfg (Some sample_sender))))) = Some s2 \<and>
     (numbered_event 3 \<in> held (snd (EnqueueEvent (numbered_event 5) (Run_start sample_wenv (rw_ops sample_transport)
        (Worker_New sample_worker_cfg (Some sample_sender))))) \<or> delivered s2 (numbered_event 3) \<or> 3 \<le> LastSent s2)"
proof -
  let ?w = "Run_start sample_wenv (rw_ops sample_transport) (Worker_New sample_worker_cfg (Some sample_sender))"
  let ?w1 = "snd (EnqueueEvent (numbered_event 5) ?w)"
  have n: "0 < rw_BatchSize (sd_cfg sample_sender)" by (simp add: sample_sender_def sample_cfg_def)
  have step: "(worker_step (rw_ops sample_transport))\<^sup>*\<^sup>* ?w ?w1"
    using worker_step.step_event [of "numbered_event 5" ?w] by (metis prod.collapse r_into_rtranclp)
  have ev: "numbered_event 3 \<in> set (wc_StartupEvents sample_worker_cfg) \<union> held ?w" by (simp add: sample_worker_cfg_def)
  have "wk_dropped ?w = 0" using rw.Run_start_accounts(3) [of "Some sample_sender"] n by (simp add: rw_ok_def)
  then have "wk_dropped ?w1 = 0" by (simp add: EnqueueEvent_def enqueue_def)
  from worker_loses_no_event_silently [OF n refl rtranclp.rtrancl_refl step ev this] show ?thesis
    by (simp add: numbered_event_def)
qed

text \<open>C11. The catch-up loop ends: for a recovery window of a whole number of minutes dividing the hour, in a
  zone where no local hour is cut by a transition, the loop that runs when the slot timer fires returns
  whatever the clock says and however late it fires, the next edge it leaves is strictly in the future,
  and events, queue, sender and samples are untouched.\<close>

theorem slot_timer_always_catches_up:
  assumes "whole_minutes (wc_RecoveryWindow (wk_cfg w)) k" and "\<And>t. steady (we_loc env) t"
  shows "\<exists>w'. slot_fired env w = Some w' \<and> we_now env < earlierTime (wk_nextOpening w') (wk_nextClosing w') \<and>
     held w' = held w \<and> wk_sender w' = wk_sender w \<and> wk_pendingStates w' = wk_pendingStates w"
proof -
  let ?n = "earlierTime (wk_nextOpening w) (wk_nextClosing w)"
  let ?w = "advancePast (we_loc env) ?n (enqueueSlotSample ?n w)"
  have "wk_cfg ?w = wk_cfg w" using slot_edge_frame [of _ ?n w] by (simp add: slot_frame_def)
  with slot_loop_returns [of ?w k "we_loc env" "we_now env"] assms
  obtain w' where w': "slot_fired env w = Some w'" "we_now env < earlierTime (wk_nextOpening w') (wk_nextClosing w')"
    by (auto simp: slot_fired_def Let_def)
  from slot_fired_frame [OF this(1)] w' show ?thesis by (simp add: slot_frame_def held_def)
qed

theorem slot_timer_always_catches_up_witness:
  "\<exists>w'. slot_fired sample_wenv (Worker_New sample_worker_cfg (Some sample_sender)) = Some w' \<and>
     sample_ready < earlierTime (wk_nextOpening w') (wk_nextClosing w')"
  using slot_timer_always_catches_up [of "Worker_New sample_worker_cfg (Some sample_sender)" 15 sample_wenv] sample_slot
  by (simp add: Worker_New_def sample_worker_cfg_def sample_wenv_def) blast

text \<open>
  A zone in which at second \<open>u\<close> the local clock is put back by an hour at a full local hour, from an offset
  below one hour east, so that the reading of the repeated hour, taken as UTC, lies before the change: the
  end of daylight saving time west of Greenwich. \<open>Date\<close> resolves a reading of this hour to the first of the two.
\<close>

definition falls_back :: "location \<Rightarrow> int \<Rightarrow> int \<Rightarrow> bool" where
  "falls_back loc u off \<longleftrightarrow> (u + off) mod 3600 = 0 \<and>
     (\<forall>s. u - 3600 \<le> s \<and> s < u \<longrightarrow> loc_offset loc s = off) \<and>
     (\<forall>s. u \<le> s \<and> s < u + 3600 \<longrightarrow> loc_offset loc s = off - 3600) \<and>
     (\<exists>a. loc_lookup loc (u + off - 3600) = (off, a, Some u) \<and> (case a of None \<Rightarrow> True | Some x \<Rightarrow> x \<le> u - 3600))"

lemma falls_back_single:
  "off < 3600 \<Longrightarrow> (u + off) mod 3600 = 0 \<Longrightarrow> falls_back \<lparr>loc_first = off, loc_changes = [(u, off - 3600)]\<rparr> u off"
  by (simp add: falls_back_def loc_offset_def loc_lookup_def)

lemma fallback_hour:
  assumes "falls_back loc u off" and "u - 3600 \<le> unix_sec t" and "unix_sec t < u + 3600"
  shows "hour_start loc t = (u - 3600) * Second \<and> local_minute loc t = (unix_sec t - u) mod 3600 div 60"
proof -
  let ?x = "unix_sec t"
  have lo: "local_sec loc t = (if ?x < u then ?x + off else ?x + off - 3600)"
    using assms by (auto simp: falls_back_def local_sec_def)
  obtain q where q: "u + off = 3600 * q" using assms(1) by (auto simp: falls_back_def mod_eq_0_iff_dvd)
  have eq: "local_sec loc t = (?x - u) mod 3600 + 3600 * (q - 1)"
  proof (cases "?x < u")
    case True
    then have "(?x - u) mod 3600 = ?x - u + 3600" using assms(2) by (intro mod_pos_pos_trivial [THEN trans [OF mod_add_self2 [symmetric]]]) simp_all
    then show ?thesis using True q by (simp add: lo algebra_simps)
  next
    case False
    then have "(?x - u) mod 3600 = ?x - u" using assms(3) by (intro mod_pos_pos_trivial) simp_all
    then show ?thesis using False q by (simp add: lo algebra_simps)
  qed
  have m: "local_sec loc t mod 3600 = (?x - u) mod 3600" by (simp only: eq mod_mult_self2 mod_mod_trivial)
  have "local_sec loc t - local_sec loc t mod 3600 = u + off - 3600" using eq m q by simp
  moreover obtain a where "loc_lookup loc (u + off - 3600) = (off, a, Some u)" "case a of None \<Rightarrow> True | Some x \<Rightarrow> x \<le> u - 3600"
    using assms(1) by (auto simp: falls_back_def)
  ultimately have "hour_start loc t = (u - 3600) * Second"
    by (auto simp: hour_start_def date_of_local_def Let_def split: option.splits)
  then show ?thesis using m by (simp add: local_minute_def)
qed

definition fallback_opening :: "int \<Rightarrow> duration \<Rightarrow> int \<Rightarrow> go_time" where
  "fallback_opening u sz j = (u - 3600) * Second + j * sz + 5 * Millisecond"

text \<open>The openings of the hour before the change and the first after it; from that one the grid leads back.\<close>

lemma fallback_next:
  assumes "falls_back loc u off" and "whole_minutes sz k" and "0 \<le> j" and "j * k \<le> 60"
  shows "SlotOpeningTime (SlotStart loc (fallback_opening u sz j) sz + sz) = fallback_opening u sz (if j * k = 60 then 1 else j + 1)"
proof -
  let ?t = "fallback_opening u sz j"
  have k: "0 < k" and sz: "sz = k * Minute" using assms(2) by (simp_all add: whole_minutes_def)
  have "?t = (u - 3600 + 60 * (j * k)) * Second + 5 * Millisecond"
    by (simp add: fallback_opening_def sz Minute_Second algebra_simps)
  then have x: "unix_sec ?t = u - 3600 + 60 * (j * k)"
    by (simp add: unix_sec_def duration_defs)
  have jk: "0 \<le> j * k" using assms(3) k by simp
  then have h: "hour_start loc ?t = (u - 3600) * Second" "local_minute loc ?t = (unix_sec ?t - u) mod 3600 div 60"
    using fallback_hour [OF assms(1), of ?t] x assms(4) by simp_all
  have "(unix_sec ?t - u) mod 3600 = 60 * (j * k) mod 3600"
    using mod_add_self2 [of "60 * (j * k) - 3600" 3600] by (simp add: x)
  then have m: "local_minute loc ?t = (if j * k = 60 then 0 else j * k)"
    using h(2) jk assms(4) by (auto simp: mod_pos_pos_trivial)
  have "go_div (j * k * Minute) sz = j" using assms(3) k by (simp add: sz go_div_pos duration_defs)
  moreover have "go_div 0 sz = 0" using k by (simp add: sz go_div_pos duration_defs)
  ultimately have "SlotStart loc ?t sz = (u - 3600) * Second + (if j * k = 60 then 0 else j) * sz"
    by (simp add: SlotStart_def h(1) m)
  then show ?thesis by (simp add: SlotOpeningTime_def SlotEndFraction_def fallback_opening_def algebra_simps)
qed

definition fallback_openings :: "int \<Rightarrow> duration \<Rightarrow> int \<Rightarrow> go_time set" where
  "fallback_openings u sz k = fallback_opening u sz ` {j. 0 \<le> j \<and> j * k \<le> 60}"

lemma fallback_opening_le:
  assumes "whole_minutes sz k" and "t \<in> fallback_openings u sz k"
  shows "t \<le> u * Second + 5 * Millisecond \<and> \<not> IsZero t"
proof
  obtain j where j: "t = fallback_opening u sz j" "j * k \<le> 60" using assms(2) by (auto simp: fallback_openings_def)
  have sz: "sz = k * Minute" using assms(1) by (simp add: whole_minutes_def)
  have t: "t = (u - 3600 + 60 * (j * k)) * Second + 5 * Millisecond"
    by (simp add: j(1) fallback_opening_def sz Minute_Second algebra_simps)
  have "(u - 3600 + 60 * (j * k)) * Second \<le> u * Second" using j(2) by (intro mult_right_mono) (simp_all add: duration_defs)
  then show "t \<le> u * Second + 5 * Millisecond" using t by simp
  have "t mod Second = 5 * Millisecond mod Second" unfolding t by (rule mod_mult_self3)
  then show "\<not> IsZero t" by (auto simp: IsZero_def zero_time_def duration_defs)
qed

lemma fallback_step:
  assumes "falls_back loc u off" and "whole_minutes (wc_RecoveryWindow (wk_cfg w)) k"
    and "wk_nextOpening w \<in> fallback_openings u (wc_RecoveryWindow (wk_cfg w)) k"
  shows "wk_nextOpening (advancePast loc t (enqueueSlotSample t w)) \<in> fallback_openings u (wc_RecoveryWindow (wk_cfg w)) k \<and>
     wk_cfg (advancePast loc t (enqueueSlotSample t w)) = wk_cfg w"
proof -
  let ?sz = "wc_RecoveryWindow (wk_cfg w)"
  obtain j where j: "wk_nextOpening w = fallback_opening u ?sz j" "0 \<le> j" "j * k \<le> 60"
    using assms(3) by (auto simp: fallback_openings_def)
  have k: "0 < k" "k dvd 60" using assms(2) by (simp_all add: whole_minutes_def)
  have "(if j * k = 60 then 1 else j + 1) * k \<le> 60 \<and> 0 \<le> (if j * k = 60 then 1 else j + 1)"
  proof (cases "j * k = 60")
    case True
    then show ?thesis using zdvd_imp_le [OF k(2)] by simp
  next
    case False
    obtain c where c: "60 = k * c" using k(2) by blast
    have "j < c" using False j(3) c k(1) by (metis less_le mult.commute mult_le_cancel_left_pos)
    then have "(j + 1) * k \<le> c * k" using k(1) by (intro mult_right_mono) simp_all
    then have "(j + 1) * k \<le> 60" unfolding c by (simp only: mult.commute)
    then show ?thesis using False j(2) by (simp only: if_False) simp
  qed
  then have "SlotOpeningTime (SlotStart loc (wk_nextOpening w) ?sz + ?sz) \<in> fallback_openings u ?sz k"
    using fallback_next [OF assms(1,2) j(2,3)] by (auto simp: j(1) fallback_openings_def)
  then show ?thesis using assms(3) by (simp add: advancePast_def enqueueSlotSample_def Let_def)
qed

lemma fallback_cycle:
  assumes "slot_loop loc now w = Some w'"
  shows "\<not> (falls_back loc u off \<and> whole_minutes (wc_RecoveryWindow (wk_cfg w)) k \<and> u * Second + 5 * Millisecond \<le> now \<and>
     wk_nextOpening w \<in> fallback_openings u (wc_RecoveryWindow (wk_cfg w)) k)"
  using assms
proof (induction rule: slot_loop.raw_induct [rotated 1, consumes 1])
  case (1 slot_loop' loc now w w')
  show ?case
  proof
    assume a: "falls_back loc u off \<and> whole_minutes (wc_RecoveryWindow (wk_cfg w)) k \<and> u * Second + 5 * Millisecond \<le> now \<and>
       wk_nextOpening w \<in> fallback_openings u (wc_RecoveryWindow (wk_cfg w)) k"
    let ?n = "earlierTime (wk_nextOpening w) (wk_nextClosing w)"
    let ?w = "advancePast loc ?n (enqueueSlotSample ?n w)"
    have "wk_nextOpening w \<le> now \<and> \<not> IsZero (wk_nextOpening w)"
      using fallback_opening_le [of "wc_RecoveryWindow (wk_cfg w)" k "wk_nextOpening w" u] a by auto
    then have "\<not> now < ?n" by (auto simp: earlierTime_def)
    then have "slot_loop' loc now ?w = Some w'" using 1(2) by (simp add: Let_def)
    then show False using 1(1) [of loc now ?w w'] fallback_step [of loc u off w k ?n] a by simp
  qed
qed

lemma next_opening_before_fallback:
  assumes "falls_back loc u off" and "whole_minutes sz k" and "(u - 3600) * Second \<le> t" and "t < u * Second"
  shows "NextSlotOpening loc t sz \<in> fallback_openings u sz k"
proof -
  have k: "0 < k" "k dvd 60" and sz: "sz = k * Minute" using assms(2) by (simp_all add: whole_minutes_def)
  have x: "u - 3600 \<le> unix_sec t" "unix_sec t < u"
    using assms(3,4) by (auto simp: unix_sec_def duration_defs)
  define m where "m = local_minute loc t"
  have h: "hour_start loc t = (u - 3600) * Second" using fallback_hour [OF assms(1) x(1)] x(2) by simp
  have m: "0 \<le> m" "m < 60" by (simp_all add: m_def local_minute_def)
  have "go_div (m * Minute) sz = m div k" using m(1) k(1) by (simp add: sz go_div_pos duration_defs)
  then have start: "SlotStart loc t sz = (u - 3600) * Second + (m div k) * sz" by (simp add: SlotStart_def h m_def)
  obtain c where c: "60 = k * c" using k(2) by blast
  have "k * (m div k) \<le> m" using minus_mod_eq_mult_div [of m k] pos_mod_sign [OF k(1), of m] by linarith
  then have "m div k < c" using m(2) c k(1) by (metis le_less_trans mult_less_cancel_left_pos)
  then have "(m div k + 1) * k \<le> c * k" using k(1) by (intro mult_right_mono) simp_all
  then have in1: "(m div k + 1) * k \<le> 60" using c by (simp add: mult.commute)
  then have in0: "m div k * k \<le> 60" using k(1) by (simp add: distrib_right)
  have nn: "0 \<le> m div k" using m(1) k(1) by (simp add: pos_imp_zdiv_nonneg_iff)
  have "NextSlotOpening loc t sz \<in> {fallback_opening u sz (m div k), fallback_opening u sz (m div k + 1)}"
    using whole_minutes_lead [OF assms(2)]
    by (auto simp: NextSlotOpening_def SlotOpeningTime_def SlotEndFraction_def fallback_opening_def start Let_def algebra_simps)
  then show ?thesis using in0 in1 nn by (auto simp: fallback_openings_def)
qed

text \<open>C30. The catch-up loop does not end when daylight saving time ends west of Greenwich. In any zone that puts
  the local clock back by an hour, at a full hour and from an offset below one hour east, and with any
  window of a whole number of minutes dividing the hour: when a worker whose next opening was computed in
  the hour before the change handles its slot timer five milliseconds after the change or at any later
  time, the openings the loop computes lead back into the hour before and round again, so it never returns
  and the worker delivers nothing more.\<close>

theorem slot_timer_hangs_at_fallback:
  assumes "falls_back (we_loc env) u off" and "whole_minutes (wc_RecoveryWindow (wk_cfg w)) k"
    and "(u - 3600) * Second \<le> t" and "t < u * Second"
    and "wk_nextOpening w = NextSlotOpening (we_loc env) t (wc_RecoveryWindow (wk_cfg w))"
    and "u * Second + 5 * Millisecond \<le> we_now env"
  shows "slot_fired env w = None"
proof -
  have o: "wk_nextOpening w \<in> fallback_openings u (wc_RecoveryWindow (wk_cfg w)) k"
    using next_opening_before_fallback [OF assms(1-4)] assms(5) by simp
  let ?n = "earlierTime (wk_nextOpening w) (wk_nextClosing w)"
  let ?w = "advancePast (we_loc env) ?n (enqueueSlotSample ?n w)"
  have "slot_loop (we_loc env) (we_now env) ?w \<noteq> Some w'" for w'
    using fallback_cycle [of "we_loc env" "we_now env" ?w w' u off k] fallback_step [OF assms(1,2) o, of ?n] assms(1,2,6) by auto
  then show ?thesis by (cases "slot_fired env w") (auto simp: slot_fired_def Let_def)
qed

text \<open>Four hours behind UTC until 06:00 UTC of day 20000 of the epoch, five hours behind from then on.\<close>

definition fallback_zone :: location where
  "fallback_zone = \<lparr>loc_first = - 14400, loc_changes = [(1728021600, - 18000)]\<rparr>"

theorem slot_timer_hangs_at_fallback_witness:
  "slot_fired (sample_wenv\<lparr>we_loc := fallback_zone, we_now := 1728021600 * Second + 5 * Millisecond\<rparr>)
     ((Worker_New sample_worker_cfg (Some sample_sender))
        \<lparr>wk_nextOpening := NextSlotOpening fallback_zone (1728021600 * Second - Minute) (15 * Minute)\<rparr>) = None"
proof (rule slot_timer_hangs_at_fallback [where u = 1728021600 and off = "- 14400" and k = 15 and t = "1728021600 * Second - Minute"])
  show "falls_back (we_loc (sample_wenv\<lparr>we_loc := fallback_zone, we_now := 1728021600 * Second + 5 * Millisecond\<rparr>)) 1728021600 (- 14400)"
    using falls_back_single [of "- 14400" 1728021600] by (simp add: fallback_zone_def)
  show "whole_minutes (wc_RecoveryWindow (wk_cfg ((Worker_New sample_worker_cfg (Some sample_sender))
      \<lparr>wk_nextOpening := NextSlotOpening fallback_zone (1728021600 * Second - Minute) (15 * Minute)\<rparr>))) 15"
    using sample_slot(1) by (simp add: Worker_New_def sample_worker_cfg_def)
qed (simp_all add: Worker_New_def sample_worker_cfg_def sample_slot duration_defs)

text \<open>
  Two ways in which an event leaves the worker without reaching the receiver. Both start from a worker
  of batch size one over the sample sender.
\<close>

definition timed_event :: "uint64 \<Rightarrow> int \<Rightarrow> event" where
  "timed_event n ms = (numbered_event n)\<lparr>ev_EventTimeUnixMS := ms\<rparr>"

definition failing :: "http_result list \<Rightarrow> sender option" where
  "failing rs = Some (sample_sender\<lparr>sd_results := rs\<rparr>)"

definition small_worker :: "http_result list \<Rightarrow> sender option worker" where
  "small_worker rs = Worker_New (sample_worker_cfg\<lparr>wc_BatchSize := 1, wc_StartupEvents := []\<rparr>) (failing rs)"

lemmas sender_run_simps = rw_ops_def Send_def SendRecoveredStates_def sendEventsLocked_def sendSeries_def sendBatch_def
  send_attempt.simps send_batches.simps http_Do_def wait_retry_def saveCheckpoint_def LastSent_def maxAttempts_def
  sample_sender_def sample_cfg_def sample_transport_def numbered_event_def Let_def

lemma build_request_carries_iff:
  "carries cfg (build_request (event_series cfg evs)) e \<longleftrightarrow>
     (\<exists>e' \<in> set evs. ev_Service e' = ev_Service e \<and> event_sample e' = event_sample e)"
proof
  assume "carries cfg (build_request (event_series cfg evs)) e"
  then obtain x where "x \<in> set evs" "rw_labels cfg (ev_Service x) = rw_labels cfg (ev_Service e)"
      "event_sample e \<in> event_sample ` {y \<in> set evs. ev_Service y = ev_Service x}"
    unfolding carries_def build_request_set by (auto simp: series_for_def)
  then show "\<exists>e' \<in> set evs. ev_Service e' = ev_Service e \<and> event_sample e' = event_sample e"
    by (auto simp: rw_labels_def)
next
  assume "\<exists>e' \<in> set evs. ev_Service e' = ev_Service e \<and> event_sample e' = event_sample e"
  then obtain x where x: "x \<in> set evs" "ev_Service x = ev_Service e" "event_sample x = event_sample e" by blast
  then show "carries cfg (build_request (event_series cfg evs)) e"
    using build_request_carries [OF x(1), of cfg] by (simp add: carries_def)
qed

lemmas worker_run_simps = small_worker_def failing_def Worker_New_def sample_worker_cfg_def run_turn_def before_select_def
  sendRecovery_def send_job_events_def flush_def worker_Send_def worker_SendStates_def markDegraded_def drop_events_def
  trySlotSamples_def sample_wenv_def

text \<open>A recovered event can be skipped: the recovery job holds event 1; its send fails three times with
  503, the loop takes live event 2 from the queue and flushes it with success, and on the next turn the
  recovery reports success without a request, since the sequence of event 1 is now below the last one
  sent. The event is no longer held, no request that was accepted carries it, and no drop is reported.\<close>

theorem recovered_event_skipped_after_live_flush:
  "\<exists>w1 w2. run_turn sample_wenv (rw_ops sample_transport) CaseQueue
       ((small_worker [HttpStatus 503, HttpStatus 503, HttpStatus 503, HttpStatus 200])
          \<lparr>wk_pendingRecovery := Some \<lparr>rj_Fill = [], rj_Events = [timed_event 1 1000]\<rparr>,
           wk_queue := [CmdEvent (timed_event 2 2000)]\<rparr>) = Some (True, w1) \<and>
     run_turn sample_wenv (rw_ops sample_transport) CaseFlush w1 = Some (True, w2) \<and>
     held w2 = {} \<and> wk_dropped w2 = 0 \<and> \<not> rw_handed (wk_sender w2) (timed_event 1 1000)"
  by (simp add: worker_run_simps sender_run_simps timed_event_def held_def rw_handed_def delivered_def acked_def
      build_request_carries_iff IsPermanent_def event_sample_def)

text \<open>A rejection drops more than was rejected: with two events in the batch and a sender that puts one
  event in a request, a 400 to the first request makes \<open>flush\<close> empty the batch and report two dropped
  events, although the second was never in a request and the receiver would have accepted it.\<close>

lemma rejected_request_drops_unsent_events:
  "\<exists>w s req. flush sample_wenv (rw_ops sample_transport)
       ((small_worker [HttpStatus 400, HttpStatus 200])\<lparr>wk_batch := [timed_event 1 1000, timed_event 2 2000]\<rparr>) = (True, w) \<and>
     wk_batch w = [] \<and> wk_dropped w = 2 \<and> wk_sender w = Some s \<and> sd_log s = [(req, HttpStatus 400)] \<and>
     \<not> carries (sd_cfg s) req (timed_event 2 2000)"
  by (simp add: worker_run_simps sender_run_simps timed_event_def held_def rw_handed_def delivered_def acked_def
      build_request_carries_iff IsPermanent_def event_sample_def)

end
