(* ===== verification/GoNet.thy ===== *)
theory GoNet
  imports GoStrings
begin

text \<open>
  The functions of Go's \<open>net\<close> package on host and port strings that the configuration and the probes use:
  \<open>SplitHostPort\<close> and \<open>JoinHostPort\<close>, with the order of the checks of the library, and the two string
  functions that only they and the configuration call.
\<close>

section \<open>Searching a byte\<close>

definition IndexByte :: "string \<Rightarrow> char \<Rightarrow> nat option" where
  "IndexByte s c = (if c \<in> set s then Some (length (takeWhile (\<lambda>x. x \<noteq> c) s)) else None)"

definition LastIndexByte :: "string \<Rightarrow> char \<Rightarrow> nat option" where
  "LastIndexByte s c =
     (if c \<in> set s then Some (length s - 1 - length (takeWhile (\<lambda>x. x \<noteq> c) (rev s))) else None)"

definition ContainsAny :: "string \<Rightarrow> string \<Rightarrow> bool" where
  "ContainsAny s chars \<longleftrightarrow> list_ex (\<lambda>c. c \<in> set chars) s"

text \<open>
  \<open>strings.EqualFold\<close> and \<open>bytes.EqualFold\<close> where one side is ASCII. Besides the ASCII letters, two runes
  fold to ASCII: the long s, U+017F, and the Kelvin sign, U+212A. Any other rune outside ASCII keeps its
  bytes, which no ASCII string has.
\<close>

fun fold_case :: "string \<Rightarrow> string" where
  "fold_case [] = []"
| "fold_case (c # s) =
     (if c = CHR 0xC5 \<and> take 1 s = [CHR 0xBF] then CHR ''s'' # fold_case (drop 1 s)
      else if c = CHR 0xE2 \<and> take 2 s = [CHR 0x84, CHR 0xAA] then CHR ''k'' # fold_case (drop 2 s)
      else ToLower_char c # fold_case s)"

definition EqualFold :: "string \<Rightarrow> string \<Rightarrow> bool" where
  "EqualFold s t \<longleftrightarrow> fold_case s = fold_case t"

lemma takeWhile_absent: "c \<notin> set a \<Longrightarrow> takeWhile (\<lambda>x. x \<noteq> c) a = a"
  by (induction a) auto

lemma IndexByte_first: "c \<notin> set a \<Longrightarrow> IndexByte (a @ c # b) c = Some (length a)"
  by (simp add: IndexByte_def takeWhile_tail takeWhile_absent)

lemma IndexByte_split:
  assumes "IndexByte s c = Some i"
  obtains a b where "s = a @ c # b" and "c \<notin> set a" and "length a = i"
proof -
  have "c \<in> set s" using assms by (auto simp: IndexByte_def split: if_splits)
  then obtain a b where s: "s = a @ c # b" "c \<notin> set a" by (meson split_list_first)
  moreover from s have "length a = i" using assms IndexByte_first [of c a b] by simp
  ultimately show ?thesis by (rule that)
qed

lemma LastIndexByte_last: "c \<notin> set b \<Longrightarrow> LastIndexByte (a @ c # b) c = Some (length a)"
  by (simp add: LastIndexByte_def takeWhile_tail takeWhile_absent)

lemma LastIndexByte_split:
  assumes "LastIndexByte s c = Some i"
  obtains a b where "s = a @ c # b" and "c \<notin> set b" and "length a = i"
proof -
  have "c \<in> set s" using assms by (auto simp: LastIndexByte_def split: if_splits)
  then obtain a b where s: "s = a @ c # b" "c \<notin> set b" by (meson split_list_last)
  moreover from s have "length a = i" using assms LastIndexByte_last [of c b a] by simp
  ultimately show ?thesis by (rule that)
qed

section \<open>Host and port\<close>

datatype addr_error = MissingPort | TooManyColons | MissingBracket | UnexpectedOpen | UnexpectedClose

definition colon :: char where "colon = CHR '':''"
definition lbracket :: char where "lbracket = CHR ''[''"
definition rbracket :: char where "rbracket = CHR '']''"

lemma byte_distinct [simp]:
  "colon \<noteq> lbracket" "colon \<noteq> rbracket" "lbracket \<noteq> rbracket" "lbracket \<noteq> colon" "rbracket \<noteq> colon" "rbracket \<noteq> lbracket"
  by (simp_all add: colon_def lbracket_def rbracket_def)

text \<open>The host, and the positions before which no bracket can occur.\<close>

definition split_host :: "string \<Rightarrow> nat \<Rightarrow> addr_error + (string \<times> nat \<times> nat)" where
  "split_host hostport i =
     (if hostport ! 0 = lbracket
      then case IndexByte hostport rbracket of
             None \<Rightarrow> Inl MissingBracket
           | Some e \<Rightarrow>
             if e + 1 = length hostport then Inl MissingPort
             else if e + 1 = i then Inr (take (e - 1) (drop 1 hostport), 1, e + 1)
             else if hostport ! (e + 1) = colon then Inl TooManyColons
             else Inl MissingPort
      else if colon \<in> set (take i hostport) then Inl TooManyColons
      else Inr (take i hostport, 0, 0))"

definition SplitHostPort :: "string \<Rightarrow> addr_error + (string \<times> string)" where
  "SplitHostPort hostport =
     (case LastIndexByte hostport colon of
        None \<Rightarrow> Inl MissingPort
      | Some i \<Rightarrow>
        (case split_host hostport i of
           Inl err \<Rightarrow> Inl err
         | Inr (host, j, k) \<Rightarrow>
           if lbracket \<in> set (drop j hostport) then Inl UnexpectedOpen
           else if rbracket \<in> set (drop k hostport) then Inl UnexpectedClose
           else Inr (host, drop (i + 1) hostport)))"

definition JoinHostPort :: "string \<Rightarrow> string \<Rightarrow> string" where
  "JoinHostPort host port =
     (if colon \<in> set host then [lbracket] @ host @ [rbracket, colon] @ port else host @ [colon] @ port)"

definition plain_host :: "string \<Rightarrow> bool" where
  "plain_host host \<longleftrightarrow> lbracket \<notin> set host \<and> rbracket \<notin> set host"

definition plain_port :: "string \<Rightarrow> bool" where
  "plain_port port \<longleftrightarrow> colon \<notin> set port \<and> lbracket \<notin> set port \<and> rbracket \<notin> set port"

lemma SplitHostPort_join:
  assumes "plain_host host" and "plain_port port"
  shows "SplitHostPort (JoinHostPort host port) = Inr (host, port)"
proof (cases "colon \<in> set host")
  case True
  let ?s = "(lbracket # host @ [rbracket]) @ colon # port"
  have s: "JoinHostPort host port = ?s" using True by (simp add: JoinHostPort_def)
  have i: "LastIndexByte ?s colon = Some (length host + 2)"
    using assms(2) LastIndexByte_last [of colon port "lbracket # host @ [rbracket]"] by (simp add: plain_port_def)
  have e: "IndexByte ?s rbracket = Some (length host + 1)"
    using assms(1) IndexByte_first [of rbracket "lbracket # host" "colon # port"] by (simp add: plain_host_def)
  show ?thesis
    using assms unfolding s SplitHostPort_def i option.case split_host_def e
    by (simp add: plain_host_def plain_port_def)
next
  case False
  let ?s = "host @ colon # port"
  have s: "JoinHostPort host port = ?s" using False by (simp add: JoinHostPort_def)
  have i: "LastIndexByte ?s colon = Some (length host)"
    using assms(2) LastIndexByte_last [of colon port host] by (simp add: plain_port_def)
  have "?s ! 0 \<noteq> lbracket" using assms(1) by (cases host) (auto simp: plain_host_def)
  then show ?thesis
    using assms False unfolding s SplitHostPort_def i option.case split_host_def
    by (simp add: plain_host_def plain_port_def)
qed

text \<open>The bracketed and the plain form a successful split comes from.\<close>

lemma SplitHostPort_cases:
  assumes "SplitHostPort hostport = Inr (host, port)"
  obtains (bracket) "hostport = lbracket # host @ rbracket # colon # port" and "plain_host host" and "plain_port port"
  | (plain) "hostport = host @ colon # port" and "plain_host host" and "plain_port port"
proof -
  obtain i j k where i: "LastIndexByte hostport colon = Some i" and sh: "split_host hostport i = Inr (host, j, k)"
    and b: "lbracket \<notin> set (drop j hostport)" "rbracket \<notin> set (drop k hostport)" and port: "port = drop (i + 1) hostport"
    using assms unfolding SplitHostPort_def by (fastforce split: option.splits sum.splits if_splits)
  obtain p p' where p: "hostport = p @ colon # p'" "colon \<notin> set p'" "length p = i"
    by (rule LastIndexByte_split [OF i])
  then have last: "hostport = p @ colon # port" "colon \<notin> set port" using port by simp_all
  show ?thesis
  proof (cases "hostport ! 0 = lbracket")
    case True
    then obtain e where e: "IndexByte hostport rbracket = Some e" "e + 1 = i" "host = take (e - 1) (drop 1 hostport)"
        "j = 1" "k = e + 1"
      using sh unfolding split_host_def by (fastforce split: option.splits if_splits)
    obtain q r where q: "hostport = (q @ [rbracket]) @ r" "rbracket \<notin> set q" "length q = e"
      by (rule IndexByte_split [OF e(1)]) simp
    have "(q @ [rbracket]) @ r = p @ colon # port" unfolding q(1) [symmetric] by (rule last(1))
    moreover have "length (q @ [rbracket]) = length p" using q(3) e(2) p(3) by simp
    ultimately have r: "r = colon # port" using append_eq_append_conv [of "q @ [rbracket]" p r "colon # port"] by blast
    obtain h where h: "q = lbracket # h" using True q(1) by (cases q) auto
    then have "host = h" using e(3) q by simp
    then have eq: "hostport = lbracket # host @ rbracket # colon # port" using q(1) r h by simp
    show ?thesis
      using b e(4,5) last(2) q(2,3) h \<open>host = h\<close>
      by (intro bracket [OF eq]) (auto simp: eq plain_host_def plain_port_def)
  next
    case False
    then have e: "host = take i hostport" "j = 0" "k = 0" using sh by (auto simp: split_host_def split: if_splits)
    have eq: "hostport = host @ colon # port" using last(1) p(3) e(1) by simp
    show ?thesis using b e(2,3) last(2) by (intro plain [OF eq]) (auto simp: eq plain_host_def plain_port_def)
  qed
qed

end
