(* ===== verification/Sha256.thy ===== *)
theory Sha256
  imports GoStrings
begin

text \<open>
  \<open>crypto/sha256\<close>, which names the remote-write targets: the digest of a byte string as FIPS 180-4 defines
  it, on 32-bit words, and the lower-case hexadecimal form \<open>%x\<close> prints.
\<close>

unbundle bit_operations_syntax

type_synonym uint32 = "32 word"

definition sha_rotr :: "nat \<Rightarrow> uint32 \<Rightarrow> uint32" where
  "sha_rotr n x = (drop_bit n x) OR (push_bit (32 - n) x)"

definition sha_K :: "uint32 list" where
  "sha_K =
     [0x428A2F98, 0x71374491, 0xB5C0FBCF, 0xE9B5DBA5, 0x3956C25B, 0x59F111F1, 0x923F82A4, 0xAB1C5ED5,
      0xD807AA98, 0x12835B01, 0x243185BE, 0x550C7DC3, 0x72BE5D74, 0x80DEB1FE, 0x9BDC06A7, 0xC19BF174,
      0xE49B69C1, 0xEFBE4786, 0x0FC19DC6, 0x240CA1CC, 0x2DE92C6F, 0x4A7484AA, 0x5CB0A9DC, 0x76F988DA,
      0x983E5152, 0xA831C66D, 0xB00327C8, 0xBF597FC7, 0xC6E00BF3, 0xD5A79147, 0x06CA6351, 0x14292967,
      0x27B70A85, 0x2E1B2138, 0x4D2C6DFC, 0x53380D13, 0x650A7354, 0x766A0ABB, 0x81C2C92E, 0x92722C85,
      0xA2BFE8A1, 0xA81A664B, 0xC24B8B70, 0xC76C51A3, 0xD192E819, 0xD6990624, 0xF40E3585, 0x106AA070,
      0x19A4C116, 0x1E376C08, 0x2748774C, 0x34B0BCB5, 0x391C0CB3, 0x4ED8AA4A, 0x5B9CCA4F, 0x682E6FF3,
      0x748F82EE, 0x78A5636F, 0x84C87814, 0x8CC70208, 0x90BEFFFA, 0xA4506CEB, 0xBEF9A3F7, 0xC67178F2]"

definition sha_H0 :: "uint32 list" where
  "sha_H0 = [0x6A09E667, 0xBB67AE85, 0x3C6EF372, 0xA54FF53A, 0x510E527F, 0x9B05688C, 0x1F83D9AB, 0x5BE0CD19]"

definition byte_word :: "char \<Rightarrow> uint32" where
  "byte_word c = of_nat (of_char c)"

definition be_word :: "string \<Rightarrow> uint32" where
  "be_word bs = foldl (\<lambda>a c. push_bit 8 a OR byte_word c) 0 bs"

definition word_bytes :: "uint32 \<Rightarrow> nat list" where
  "word_bytes x = map (\<lambda>n. unat (drop_bit n x AND 0xFF)) [24, 16, 8, 0]"

text \<open>The message, a one bit, zeros, and the bit length in eight bytes.\<close>

definition sha_pad :: "string \<Rightarrow> string" where
  "sha_pad m =
     m @ [char_of (0x80 :: nat)] @ replicate ((119 - length m mod 64) mod 64) (char_of (0 :: nat)) @
     map (\<lambda>n. char_of (8 * length m div 256 ^ n)) [7, 6, 5, 4, 3, 2, 1, 0]"

fun be_words :: "nat \<Rightarrow> string \<Rightarrow> uint32 list" where
  "be_words 0 bs = []"
| "be_words (Suc n) bs = be_word (take 4 bs) # be_words n (drop 4 bs)"

text \<open>The message schedule, latest word first.\<close>

fun sha_extend :: "nat \<Rightarrow> uint32 list \<Rightarrow> uint32 list" where
  "sha_extend 0 ws = ws"
| "sha_extend (Suc n) ws =
     (let a = ws ! 14; b = ws ! 1;
          s0 = sha_rotr 7 a XOR sha_rotr 18 a XOR drop_bit 3 a;
          s1 = sha_rotr 17 b XOR sha_rotr 19 b XOR drop_bit 10 b
      in sha_extend n ((ws ! 15 + s0 + ws ! 6 + s1) # ws))"

type_synonym sha_regs = "uint32 \<times> uint32 \<times> uint32 \<times> uint32 \<times> uint32 \<times> uint32 \<times> uint32 \<times> uint32"

definition sha_round :: "uint32 \<times> uint32 \<Rightarrow> sha_regs \<Rightarrow> sha_regs" where
  "sha_round kw r =
     (case r of (a, b, c, d, e, f, g, h) \<Rightarrow>
      let s1 = sha_rotr 6 e XOR sha_rotr 11 e XOR sha_rotr 25 e;
          ch = (e AND f) XOR ((NOT e) AND g);
          t1 = h + s1 + ch + fst kw + snd kw;
          s0 = sha_rotr 2 a XOR sha_rotr 13 a XOR sha_rotr 22 a;
          maj = (a AND b) XOR (a AND c) XOR (b AND c)
      in (t1 + (s0 + maj), a, b, c, d + t1, e, f, g))"

fun regs_list :: "sha_regs \<Rightarrow> uint32 list" where
  "regs_list (a, b, c, d, e, f, g, h) = [a, b, c, d, e, f, g, h]"

definition list_regs :: "uint32 list \<Rightarrow> sha_regs" where
  "list_regs hs = (hs ! 0, hs ! 1, hs ! 2, hs ! 3, hs ! 4, hs ! 5, hs ! 6, hs ! 7)"

definition sha_block :: "string \<Rightarrow> uint32 list \<Rightarrow> uint32 list" where
  "sha_block bs hs =
     (let ws = rev (sha_extend 48 (rev (be_words 16 bs)))
      in map2 (+) hs (regs_list (fold sha_round (zip sha_K ws) (list_regs hs))))"

function sha_blocks :: "string \<Rightarrow> uint32 list \<Rightarrow> uint32 list" where
  "sha_blocks bs hs = (if length bs < 64 then hs else sha_blocks (drop 64 bs) (sha_block (take 64 bs) hs))"
  by pat_completeness auto
termination
  by (relation "measure (\<lambda>(bs, hs). length bs)") auto

declare sha_blocks.simps [simp del]

definition Sum256 :: "string \<Rightarrow> nat list" where
  "Sum256 m = concat (map word_bytes (sha_blocks (sha_pad m) sha_H0))"

definition hex_digit :: "nat \<Rightarrow> char" where
  "hex_digit d = (if d < 10 then char_of (48 + d) else char_of (87 + d))"

definition hex_string :: "nat list \<Rightarrow> string" where
  "hex_string bs = concat (map (\<lambda>b. [hex_digit (b div 16), hex_digit (b mod 16)]) bs)"

end
