(* ===== verification/GoFloat.thy ===== *)
theory GoFloat
  imports Complex_Main GoStrings
begin

text \<open>
  What the program uses of Go's \<open>float64\<close>: correctly rounded arithmetic, \<open>strconv.ParseFloat\<close>, the conversion to
  an integer, \<open>Duration.Seconds\<close>, \<open>time.ParseDuration\<close> and the verb \<open>%g\<close>.

  A finite number is \<open>Fin m e\<close> for \<open>m * 2^e\<close> with \<open>\<bar>m\<bar> < 2^53\<close>; the sign of a zero is not kept. An operation computes
  its exact result as a quotient of two natural numbers and rounds it to the nearest number, ties to even.
\<close>

section \<open>Rounding\<close>

datatype float64 = Fin int int | Infty bool | NaN

definition round_half_even :: "nat \<Rightarrow> nat \<Rightarrow> nat" where
  "round_half_even n d =
     (let q = n div d; r = n mod d in
      if 2 * r < d then q else if 2 * r > d then Suc q else if even q then q else Suc q)"

fun bit_len :: "nat \<Rightarrow> nat" where
  "bit_len n = (if n = 0 then 0 else Suc (bit_len (n div 2)))"

declare bit_len.simps [simp del]

text \<open>The quotient \<open>n / (d * 2^e)\<close> as numerator and denominator.\<close>

definition scale2 :: "nat \<Rightarrow> nat \<Rightarrow> int \<Rightarrow> nat \<times> nat" where
  "scale2 n d e = (if e \<ge> 0 then (n, d * 2 ^ nat e) else (n * 2 ^ nat (- e), d))"

text \<open>The exponent for which the mantissa of \<open>n / d\<close> has 53 bits, if the number is not subnormal.\<close>

definition f64_exp :: "nat \<Rightarrow> nat \<Rightarrow> int" where
  "f64_exp n d =
     (let e = int (bit_len n) - int (bit_len d) - 53 in
      case scale2 n d e of (a, b) \<Rightarrow> if a \<ge> b * 2 ^ 53 then e + 1 else e)"

definition sign_int :: "bool \<Rightarrow> nat \<Rightarrow> int" where
  "sign_int neg m = (if neg then - int m else int m)"

definition f64_round :: "bool \<Rightarrow> nat \<Rightarrow> nat \<Rightarrow> float64" where
  "f64_round neg n d =
     (if n = 0 then Fin 0 0
      else
        let e = max (f64_exp n d) (- 1074); m = (case scale2 n d e of (a, b) \<Rightarrow> round_half_even a b);
            (m1, e1) = (if m = 2 ^ 53 then (2 ^ 52, e + 1) else (m, e))
        in if e1 > 971 then Infty neg else Fin (sign_int neg m1) e1)"

section \<open>Arithmetic\<close>

definition f64_of_int :: "int \<Rightarrow> float64" where
  "f64_of_int i = f64_round (i < 0) (nat \<bar>i\<bar>) 1"

text \<open>The number \<open>m * 2^e\<close>, rounded.\<close>

definition f64_make :: "int \<Rightarrow> int \<Rightarrow> float64" where
  "f64_make m e = (case scale2 (nat \<bar>m\<bar>) 1 (- e) of (a, b) \<Rightarrow> f64_round (m < 0) a b)"

fun f64_mul :: "float64 \<Rightarrow> float64 \<Rightarrow> float64" where
  "f64_mul (Fin a e) (Fin b f) = f64_make (a * b) (e + f)"
| "f64_mul NaN y = NaN"
| "f64_mul x NaN = NaN"
| "f64_mul (Infty s) (Infty t) = Infty (s \<noteq> t)"
| "f64_mul (Infty s) (Fin b f) = (if b = 0 then NaN else Infty (s \<noteq> (b < 0)))"
| "f64_mul (Fin a e) (Infty t) = (if a = 0 then NaN else Infty (t \<noteq> (a < 0)))"

fun f64_add :: "float64 \<Rightarrow> float64 \<Rightarrow> float64" where
  "f64_add (Fin a e) (Fin b f) = (let g = min e f in f64_make (a * 2 ^ nat (e - g) + b * 2 ^ nat (f - g)) g)"
| "f64_add NaN y = NaN"
| "f64_add x NaN = NaN"
| "f64_add (Infty s) (Infty t) = (if s = t then Infty s else NaN)"
| "f64_add (Infty s) (Fin b f) = Infty s"
| "f64_add (Fin a e) (Infty t) = Infty t"

fun f64_div :: "float64 \<Rightarrow> float64 \<Rightarrow> float64" where
  "f64_div (Fin a e) (Fin b f) =
     (if b = 0 then (if a = 0 then NaN else Infty (a < 0))
      else case scale2 (nat \<bar>a\<bar>) (nat \<bar>b\<bar>) (f - e) of (n, d) \<Rightarrow> f64_round ((a < 0) \<noteq> (b < 0)) n d)"
| "f64_div NaN y = NaN"
| "f64_div x NaN = NaN"
| "f64_div (Infty s) (Infty t) = NaN"
| "f64_div (Infty s) (Fin b f) = Infty (s \<noteq> (b < 0))"
| "f64_div (Fin a e) (Infty t) = Fin 0 0"

text \<open>
  \<open>int64(x)\<close> drops the fraction. Outside the range of an \<open>int64\<close> the language leaves the result to the
  implementation: it is an argument.
\<close>

definition f64_trunc :: "int \<Rightarrow> int \<Rightarrow> int" where
  "f64_trunc m e = (case scale2 (nat \<bar>m\<bar>) 1 (- e) of (a, b) \<Rightarrow> sgn m * int (a div b))"

definition int64_of_f64 :: "(float64 \<Rightarrow> int) \<Rightarrow> float64 \<Rightarrow> int" where
  "int64_of_f64 outside x =
     (case x of Fin m e \<Rightarrow> (let t = f64_trunc m e in if - (2 ^ 63) \<le> t \<and> t < 2 ^ 63 then t else outside x) | _ \<Rightarrow> outside x)"

text \<open>\<open>Duration.Seconds\<close> adds the whole seconds and the rest, each converted on its own.\<close>

definition Seconds :: "duration \<Rightarrow> float64" where
  "Seconds d = f64_add (f64_of_int (go_div d Second)) (f64_div (f64_of_int (d - go_div d Second * Second)) (f64_of_int 1000000000))"

section \<open>Parsing a number\<close>

datatype float_error = ErrSyntax | ErrRange

definition underscore :: char where "underscore = CHR ''_''"

definition mant_digit :: "nat \<Rightarrow> char \<Rightarrow> nat option" where
  "mant_digit base c =
     (if is_digit c then Some (digit_val c)
      else if base = 16 \<and> CHR ''a'' \<le> ToLower_char c \<and> ToLower_char c \<le> CHR ''f''
      then Some (of_char (ToLower_char c) - 87) else None)"

text \<open>The digits of the mantissa: whether there were any, their value, the number after the point, and the rest.\<close>

fun mantissa :: "nat \<Rightarrow> bool \<Rightarrow> bool \<Rightarrow> nat \<Rightarrow> nat \<Rightarrow> string \<Rightarrow> bool \<times> nat \<times> nat \<times> string" where
  "mantissa base sawdot sawdigits m fd [] = (sawdigits, m, fd, [])"
| "mantissa base sawdot sawdigits m fd (c # s) =
     (if c = underscore then mantissa base sawdot sawdigits m fd s
      else if c = CHR ''.'' then (if sawdot then (sawdigits, m, fd, c # s) else mantissa base True sawdigits m fd s)
      else case mant_digit base c of
          Some v \<Rightarrow> mantissa base sawdot True (m * base + v) (if sawdot then Suc fd else fd) s
        | None \<Rightarrow> (sawdigits, m, fd, c # s))"

fun exp_digits :: "nat \<Rightarrow> string \<Rightarrow> nat \<times> string" where
  "exp_digits e [] = (e, [])"
| "exp_digits e (c # s) =
     (if c = underscore then exp_digits e s
      else if is_digit c then exp_digits (if e < 10000 then e * 10 + digit_val c else e) s
      else (e, c # s))"

definition take_sign :: "string \<Rightarrow> bool \<times> string" where
  "take_sign s = (case s of [] \<Rightarrow> (False, []) | c # r \<Rightarrow> if c = CHR ''-'' then (True, r) else if c = CHR ''+'' then (False, r) else (False, s))"

text \<open>The exponent after the mantissa, \<open>None\<close> for a malformed one.\<close>

definition exponent :: "bool \<Rightarrow> string \<Rightarrow> (int \<times> string) option" where
  "exponent hex s =
     (case s of
        c # r \<Rightarrow>
          if ToLower_char c = (if hex then CHR ''p'' else CHR ''e'')
          then (case take_sign r of (neg, r1) \<Rightarrow>
                  (case r1 of [] \<Rightarrow> None
                   | d # _ \<Rightarrow> if is_digit d then (case exp_digits 0 r1 of (e, rest) \<Rightarrow> Some (sign_int neg e, rest)) else None))
          else if hex then None else Some (0, s)
      | [] \<Rightarrow> if hex then None else Some (0, s))"

fun under_ok :: "bool \<Rightarrow> char \<Rightarrow> string \<Rightarrow> bool" where
  "under_ok hex saw [] = (saw \<noteq> underscore)"
| "under_ok hex saw (c # s) =
     (if mant_digit (if hex then 16 else 10) c \<noteq> None then under_ok hex (CHR ''0'') s
      else if c = underscore then (if saw \<noteq> CHR ''0'' then False else under_ok hex underscore s)
      else if saw = underscore then False else under_ok hex (CHR ''!'') s)"

definition has_base :: "string \<Rightarrow> char list \<Rightarrow> bool" where
  "has_base s cs = (case s of a # b # r \<Rightarrow> a = CHR ''0'' \<and> ToLower_char b \<in> set cs | _ \<Rightarrow> False)"

definition underscoreOK :: "string \<Rightarrow> bool" where
  "underscoreOK s =
     (let s1 = snd (take_sign s) in
      if has_base s1 ''box'' then under_ok (has_base s1 ''x'') (CHR ''0'') (drop 2 s1) else under_ok False (CHR ''^'') s1)"

definition f64_of_decimal :: "bool \<Rightarrow> nat \<Rightarrow> int \<Rightarrow> float64" where
  "f64_of_decimal neg m e = (if e \<ge> 0 then f64_round neg (m * 10 ^ nat e) 1 else f64_round neg m (10 ^ nat (- e)))"

definition read_float :: "string \<Rightarrow> float64 option" where
  "read_float s =
     (case take_sign s of (neg, s1) \<Rightarrow>
        let hex = (has_base s1 ''x'' \<and> length s1 > 2) in
        case mantissa (if hex then 16 else 10) False False 0 0 (if hex then drop 2 s1 else s1) of
          (sawdigits, m, fd, s2) \<Rightarrow>
            if \<not> sawdigits then None
            else case exponent hex s2 of None \<Rightarrow> None
              | Some (e, rest) \<Rightarrow>
                if rest \<noteq> [] \<or> (underscore \<in> set s \<and> \<not> underscoreOK s) then None
                else Some (if hex then f64_make (sign_int neg m) (e - 4 * int fd) else f64_of_decimal neg m (e - int fd)))"

definition ParseFloat :: "string \<Rightarrow> float_error + float64" where
  "ParseFloat s =
     (if ToLower (snd (take_sign s)) \<in> {''inf'', ''infinity''} then Inr (Infty (fst (take_sign s)))
      else if ToLower s = ''nan'' then Inr NaN
      else case read_float s of None \<Rightarrow> Inl ErrSyntax
        | Some (Infty neg) \<Rightarrow> Inl ErrRange
        | Some x \<Rightarrow> Inr x)"

section \<open>Parsing a duration\<close>

datatype duration_error = InvalidDuration | MissingUnit | UnknownUnit string

text \<open>\<open>leadingInt\<close>; \<open>None\<close> is an overflow.\<close>

fun leadingInt :: "nat \<Rightarrow> string \<Rightarrow> (nat \<times> string) option" where
  "leadingInt x [] = Some (x, [])"
| "leadingInt x (c # s) =
     (if \<not> is_digit c then Some (x, c # s)
      else if x > 2 ^ 63 div 10 then None
      else let y = x * 10 + digit_val c in if y > 2 ^ 63 then None else leadingInt y s)"

text \<open>\<open>leadingFraction\<close>: digits beyond the precision are skipped.\<close>

fun leadingFraction :: "nat \<Rightarrow> float64 \<Rightarrow> bool \<Rightarrow> string \<Rightarrow> nat \<times> float64 \<times> string" where
  "leadingFraction x scale overflow [] = (x, scale, [])"
| "leadingFraction x scale overflow (c # s) =
     (if \<not> is_digit c then (x, scale, c # s)
      else if overflow \<or> x > (2 ^ 63 - 1) div 10 then leadingFraction x scale True s
      else let y = x * 10 + digit_val c in
        if y > 2 ^ 63 then leadingFraction x scale True s
        else leadingFraction y (f64_mul scale (f64_of_int 10)) False s)"

definition unitMap :: "(string \<times> nat) list" where
  "unitMap = [(''ns'', 1), (''us'', 1000), ([CHR 0xC2, CHR 0xB5, CHR ''s''], 1000), ([CHR 0xCE, CHR 0xBC, CHR ''s''], 1000),
     (''ms'', 1000000), (''s'', 1000000000), (''m'', 60000000000), (''h'', 3600000000000)]"

definition unit_char :: "char \<Rightarrow> bool" where
  "unit_char c \<longleftrightarrow> c \<noteq> CHR ''.'' \<and> \<not> is_digit c"

text \<open>One number with its unit: its nanoseconds and the rest.\<close>

definition duration_part :: "(float64 \<Rightarrow> int) \<Rightarrow> string \<Rightarrow> duration_error + (nat \<times> string)" where
  "duration_part outside s =
     (if s = [] \<or> unit_char (hd s) then Inl InvalidDuration
      else case leadingInt 0 s of None \<Rightarrow> Inl InvalidDuration
        | Some (v, s1) \<Rightarrow>
          let pre = (length s1 \<noteq> length s);
              dotted = (s1 \<noteq> [] \<and> hd s1 = CHR ''.'');
              (f, scale, s2) = (if dotted then leadingFraction 0 (f64_of_int 1) False (tl s1) else (0, f64_of_int 1, s1));
              post = (dotted \<and> length s2 \<noteq> length (tl s1));
              u = takeWhile unit_char s2; rest = dropWhile unit_char s2
          in if \<not> pre \<and> \<not> post then Inl InvalidDuration
             else if u = [] then Inl MissingUnit
             else case map_of unitMap u of None \<Rightarrow> Inl (UnknownUnit u)
               | Some k \<Rightarrow>
                 if v > 2 ^ 63 div k then Inl InvalidDuration
                 else
                   let w = v * k + (if f > 0 then nat (int64_of_f64 outside
                             (f64_mul (f64_of_int (int f)) (f64_div (f64_of_int (int k)) scale))) else 0)
                   in if f > 0 \<and> w > 2 ^ 63 then Inl InvalidDuration else Inr (w, rest))"

lemma leadingInt_rest: "leadingInt x s = Some (v, r) \<Longrightarrow> length r \<le> length s"
  by (induction x s rule: leadingInt.induct) (fastforce simp: Let_def split: if_splits)+

lemma leadingFraction_rest: "leadingFraction x sc ov s = (f, sc', r) \<Longrightarrow> length r \<le> length s"
  by (induction x sc ov s rule: leadingFraction.induct) (fastforce simp: Let_def split: if_splits)+

lemma length_dropWhile_less: "takeWhile P s \<noteq> [] \<Longrightarrow> length (dropWhile P s) < length s"
  by (metis length_append length_greater_0_conv less_add_same_cancel2 takeWhile_dropWhile_id)

lemma duration_part_rest:
  assumes "duration_part outside s = Inr (w, rest)"
  shows "length rest < length s"
proof -
  obtain v s1 f sc s2 where p: "leadingInt 0 s = Some (v, s1)"
      "(if s1 \<noteq> [] \<and> hd s1 = CHR ''.'' then leadingFraction 0 (f64_of_int 1) False (tl s1) else (0, f64_of_int 1, s1)) = (f, sc, s2)"
      "takeWhile unit_char s2 \<noteq> []" "rest = dropWhile unit_char s2"
    using assms by (auto simp: duration_part_def Let_def split: if_splits option.splits prod.splits)
  have "length s2 \<le> length s1" using p(2) leadingFraction_rest [of 0 "f64_of_int 1" False "tl s1" f sc s2] by (auto split: if_splits)
  with leadingInt_rest [OF p(1)] length_dropWhile_less [OF p(3)] show ?thesis by (simp add: p(4))
qed

text \<open>The loop over the parts; the sum of two parts is an unsigned 64-bit value.\<close>

function duration_parts :: "(float64 \<Rightarrow> int) \<Rightarrow> nat \<Rightarrow> string \<Rightarrow> duration_error + nat" where
  "duration_parts outside d s =
     (if s = [] then Inr d
      else case duration_part outside s of Inl e \<Rightarrow> Inl e
        | Inr (w, rest) \<Rightarrow>
          let d1 = (d + w) mod 2 ^ 64 in if d1 > 2 ^ 63 then Inl InvalidDuration else duration_parts outside d1 rest)"
  by pat_completeness auto
termination
  by (relation "measure (\<lambda>(_, _, s). length s)") (auto dest: duration_part_rest)

declare duration_parts.simps [simp del]

definition ParseDuration :: "(float64 \<Rightarrow> int) \<Rightarrow> string \<Rightarrow> duration_error + duration" where
  "ParseDuration outside s0 =
     (case take_sign s0 of (neg, s) \<Rightarrow>
        if s = ''0'' then Inr 0
        else if s = [] then Inl InvalidDuration
        else case duration_parts outside 0 s of Inl e \<Rightarrow> Inl e
          | Inr d \<Rightarrow>
            if neg then Inr (wrap64 (- wrap64 (int d)))
            else if d > 2 ^ 63 - 1 then Inl InvalidDuration else Inr (int d))"

section \<open>Printing a number\<close>

text \<open>
  The shortest decimal that reads back as the number \<open>n / d\<close>: with \<open>k\<close> digits before the power of ten, the two
  neighbours of the number are tried, the nearer first, for growing \<open>k\<close>; seventeen digits always suffice.
\<close>

definition scale10 :: "nat \<Rightarrow> nat \<Rightarrow> int \<Rightarrow> nat \<times> nat" where
  "scale10 n d e = (if e \<ge> 0 then (n, d * 10 ^ nat e) else (n * 10 ^ nat (- e), d))"

text \<open>The place of the decimal point: \<open>10^(p-1) \<le> n / d < 10^p\<close>.\<close>

function lead_zeros :: "nat \<Rightarrow> nat \<Rightarrow> nat" where
  "lead_zeros n d = (if n = 0 \<or> n * 10 \<ge> d then 0 else Suc (lead_zeros (n * 10) d))"
  by pat_completeness auto
termination
  by (relation "measure (\<lambda>(n, d). d - n)") auto

declare lead_zeros.simps [simp del]

definition decimal_point :: "nat \<Rightarrow> nat \<Rightarrow> int" where
  "decimal_point n d = (if n \<ge> d then int (length (show_nat (n div d))) else - int (lead_zeros n d))"

definition shortest_with :: "nat \<Rightarrow> nat \<Rightarrow> nat \<Rightarrow> (nat \<times> int) option" where
  "shortest_with n d k =
     (let e = decimal_point n d - int k in
      case scale10 n d e of (a, b) \<Rightarrow>
        let lo = a div b; near = (if 2 * (a mod b) \<le> b then [lo, Suc lo] else [Suc lo, lo])
        in map_option (\<lambda>c. (c, e)) (find (\<lambda>c. f64_of_decimal False c e = f64_round False n d) near))"

definition shortest :: "nat \<Rightarrow> nat \<Rightarrow> nat \<times> int" where
  "shortest n d = (case List.map_filter (shortest_with n d) [1..<18] of r # _ \<Rightarrow> r | [] \<Rightarrow> (0, 0))"

definition strip_zeros :: "string \<Rightarrow> string" where
  "strip_zeros ds = rev (dropWhile (\<lambda>c. c = CHR ''0'') (rev ds))"

definition fmtE :: "string \<Rightarrow> int \<Rightarrow> string" where
  "fmtE digs dp =
     (let e = dp - 1; ex = show_nat (nat \<bar>e\<bar>) in
      take 1 digs @ (if length digs > 1 then ''.'' @ drop 1 digs else []) @ ''e'' @ (if e < 0 then ''-'' else ''+'') @
      (if length ex < 2 then ''0'' @ ex else ex))"

definition fmtF :: "string \<Rightarrow> int \<Rightarrow> string" where
  "fmtF digs dp =
     (if dp > 0
      then let whole = take (nat dp) digs; part = drop (nat dp) digs in
        whole @ replicate (nat dp - length whole) (CHR ''0'') @ (if part = [] then [] else ''.'' @ part)
      else ''0'' @ (if digs = [] then [] else ''.'' @ replicate (nat (- dp)) (CHR ''0'') @ digs))"

definition format_g :: "float64 \<Rightarrow> string" where
  "format_g x =
     (case x of NaN \<Rightarrow> ''NaN'' | Infty neg \<Rightarrow> if neg then ''-Inf'' else ''+Inf''
      | Fin m e \<Rightarrow>
        if m = 0 then ''0''
        else
          case scale2 (nat \<bar>m\<bar>) 1 (- e) of (n, d) \<Rightarrow>
          case shortest n d of (c, q) \<Rightarrow>
            let digs = strip_zeros (show_nat c); dp = int (length (show_nat c)) + q in
            (if m < 0 then ''-'' else []) @ (if dp - 1 < - 4 \<or> dp - 1 \<ge> 6 then fmtE digs dp else fmtF digs dp))"

section \<open>The error of rounding\<close>

lemma bit_len_bounds: "n > 0 \<Longrightarrow> 2 ^ bit_len n \<le> 2 * n \<and> n < 2 ^ bit_len n"
proof (induction n rule: bit_len.induct)
  case (1 n)
  show ?case
  proof (cases "n = 1")
    case True
    then show ?thesis by (simp add: bit_len.simps)
  next
    case False
    then have "n div 2 > 0" using "1.prems" by simp
    with "1.IH" "1.prems" have "2 ^ bit_len (n div 2) \<le> 2 * (n div 2)" "n div 2 < 2 ^ bit_len (n div 2)" by auto
    then have "2 * 2 ^ bit_len (n div 2) \<le> 2 * n" "n < 2 * 2 ^ bit_len (n div 2)" by linarith+
    then show ?thesis using "1.prems" by (simp add: bit_len.simps [of n])
  qed
qed

lemma scale2_val:
  assumes "scale2 n d e = (a, b)" and "d > 0"
  shows "b > 0" and "real a / real b = real n / real d * 2 powi (- e)"
  using assms by (auto simp: scale2_def power_int_def field_simps split: if_splits)

lemma round_half_even_error: "d > 0 \<Longrightarrow> \<bar>real (round_half_even n d) - real n / real d\<bar> \<le> 1 / 2"
proof -
  assume d: "d > 0"
  have n: "real n = real d * real (n div d) + real (n mod d)" by (metis mult_div_mod_eq of_nat_add of_nat_mult)
  have q: "real n / real d = real (n div d) + real (n mod d) / real d" using d by (simp add: n add_divide_distrib)
  have r: "n mod d < d" using d by simp
  have le: "2 * (n mod d) \<le> d \<Longrightarrow> real (n mod d) / real d \<le> 1 / 2" "d \<le> 2 * (n mod d) \<Longrightarrow> 1 / 2 \<le> real (n mod d) / real d"
    using d by (simp_all add: field_simps)
  have "0 \<le> real (n mod d) / real d" "real (n mod d) / real d \<le> 1" using r by simp_all
  with le show ?thesis unfolding q round_half_even_def Let_def by auto
qed

lemma powi_half: "(2::real) powi (e - 1) = 2 powi e / 2"
  by (simp add: power_int_diff)

lemma powi_less: "(2::real) powi a < 2 powi b \<Longrightarrow> a < b"
  using power_int_increasing [of b a "2::real"] by force

lemma powi_cancel: "(2::real) powi (- e) * 2 powi e = 1"
  by (simp add: power_int_minus)

lemma powi_move:
  "c \<le> y * 2 powi (- e) \<longleftrightarrow> c * 2 powi e \<le> (y::real)" "y * 2 powi (- e) < c \<longleftrightarrow> y < c * 2 powi e"
  by (simp_all add: power_int_minus pos_le_divide_eq pos_divide_less_eq flip: divide_inverse)

text \<open>The chosen exponent gives a mantissa of 53 bits.\<close>

lemma f64_exp_range:
  assumes "n > 0" and "d > 0"
  shows "2 ^ 52 \<le> real n / real d * 2 powi (- f64_exp n d)" and "real n / real d * 2 powi (- f64_exp n d) < 2 ^ 53"
proof -
  let ?e = "int (bit_len n) - int (bit_len d) - 53" and ?x = "real n / real d"
  obtain a b where s: "scale2 n d ?e = (a, b)" by (cases "scale2 n d ?e")
  note v = scale2_val [OF s assms(2)]
  have bn: "2 ^ bit_len n \<le> 2 * real n" "real n < 2 ^ bit_len n" using bit_len_bounds [OF assms(1)]
    by (metis of_nat_le_iff of_nat_mult of_nat_numeral of_nat_power, metis of_nat_less_iff of_nat_numeral of_nat_power)
  have bd: "2 ^ bit_len d \<le> 2 * real d" "real d < 2 ^ bit_len d" using bit_len_bounds [OF assms(2)]
    by (metis of_nat_le_iff of_nat_mult of_nat_numeral of_nat_power, metis of_nat_less_iff of_nat_numeral of_nat_power)
  have p: "2 powi (- ?e) = (2::real) ^ bit_len d * 2 ^ 53 / 2 ^ bit_len n"
    by (simp add: power_int_diff power_int_add)
  have lo: "2 ^ 52 \<le> ?x * 2 powi (- ?e)"
  proof -
    have "real d * 2 ^ bit_len n \<le> 2 ^ bit_len d * (2 * real n)" using bn(1) bd(2) by (intro mult_mono) simp_all
    then show ?thesis using assms unfolding p by (simp add: field_simps)
  qed
  have hi: "?x * 2 powi (- ?e) < 2 ^ 54"
  proof -
    have "2 ^ bit_len d * real n \<le> 2 * real d * real n" using bd(1) by (intro mult_right_mono) simp_all
    also have "\<dots> < 2 * real d * 2 ^ bit_len n" using bn(2) assms by (intro mult_strict_left_mono) simp_all
    finally show ?thesis using assms unfolding p by (simp add: field_simps)
  qed
  have cmp: "a \<ge> b * 2 ^ 53 \<longleftrightarrow> ?x * 2 powi (- ?e) \<ge> 2 ^ 53"
  proof -
    have "b * 2 ^ 53 \<le> a \<longleftrightarrow> real b * 2 ^ 53 \<le> real a" by (metis of_nat_le_iff of_nat_mult of_nat_numeral of_nat_power)
    also have "\<dots> \<longleftrightarrow> 2 ^ 53 \<le> real a / real b" using v(1) by (simp add: le_divide_eq mult.commute)
    finally show ?thesis unfolding v(2) .
  qed
  have half: "2 powi (- (?e + 1)) = (2::real) powi (- ?e) / 2" using powi_half [of "- ?e"] by (simp add: algebra_simps)
  have e: "f64_exp n d = (if 2 ^ 53 \<le> ?x * 2 powi (- ?e) then ?e + 1 else ?e)"
    unfolding f64_exp_def Let_def s prod.case cmp ..
  define y where "y = ?x * 2 powi (- ?e)"
  have y2: "?x * 2 powi (- (?e + 1)) = y / 2" unfolding half y_def by simp
  have y: "?x * 2 powi (- f64_exp n d) = (if 2 ^ 53 \<le> y then y / 2 else y)"
    unfolding e y_def [symmetric] using y2 by (simp only: y_def [symmetric] split: if_split) simp
  show "2 ^ 52 \<le> ?x * 2 powi (- f64_exp n d)" using lo [folded y_def] unfolding y by simp
  show "?x * 2 powi (- f64_exp n d) < 2 ^ 53" using hi [folded y_def] unfolding y by simp
qed

text \<open>A positive number in the normal range: it stays finite and moves by at most one part in \<open>2^53\<close>.\<close>

lemma f64_round_normal:
  assumes "n > 0" and "d > 0" and "2 powi (- 1022) \<le> real n / real d" and "real n / real d < 2 powi 1023"
  shows "\<exists>m e. f64_round False n d = Fin m e \<and> 0 < m \<and>
     \<bar>real_of_int m * 2 powi e - real n / real d\<bar> \<le> real n / real d * 2 powi (- 53)"
proof -
  let ?x = "real n / real d" and ?e = "f64_exp n d"
  note r = f64_exp_range [OF assms(1,2)]
  have lo: "2 powi (52 + ?e) \<le> ?x" and hi: "?x < 2 powi (53 + ?e)"
    using r unfolding powi_move by (simp_all add: power_int_add)
  have "- 1022 < 53 + ?e" by (rule powi_less [OF le_less_trans [OF assms(3) hi]])
  moreover have "52 + ?e < 1023" by (rule powi_less [OF le_less_trans [OF lo assms(4)]])
  ultimately have e: "- 1074 \<le> ?e" "?e \<le> 970" by simp_all
  obtain a b where s: "scale2 n d ?e = (a, b)" by (cases "scale2 n d ?e")
  let ?m = "round_half_even a b"
  have m: "\<bar>real ?m - ?x * 2 powi (- ?e)\<bar> \<le> 1 / 2"
    using round_half_even_error [OF scale2_val(1) [OF s assms(2)]] scale2_val(2) [OF s assms(2)] by metis
  have "\<bar>real ?m * 2 powi ?e - ?x\<bar> = \<bar>real ?m - ?x * 2 powi (- ?e)\<bar> * 2 powi ?e"
  proof -
    have "real ?m * 2 powi ?e - ?x = (real ?m - ?x * 2 powi (- ?e)) * 2 powi ?e"
      by (simp add: left_diff_distrib mult.assoc flip: power_int_add)
    then show ?thesis by (simp add: abs_mult)
  qed
  also have "\<dots> \<le> 1 / 2 * 2 powi ?e" using m by (intro mult_right_mono) simp_all
  also have "\<dots> = 2 powi (52 + ?e) * 2 powi (- 53)" by (simp add: power_int_add power_int_minus)
  also have "\<dots> \<le> ?x * 2 powi (- 53)" using lo by (intro mult_right_mono) simp_all
  finally have err: "\<bar>real ?m * 2 powi ?e - ?x\<bar> \<le> ?x * 2 powi (- 53)" .
  have "real ?m > 0"
  proof -
    define y where "y = ?x * 2 powi (- ?e)"
    have "\<bar>real ?m - y\<bar> \<le> 1 / 2" "2 ^ 52 \<le> y" using m r(1) unfolding y_def .
    moreover have "1 \<le> (2::real) ^ 52" by simp
    ultimately show ?thesis by linarith
  qed
  moreover have "f64_round False n d = (if ?m = 2 ^ 53 then Fin (2 ^ 52) (?e + 1) else Fin (int ?m) ?e)"
    using assms(1) e by (simp add: f64_round_def s sign_int_def max_def)
  moreover have "real_of_int (2 ^ 52) * 2 powi (?e + 1) = 2 ^ 53 * 2 powi ?e" by (simp add: power_int_add)
  ultimately show ?thesis using err by (auto split: if_splits)
qed

text \<open>Whole numbers below \<open>2^53\<close> are not rounded.\<close>

lemma f64_round_whole:
  assumes "d > 0" and "real n / real d = real N" and "0 < N" and "N < 2 ^ 53"
  shows "\<exists>m e. f64_round False n d = Fin m e \<and> 0 < m \<and> real_of_int m * 2 powi e = real N"
proof -
  let ?e = "f64_exp n d"
  have n: "n > 0" using assms by (cases n) auto
  note r = f64_exp_range [OF n assms(1), unfolded assms(2)]
  have "real N < 2 ^ 53" using assms(4) by (metis of_nat_less_iff of_nat_numeral of_nat_power)
  have e0: "?e \<le> 0"
  proof (rule ccontr)
    assume "\<not> ?e \<le> 0"
    then have "(2::real) powi (- ?e) \<le> 2 powi (- 1)" by (intro power_int_increasing) auto
    then have "real N * 2 powi (- ?e) \<le> real N * (1 / 2)" by (intro mult_left_mono) (simp_all add: power_int_minus)
    with r(1) \<open>real N < 2 ^ 53\<close> show False by simp
  qed
  have "(1::real) * 2 powi (- ?e) \<le> real N * 2 powi (- ?e)" using assms(3) by (intro mult_right_mono) simp_all
  also have "\<dots> < 2 powi 53" using r(2) by simp
  finally have "(2::real) powi (- ?e) < 2 powi 53" by simp
  from powi_less [OF this] have e1: "- 1074 \<le> ?e" by simp
  obtain a b where s: "scale2 n d ?e = (a, b)" by (cases "scale2 n d ?e")
  let ?M = "N * 2 ^ nat (- ?e)"
  have b: "b > 0" and ab: "real a / real b = real ?M"
    using scale2_val [OF s assms(1)] e0 by (simp_all add: assms(2) power_int_def)
  have "real a = real (?M * b)" using b ab by (simp add: field_simps)
  then have "a = ?M * b" by (metis of_nat_eq_iff)
  then have m: "round_half_even a b = ?M" using b by (simp add: round_half_even_def)
  have "real ?M < 2 ^ 53" using r(2) e0 by (simp add: power_int_def)
  then have "?M < 2 ^ 53" by (metis of_nat_less_iff of_nat_numeral of_nat_power)
  then have "f64_round False n d = Fin (int ?M) ?e"
    using n e0 e1 m by (simp add: f64_round_def s sign_int_def max_def Let_def)
  moreover have "real_of_int (int ?M) * 2 powi ?e = real N"
  proof -
    have "real_of_int (int ?M) = real N * 2 powi (- ?e)" using e0 by (simp add: power_int_def)
    then show ?thesis by (simp only: mult.assoc powi_cancel mult_1_right)
  qed
  ultimately show ?thesis using assms(3) by (intro exI conjI) auto
qed

section \<open>Operations on finite numbers\<close>

lemma f64_make_ratio:
  assumes "0 < m"
  shows "\<exists>n d. n > 0 \<and> d > 0 \<and> f64_make m e = f64_round False n d \<and> real n / real d = real_of_int m * 2 powi e"
proof -
  obtain a b where s: "scale2 (nat \<bar>m\<bar>) 1 (- e) = (a, b)" by (cases "scale2 (nat \<bar>m\<bar>) 1 (- e)")
  have "b > 0" "real a / real b = real_of_int m * 2 powi e" using scale2_val [OF s] assms by simp_all
  moreover from this have "a > 0" using assms by (cases a) auto
  moreover have "f64_make m e = f64_round False a b" using assms unfolding f64_make_def s by simp
  ultimately show ?thesis by blast
qed

lemma f64_trunc_floor:
  assumes "0 < m"
  shows "f64_trunc m e = \<lfloor>real_of_int m * 2 powi e\<rfloor>"
proof -
  obtain a b where s: "scale2 (nat \<bar>m\<bar>) 1 (- e) = (a, b)" by (cases "scale2 (nat \<bar>m\<bar>) 1 (- e)")
  have "real a / real b = real_of_int m * 2 powi e" using scale2_val [OF s] assms by simp
  then have "\<lfloor>real_of_int m * 2 powi e\<rfloor> = int (a div b)" by (metis floor_divide_of_nat_eq)
  then show ?thesis using assms unfolding f64_trunc_def s by simp
qed

lemma f64_of_int_whole:
  assumes "0 < i" and "i < 2 ^ 53"
  shows "\<exists>m e. f64_of_int i = Fin m e \<and> 0 < m \<and> real_of_int m * 2 powi e = real_of_int i"
  using f64_round_whole [of 1 "nat i" "nat i"] assms by (simp add: f64_of_int_def)

text \<open>The product of two positive numbers, as long as it is in the normal range.\<close>

lemma f64_mul_error:
  assumes "0 < a" and "0 < b" and x: "x = real_of_int a * 2 powi e * (real_of_int b * 2 powi f)" and "1 \<le> x" and "x < 2 ^ 64"
  shows "\<exists>m g. f64_mul (Fin a e) (Fin b f) = Fin m g \<and> 0 < m \<and> \<bar>real_of_int m * 2 powi g - x\<bar> \<le> x * 2 powi (- 53)"
proof -
  have ab: "0 < a * b" using assms(1,2) by simp
  obtain n d where r: "n > 0" "d > 0" "f64_make (a * b) (e + f) = f64_round False n d"
      "real n / real d = real_of_int (a * b) * 2 powi (e + f)" using f64_make_ratio [OF ab] by blast
  have nd: "real n / real d = x" unfolding r(4) x by (simp add: power_int_add)
  have "(2::real) powi (- 1022) \<le> 2 powi 0" "(2::real) powi 64 \<le> 2 powi 1023" by (rule power_int_increasing; simp)+
  with assms(4,5) have "2 powi (- 1022) \<le> x" "x < 2 powi 1023" by simp_all
  with f64_round_normal [OF r(1,2)] show ?thesis by (simp add: nd r(3))
qed

lemma f64_mul_whole:
  assumes "0 < a" and "0 < b" and "real_of_int a * 2 powi e * (real_of_int b * 2 powi f) = real N" and "N < 2 ^ 53"
  shows "\<exists>m g. f64_mul (Fin a e) (Fin b f) = Fin m g \<and> 0 < m \<and> real_of_int m * 2 powi g = real N"
proof -
  have ab: "0 < a * b" using assms(1,2) by simp
  obtain n d where r: "n > 0" "d > 0" "f64_make (a * b) (e + f) = f64_round False n d"
      "real n / real d = real_of_int (a * b) * 2 powi (e + f)" using f64_make_ratio [OF ab] by blast
  have nd: "real n / real d = real N" unfolding r(4) assms(3) [symmetric] by (simp add: power_int_add)
  have "0 < real N" unfolding nd [symmetric] using r(1,2) by simp
  with f64_round_whole [OF r(2) nd _ assms(4)] show ?thesis by (simp add: r(3))
qed

section \<open>Parsing decimal digits\<close>

lemma digit_chars: "is_digit c \<Longrightarrow> c \<noteq> underscore \<and> c \<noteq> CHR ''.'' \<and> c \<noteq> CHR ''-'' \<and> c \<noteq> CHR ''+'' \<and> ToLower_char c = c"
  by (auto simp: is_digit_def underscore_def ToLower_char_def less_eq_char_def)

lemma mantissa_digits:
  "list_all is_digit ds \<Longrightarrow> mantissa 10 dot sd m fd (ds @ r) =
     mantissa 10 dot (sd \<or> ds \<noteq> []) (m * 10 ^ length ds + digits_val ds) (if dot then fd + length ds else fd) r"
proof (induction ds arbitrary: m sd fd)
  case (Cons c ds)
  then show ?case using digit_chars [of c] by (auto simp: mant_digit_def digits_val_Cons algebra_simps)
qed (simp add: digits_val_def)

text \<open>A string of digits, or two around a point, is the rounded value of its digits.\<close>

lemma ParseFloat_digits:
  assumes "list_all is_digit ds" and "ds \<noteq> []" and "list_all is_digit fs" and "s = ds \<and> fs = [] \<or> s = ds @ ''.'' @ fs"
  shows "ParseFloat s = (case f64_round False (digits_val (ds @ fs)) (10 ^ length fs) of Infty neg \<Rightarrow> Inl ErrRange | x \<Rightarrow> Inr x)"
proof -
  obtain c r where c: "ds = c # r" "is_digit c" using assms(1,2) by (cases ds) auto
  note dc = digit_chars [OF c(2)]
  have sign: "take_sign s = (False, s)" using assms(4) c(1) dc by (auto simp: take_sign_def)
  have "c \<noteq> CHR ''i''" "c \<noteq> CHR ''n''" using c(2) by (auto simp: is_digit_def)
  then have special: "ToLower s \<notin> {''inf'', ''infinity''}" "ToLower s \<noteq> ''nan''" using assms(4) c dc by (auto simp: ToLower_def)
  have all: "list_all (\<lambda>x. is_digit x \<or> x = CHR ''.'') s" using assms by (auto simp: list_all_iff)
  then have hex: "\<not> has_base s ''x''"
    by (auto simp: has_base_def is_digit_def split: list.split dest: digit_chars simp: ToLower_char_def less_eq_char_def)
  have under: "underscore \<notin> set s" using all digit_chars by (fastforce simp: list_all_iff underscore_def)
  have app: "digits_val (ds @ fs) = digits_val ds * 10 ^ length fs + digits_val fs"
    using mantissa_digits [OF assms(1), of False False 0 0 fs] mantissa_digits [OF assms(3), of False True "digits_val ds" 0 "[]"]
      mantissa_digits [of "ds @ fs" False False 0 0 "[]"] assms(1-3) by simp
  have "mantissa 10 False False 0 0 s = (True, digits_val (ds @ fs), length fs, [])"
    using assms(4)
  proof
    assume "s = ds \<and> fs = []"
    then show ?thesis using mantissa_digits [OF assms(1), of False False 0 0 "[]"] assms(2) by simp
  next
    assume "s = ds @ ''.'' @ fs"
    then show ?thesis using mantissa_digits [OF assms(1), of False False 0 0 "CHR ''.'' # fs"]
      mantissa_digits [OF assms(3), of True True "digits_val ds" 0 "[]"] assms(2) app by (simp add: underscore_def)
  qed
  then have "read_float s = Some (f64_round False (digits_val (ds @ fs)) (10 ^ length fs))"
    using hex under by (simp add: read_float_def sign exponent_def f64_of_decimal_def)
  then show ?thesis using special by (simp add: ParseFloat_def sign split: float64.split)
qed

lemma leadingInt_digits:
  "list_all is_digit ds \<Longrightarrow> x * 10 ^ length ds + digits_val ds \<le> 2 ^ 63 \<Longrightarrow>
     leadingInt x (ds @ r) = leadingInt (x * 10 ^ length ds + digits_val ds) r"
proof (induction ds arbitrary: x)
  case (Cons c ds)
  let ?y = "x * 10 + digit_val c"
  have e: "x * 10 ^ length (c # ds) + digits_val (c # ds) = ?y * 10 ^ length ds + digits_val ds"
    by (simp add: digits_val_Cons algebra_simps)
  have "?y \<le> ?y * 10 ^ length ds" by simp
  also have "\<dots> \<le> 2 ^ 63" using Cons.prems(2) unfolding e by linarith
  finally have y: "?y \<le> 2 ^ 63" .
  then have "x \<le> 2 ^ 63 div 10" by simp
  then show ?case using Cons.IH [of ?y] Cons.prems y unfolding e by (simp add: Let_def)
qed (simp add: digits_val_def)

lemma unit_facts: "(u, k) \<in> set unitMap \<Longrightarrow> u \<noteq> [] \<and> list_all unit_char u \<and> map_of unitMap u = Some k \<and> 0 < k"
  unfolding unitMap_def by (elim set_ConsD [elim_format] disjE; simp add: unit_char_def is_digit_def)

text \<open>A whole number of a unit.\<close>

lemma ParseDuration_whole:
  assumes "(u, k) \<in> set unitMap" and "n * k < 2 ^ 63"
  shows "ParseDuration outside (show_nat n @ u) = Inr (int (n * k))"
proof -
  obtain c v where u: "u = c # v" "unit_char c" "list_all unit_char v" "map_of unitMap u = Some k" "0 < k"
    using unit_facts [OF assms(1)] by (cases u) auto
  obtain d r where d: "show_nat n = d # r" "is_digit d" using hd_show_nat [of n] by (cases "show_nat n") auto
  note dc = digit_chars [OF d(2)]
  have "n \<le> n * k" using u(5) by simp
  with assms(2) have n: "n \<le> 2 ^ 63" by linarith
  have "leadingInt 0 (show_nat n @ u) = leadingInt n u"
    using leadingInt_digits [OF show_nat_digits, of 0 n u] n by (simp add: digits_val_show)
  then have li: "leadingInt 0 (d # r @ u) = Some (n, u)" using u(1,2) d(1) by (simp add: unit_char_def)
  have nk: "n \<le> 2 ^ 63 div k" using assms(2) u(5) by (simp add: less_eq_div_iff_mult_less_eq)
  have tw: "takeWhile unit_char u = u" "dropWhile unit_char u = []"
    using u(1-3) by (auto simp: takeWhile_eq_all_conv dropWhile_eq_Nil_conv list_all_iff)
  have "u \<noteq> []" "hd u \<noteq> CHR ''.''" using u(1,2) by (simp_all add: unit_char_def)
  moreover have "\<not> unit_char d" using d(2) by (simp add: unit_char_def)
  ultimately have "duration_part outside (d # r @ u) = Inr (n * k, [])"
    using li u(4) nk by (simp add: duration_part_def Let_def tw del: leadingInt.simps)
  then have "duration_parts outside 0 (d # r @ u) = Inr (n * k)"
    using assms(2) by (simp add: duration_parts.simps)
  moreover have "take_sign (d # r @ u) = (False, d # r @ u)" using dc by (simp add: take_sign_def)
  ultimately show ?thesis using u(1) assms(2) d(1) by (simp add: ParseDuration_def)
qed

end
