(* ===== verification/Config.thy ===== *)
theory Config
  imports GoNet Sha256 GoFloat
begin

text \<open>
  The configuration, \<open>internal/config/config.go\<close>: the decoding of one service entry, the checks and
  defaults of \<open>Load\<close>, the probe targets and the listen address.

  The YAML library is a parameter: \<open>Load\<close> takes the outcome of reading the file and a function from its
  bytes to a decoded configuration, and the entry decoder takes the node and the outcome of decoding it
  into the raw struct. Every error of the source is a constructor of \<open>config_error\<close>. The label map is the
  list of its entries in the order in which the loop visits them.
\<close>

section \<open>Types\<close>

record service =
  sv_Name :: string
  sv_SIP :: string
  sv_DNS :: string
  sv_AGW :: string
  sv_Addr :: string
  sv_Interval :: duration

record server_config =
  sc_Listen :: string
  sc_Debug :: bool

record systemd_config =
  sy_ReconnectInterval :: duration
  sy_ReconciliationInterval :: duration
  sy_StartupRecoveryInterval :: duration

record wal_config =
  wl_Enabled :: bool
  wl_Directory :: string
  wl_Fsync :: bool

record remote_write_target =
  rt_ID :: string
  rt_URL :: string
  rt_Checkpoint :: string
  rt_LegacyCheckpoint :: string

record remote_write_config =
  rc_Enabled :: bool
  rc_URL :: string
  rc_URLs :: "string list"
  rc_BatchSize :: int
  rc_FlushInterval :: duration
  rc_RetryInterval :: duration
  rc_Timeout :: duration
  rc_Checkpoint :: string
  rc_StateInterval :: duration
  rc_RecoveryFillInterval :: duration
  rc_RecoveryWindow :: duration
  rc_Labels :: "(string \<times> string) list"
  rc_Targets :: "remote_write_target list"

record config =
  cf_Server :: server_config
  cf_Services :: "service list"
  cf_Systemd :: systemd_config
  cf_WAL :: wal_config
  cf_RemoteWrite :: remote_write_config

datatype target_error = TargetPrefix | TargetExtra | TargetAddr addr_error | TargetEmptyHost | TargetPort

datatype config_error =
    ConfigRead string | ConfigParse string | NoServices | ServiceName nat | DuplicateUnit string
  | ManyTargets nat | IntervalWithoutTarget nat | IntervalNotPositive nat string | ServiceTarget nat target_error
  | UrlAndUrls | NoUrl | EmptyUrl nat | DuplicateUrl string | FillIntervalRange | WindowRange | WindowDivides
  | LabelName string

section \<open>Decoding a service entry\<close>

datatype node_kind = ScalarNode | MappingNode | OtherNode

record raw_service =
  raw_Name :: string
  raw_SIP :: string
  raw_DNS :: string
  raw_AGW :: string
  raw_Interval :: duration

datatype node_error = NotServiceNode | NodeDecode string

definition Service_UnmarshalYAML ::
  "node_kind \<Rightarrow> string \<Rightarrow> string + raw_service \<Rightarrow> service \<Rightarrow> node_error + service" where
  "Service_UnmarshalYAML kind val decoded s =
     (if kind = ScalarNode then Inr (s\<lparr>sv_Name := TrimSpace val\<rparr>)
      else if kind \<noteq> MappingNode then Inl NotServiceNode
      else case decoded of
          Inl err \<Rightarrow> Inl (NodeDecode err)
        | Inr raw \<Rightarrow> Inr \<lparr>sv_Name = TrimSpace (raw_Name raw), sv_SIP = TrimSpace (raw_SIP raw),
             sv_DNS = TrimSpace (raw_DNS raw), sv_AGW = TrimSpace (raw_AGW raw), sv_Addr = [],
             sv_Interval = raw_Interval raw\<rparr>)"

text \<open>
  \<open>probeEvery.UnmarshalYAML\<close>: a number is read as milliseconds, anything else as a Go duration. \<open>outside\<close> is what
  the conversion of a float that no \<open>int64\<close> holds gives.
\<close>

datatype interval_error = NotIntervalScalar | IntervalNumber string float_error | IntervalDuration string duration_error

definition probeEvery_UnmarshalYAML ::
  "(float64 \<Rightarrow> int) \<Rightarrow> node_kind \<Rightarrow> string \<Rightarrow> string \<Rightarrow> interval_error + duration" where
  "probeEvery_UnmarshalYAML outside kind tag val =
     (if kind \<noteq> ScalarNode then Inl NotIntervalScalar
      else if tag = ''!!int'' \<or> tag = ''!!float''
      then (case ParseFloat val of
              Inl err \<Rightarrow> Inl (IntervalNumber val err)
            | Inr n \<Rightarrow> Inr (int64_of_f64 outside (f64_mul n (f64_of_int Millisecond))))
      else (case ParseDuration outside (TrimSpace val) of
              Inl err \<Rightarrow> Inl (IntervalDuration val err)
            | Inr d \<Rightarrow> Inr d))"

section \<open>Probe targets, the listen address and label names\<close>

text \<open>\<open>strconv.Atoi\<close> on a 64-bit platform is \<open>ParseInt64\<close>.\<close>

definition parseProbeTarget :: "string \<Rightarrow> string \<Rightarrow> target_error + (string \<times> string)" where
  "parseProbeTarget raw0 scheme =
     (let raw = TrimSpace raw0; prefix = scheme @ '':'' in
      if length raw < length prefix \<or> \<not> EqualFold (take (length prefix) raw) prefix then Inl TargetPrefix
      else
        let rest = drop (length prefix) raw in
        if ContainsAny rest '';?'' \<or> Contains rest ''@'' then Inl TargetExtra
        else case SplitHostPort rest of
            Inl err \<Rightarrow> Inl (TargetAddr err)
          | Inr (host, port) \<Rightarrow>
            if host = [] then Inl TargetEmptyHost
            else case ParseInt64 port of
                None \<Rightarrow> Inl TargetPort
              | Some n \<Rightarrow>
                if n < 1 \<or> n > 65535 then Inl TargetPort
                else let addr = JoinHostPort host port in Inr (scheme @ '':'' @ addr, addr))"

datatype listen_error = ListenPortRange | ListenAddr addr_error

definition WithListenPort :: "string \<Rightarrow> int \<Rightarrow> listen_error + string" where
  "WithListenPort listen port =
     (if port < 1 \<or> port > 65535 then Inl ListenPortRange
      else if TrimSpace listen \<noteq> []
      then case SplitHostPort listen of
             Inl err \<Rightarrow> Inl (ListenAddr err)
           | Inr (host, _) \<Rightarrow> Inr (JoinHostPort host (show_int port))
      else Inr (JoinHostPort [] (show_int port)))"

text \<open>
  The loop runs over runes with their byte position. A byte outside ASCII belongs to a rune that no case
  accepts, so testing the bytes gives the same answer.
\<close>

definition label_start :: "char \<Rightarrow> bool" where
  "label_start c \<longleftrightarrow> (CHR ''a'' \<le> c \<and> c \<le> CHR ''z'') \<or> (CHR ''A'' \<le> c \<and> c \<le> CHR ''Z'') \<or> c = CHR ''_''"

fun label_from :: "nat \<Rightarrow> string \<Rightarrow> bool" where
  "label_from i [] \<longleftrightarrow> True"
| "label_from i (c # s) \<longleftrightarrow> (label_start c \<or> i > 0 \<and> is_digit c) \<and> label_from (i + 1) s"

definition validLabelName :: "string \<Rightarrow> bool" where
  "validLabelName s \<longleftrightarrow> label_from 0 s \<and> s \<noteq> []"

section \<open>Load\<close>

definition load_defaults :: "config \<Rightarrow> config" where
  "load_defaults c =
     (let srv = cf_Server c; sy = cf_Systemd c in
      c\<lparr>cf_Server := (if sc_Listen srv = [] then srv\<lparr>sc_Listen := ''127.0.0.1:9877''\<rparr> else srv),
        cf_Systemd :=
          \<lparr>sy_ReconnectInterval = (if sy_ReconnectInterval sy \<le> 0 then Second else sy_ReconnectInterval sy),
           sy_ReconciliationInterval =
             (if sy_ReconciliationInterval sy \<le> 0 then 30 * Second else sy_ReconciliationInterval sy),
           sy_StartupRecoveryInterval =
             (if sy_StartupRecoveryInterval sy \<le> 0 then 24 * Hour else sy_StartupRecoveryInterval sy)\<rparr>\<rparr>)"

definition probe_kinds :: "service \<Rightarrow> string list" where
  "probe_kinds svc =
     (if sv_SIP svc \<noteq> [] then [''sip''] else []) @ (if sv_DNS svc \<noteq> [] then [''dns''] else []) @
     (if sv_AGW svc \<noteq> [] then [''agw''] else [])"

text \<open>The first of \<open>sip\<close>, \<open>dns\<close> and \<open>agw\<close> that is set, with its scheme.\<close>

definition probe_target :: "service \<Rightarrow> string \<times> string" where
  "probe_target svc =
     (if sv_SIP svc \<noteq> [] then (sv_SIP svc, ''sip'')
      else if sv_DNS svc \<noteq> [] then (sv_DNS svc, ''dns'')
      else if sv_AGW svc \<noteq> [] then (sv_AGW svc, ''agw'') else ([], []))"

definition check_service :: "nat \<Rightarrow> string list \<Rightarrow> service \<Rightarrow> config_error + service" where
  "check_service i seen svc =
     (if sv_Name svc = [] \<or> ContainsAny (sv_Name svc) [CHR '' '', CHR 0x09] then Inl (ServiceName i)
      else if sv_Name svc \<in> set seen then Inl (DuplicateUnit (sv_Name svc))
      else if length (probe_kinds svc) > 1 then Inl (ManyTargets i)
      else case probe_target svc of (target, scheme) \<Rightarrow>
        if target = [] then (if sv_Interval svc \<noteq> 0 then Inl (IntervalWithoutTarget i) else Inr svc)
        else if sv_Interval svc \<le> 0 then Inl (IntervalNotPositive i scheme)
        else case parseProbeTarget target scheme of
            Inl err \<Rightarrow> Inl (ServiceTarget i err)
          | Inr (uri, addr) \<Rightarrow>
            Inr ((if scheme = ''sip'' then svc\<lparr>sv_SIP := uri\<rparr>
                  else if scheme = ''dns'' then svc\<lparr>sv_DNS := uri\<rparr> else svc\<lparr>sv_AGW := uri\<rparr>)\<lparr>sv_Addr := addr\<rparr>))"

fun check_services :: "nat \<Rightarrow> string list \<Rightarrow> service list \<Rightarrow> config_error + service list" where
  "check_services i seen [] = Inr []"
| "check_services i seen (svc # rest) =
     (case check_service i seen svc of
        Inl err \<Rightarrow> Inl err
      | Inr svc' \<Rightarrow>
        (case check_services (i + 1) (sv_Name svc # seen) rest of
           Inl err \<Rightarrow> Inl err
         | Inr svcs \<Rightarrow> Inr (svc' # svcs)))"

definition recovery_defaults :: "remote_write_config \<Rightarrow> remote_write_config" where
  "recovery_defaults rw =
     rw\<lparr>rc_RecoveryFillInterval := (if rc_RecoveryFillInterval rw \<le> 0 then Minute else rc_RecoveryFillInterval rw),
        rc_RecoveryWindow := (if rc_RecoveryWindow rw \<le> 0 then 15 * Minute else rc_RecoveryWindow rw)\<rparr>"

definition send_defaults :: "remote_write_config \<Rightarrow> remote_write_config" where
  "send_defaults rw =
     rw\<lparr>rc_BatchSize := (if rc_BatchSize rw \<le> 0 then 100 else rc_BatchSize rw),
        rc_FlushInterval := (if rc_FlushInterval rw \<le> 0 then Second else rc_FlushInterval rw),
        rc_RetryInterval := (if rc_RetryInterval rw \<le> 0 then Second else rc_RetryInterval rw),
        rc_Timeout := (if rc_Timeout rw \<le> 0 then 10 * Second else rc_Timeout rw),
        rc_Checkpoint := (if rc_Checkpoint rw = [] then ''/var/lib/systemd-transition-exporter/remote_write.checkpoint''
                          else rc_Checkpoint rw)\<rparr>"

definition target_id :: "string \<Rightarrow> string" where
  "target_id url = hex_string (take 6 (Sum256 url))"

definition make_target :: "string \<Rightarrow> bool \<Rightarrow> nat \<Rightarrow> string \<Rightarrow> remote_write_target" where
  "make_target checkpoint legacy i url =
     \<lparr>rt_ID = target_id url, rt_URL = url,
      rt_Checkpoint = (if legacy then checkpoint else checkpoint @ ''.'' @ target_id url),
      rt_LegacyCheckpoint = (if \<not> legacy \<and> i = 0 then checkpoint else [])\<rparr>"

fun make_targets ::
  "string \<Rightarrow> bool \<Rightarrow> nat \<Rightarrow> string list \<Rightarrow> string list \<Rightarrow> config_error + remote_write_target list" where
  "make_targets checkpoint legacy i seen [] = Inr []"
| "make_targets checkpoint legacy i seen (rawURL # rest) =
     (let url = TrimSpace rawURL in
      if url = [] then Inl (EmptyUrl i)
      else if url \<in> set seen then Inl (DuplicateUrl url)
      else case make_targets checkpoint legacy (i + 1) (url # seen) rest of
          Inl err \<Rightarrow> Inl err
        | Inr ts \<Rightarrow> Inr (make_target checkpoint legacy i url # ts))"

fun bad_label :: "(string \<times> string) list \<Rightarrow> string option" where
  "bad_label [] = None"
| "bad_label ((name, _) # rest) =
     (if \<not> validLabelName name \<or> name = ''__name__'' then Some name else bad_label rest)"

definition check_ranges :: "remote_write_config \<Rightarrow> config_error + remote_write_config" where
  "check_ranges rw =
     (if rc_RecoveryFillInterval rw < 10 * Second \<or> rc_RecoveryFillInterval rw > 4 * Minute then Inl FillIntervalRange
      else if rc_RecoveryWindow rw < 5 * Minute \<or> rc_RecoveryWindow rw > 60 * Minute then Inl WindowRange
      else if Hour mod rc_RecoveryWindow rw \<noteq> 0 then Inl WindowDivides
      else case bad_label (rc_Labels rw) of Some name \<Rightarrow> Inl (LabelName name) | None \<Rightarrow> Inr rw)"

text \<open>The block for \<open>remote_write.enabled\<close>.\<close>

definition load_remote_write :: "remote_write_config \<Rightarrow> config_error + remote_write_config" where
  "load_remote_write rw0 =
     (if rc_URL rw0 \<noteq> [] \<and> rc_URLs rw0 \<noteq> [] then Inl UrlAndUrls
      else
        let legacy = (rc_URLs rw0 = [] \<and> rc_URL rw0 \<noteq> []);
            urls = (if legacy then [rc_URL rw0] else rc_URLs rw0)
        in if urls = [] then Inl NoUrl
           else
             let rw = send_defaults rw0 in
             case make_targets (rc_Checkpoint rw) legacy 0 [] urls of
               Inl err \<Rightarrow> Inl err
             | Inr ts \<Rightarrow>
               check_ranges (rw\<lparr>rc_Targets := rc_Targets rw @ ts,
                  rc_StateInterval := (if rc_StateInterval rw \<le> 0 then Minute else rc_StateInterval rw)\<rparr>))"

definition validate :: "config \<Rightarrow> config_error + config" where
  "validate c0 =
     (let c = load_defaults c0 in
      if cf_Services c = [] then Inl NoServices
      else case check_services 0 [] (cf_Services c) of
          Inl err \<Rightarrow> Inl err
        | Inr svcs \<Rightarrow>
          let c1 = c\<lparr>cf_Services := svcs, cf_RemoteWrite := recovery_defaults (cf_RemoteWrite c)\<rparr> in
          if rc_Enabled (cf_RemoteWrite c1)
          then case load_remote_write (cf_RemoteWrite c1) of
                 Inl err \<Rightarrow> Inl err
               | Inr rw \<Rightarrow> Inr (c1\<lparr>cf_RemoteWrite := rw\<rparr>)
          else Inr c1)"

definition Load :: "(string \<Rightarrow> string + config) \<Rightarrow> string + string \<Rightarrow> config_error + config" where
  "Load yaml read =
     (case read of Inl err \<Rightarrow> Inl (ConfigRead err)
      | Inr data \<Rightarrow> (case yaml data of Inl err \<Rightarrow> Inl (ConfigParse err) | Inr c \<Rightarrow> validate c))"

definition Units :: "config \<Rightarrow> string list" where
  "Units c = map sv_Name (cf_Services c)"

section \<open>Normal forms of probe targets\<close>

lemma Contains_single: "Contains s [c] \<longleftrightarrow> c \<in> set s"
  by (induction s) (auto simp: HasPrefix_def)

lemma ParseInt64_last: "ParseInt64 s = Some n \<Longrightarrow> s \<noteq> [] \<and> is_digit (last s)"
  by (cases s) (auto simp: ParseInt64_def parse_nat_def list_all_iff split: if_splits option.splits)

definition target_ok :: "string \<Rightarrow> string \<Rightarrow> string \<Rightarrow> bool" where
  "target_ok scheme uri addr \<longleftrightarrow> uri = scheme @ '':'' @ addr \<and>
     (\<exists>host port n. addr = JoinHostPort host port \<and> SplitHostPort addr = Inr (host, port) \<and> host \<noteq> [] \<and>
        ParseInt64 port = Some n \<and> 1 \<le> n \<and> n \<le> 65535) \<and> \<not> ContainsAny addr '';?'' \<and> \<not> Contains addr ''@''"

lemma set_JoinHostPort: "set (JoinHostPort host port) \<subseteq> {colon, lbracket, rbracket} \<union> set host \<union> set port"
  by (auto simp: JoinHostPort_def)

lemma parseProbeTarget_ok:
  assumes "parseProbeTarget raw scheme = Inr (uri, addr)"
  shows "target_ok scheme uri addr"
proof -
  define rest where "rest = drop (length (scheme @ '':'')) (TrimSpace raw)"
  have ok: "\<not> ContainsAny rest '';?''" "\<not> Contains rest ''@''"
    using assms unfolding parseProbeTarget_def Let_def rest_def [symmetric] by (auto split: if_split_asm)
  obtain host port where sp: "SplitHostPort rest = Inr (host, port)"
    using assms unfolding parseProbeTarget_def Let_def rest_def [symmetric]
    by (cases "SplitHostPort rest") (auto split: if_split_asm)
  have run: "(if host = [] then Inl TargetEmptyHost else case ParseInt64 port of None \<Rightarrow> Inl TargetPort
      | Some n \<Rightarrow> if n < 1 \<or> n > 65535 then Inl TargetPort
          else Inr (scheme @ '':'' @ JoinHostPort host port, JoinHostPort host port)) = Inr (uri, addr)"
    using assms ok unfolding parseProbeTarget_def Let_def rest_def [symmetric] sp by (simp split: if_split_asm)
  then have h: "host \<noteq> []" by (simp split: if_split_asm)
  obtain n where n0: "ParseInt64 port = Some n" using run h by (cases "ParseInt64 port") simp_all
  with run h have n: "ParseInt64 port = Some n" "1 \<le> n" "n \<le> 65535" by (simp_all split: if_split_asm)
  have r: "scheme @ '':'' @ JoinHostPort host port = uri \<and> JoinHostPort host port = addr" using run h n by (simp only: Inr_inject prod.inject option.case if_False append.simps not_less [symmetric] de_Morgan_disj [symmetric] simp_thms) blast
  have addr: "addr = JoinHostPort host port" by (rule sym [OF conjunct2 [OF r]])
  have uri: "uri = scheme @ '':'' @ addr" unfolding addr by (rule sym [OF conjunct1 [OF r]])
  have parts: "plain_host host \<and> plain_port port \<and> set host \<union> set port \<subseteq> set rest"
    using sp by (cases rule: SplitHostPort_cases) auto
  then have "SplitHostPort addr = Inr (host, port)" by (simp add: addr SplitHostPort_join)
  moreover have "set addr \<subseteq> {colon, lbracket, rbracket} \<union> set rest"
    using subset_trans [OF set_JoinHostPort] parts unfolding addr by blast
  then have "CHR '';'' \<notin> set addr" "CHR ''?'' \<notin> set addr" "CHR ''@'' \<notin> set addr"
    using ok by (auto simp: ContainsAny_def list_ex_iff Contains_single colon_def lbracket_def rbracket_def)
  then have "\<not> ContainsAny addr '';?''" "\<not> Contains addr ''@''"
    by (auto simp: ContainsAny_def list_ex_iff Contains_single)
  ultimately show ?thesis using h n addr uri unfolding target_ok_def by (intro conjI exI) assumption+
qed

lemma target_ok_fixed:
  assumes "target_ok scheme uri addr" and "scheme \<in> {''sip'', ''dns'', ''agw''}"
  shows "parseProbeTarget uri scheme = Inr (uri, addr)"
proof -
  obtain host port n where t: "addr = JoinHostPort host port" "SplitHostPort addr = Inr (host, port)" "host \<noteq> []"
      "ParseInt64 port = Some n" "1 \<le> n" "n \<le> 65535"
    and uri: "uri = scheme @ '':'' @ addr" and c: "\<not> ContainsAny addr '';?''" "\<not> Contains addr ''@''"
    using assms(1) unfolding target_ok_def by blast
  have p: "port \<noteq> []" "printable (last port)" using ParseInt64_last [OF t(4)] digit_printable by auto
  have "last uri = last port" using p(1) by (simp add: uri t(1) JoinHostPort_def)
  moreover have "uri \<noteq> []" "printable (hd uri)" using assms(2) by (auto simp: uri printable_def)
  ultimately have "TrimSpace uri = uri" using p(2) by (simp add: TrimSpace_printable)
  then show ?thesis
    using t c by (simp add: parseProbeTarget_def EqualFold_def uri Let_def)
qed

text \<open>C32. Normal form of probe targets: a target that is accepted is rewritten to its scheme, a colon and an
  address that splits into a non-empty host and a port from 1 to 65535 and joins back to itself, and
  parsing the rewritten target again gives the same result.\<close>

theorem parseProbeTarget_normalises:
  assumes "parseProbeTarget raw scheme = Inr (uri, addr)" and "scheme \<in> {''sip'', ''dns'', ''agw''}"
  shows "parseProbeTarget uri scheme = Inr (uri, addr) \<and> uri = scheme @ '':'' @ addr \<and>
    (\<exists>host port n. SplitHostPort addr = Inr (host, port) \<and> JoinHostPort host port = addr \<and> host \<noteq> [] \<and>
       ParseInt64 port = Some n \<and> 1 \<le> n \<and> n \<le> 65535)"
  using parseProbeTarget_ok [OF assms(1)] target_ok_fixed [OF _ assms(2)] unfolding target_ok_def by metis

lemma sample_target: "parseProbeTarget ''SIP:[::1]:5060'' ''sip'' = Inr (''sip:[::1]:5060'', ''[::1]:5060'')"
proof -
  have "TrimSpace ''SIP:[::1]:5060'' = ''SIP:[::1]:5060''" by (rule TrimSpace_printable) (simp_all add: printable_def)
  moreover have "SplitHostPort ''[::1]:5060'' = Inr (''::1'', ''5060'')"
    by (simp add: SplitHostPort_def split_host_def LastIndexByte_def IndexByte_def colon_def lbracket_def rbracket_def)
  moreover have "ParseInt64 ''5060'' = Some 5060"
    by (simp add: ParseInt64_def parse_nat_def is_digit_def digits_val_def digit_val_def)
  moreover have "EqualFold ''SIP:'' ''sip:''" by code_simp
  ultimately show ?thesis
    by (simp add: parseProbeTarget_def ContainsAny_def Contains_single
        JoinHostPort_def colon_def lbracket_def rbracket_def Let_def)
qed

theorem parseProbeTarget_normalises_witness:
  "parseProbeTarget ''sip:[::1]:5060'' ''sip'' = Inr (''sip:[::1]:5060'', ''[::1]:5060'')"
  using parseProbeTarget_normalises [OF sample_target] by simp

section \<open>What a loaded configuration satisfies\<close>

definition probed :: "service \<Rightarrow> bool" where
  "probed svc \<longleftrightarrow> probe_kinds svc \<noteq> []"

text \<open>
  An accepted service: a name without blanks; either no probe and no interval, or one probe with a
  positive interval whose target is in normal form and has the service's address.
\<close>

definition service_ok :: "service \<Rightarrow> bool" where
  "service_ok svc \<longleftrightarrow> sv_Name svc \<noteq> [] \<and> \<not> ContainsAny (sv_Name svc) [CHR '' '', CHR 0x09] \<and>
     (if probed svc
      then length (probe_kinds svc) = 1 \<and> 0 < sv_Interval svc \<and>
           (case probe_target svc of (uri, scheme) \<Rightarrow> target_ok scheme uri (sv_Addr svc))
      else sv_Interval svc = 0)"

definition remote_write_ok :: "remote_write_config \<Rightarrow> bool" where
  "remote_write_ok rw \<longleftrightarrow> 0 < rc_BatchSize rw \<and> 0 < rc_FlushInterval rw \<and> 0 < rc_RetryInterval rw \<and> 0 < rc_Timeout rw \<and>
     0 < rc_StateInterval rw \<and> rc_Checkpoint rw \<noteq> [] \<and>
     10 * Second \<le> rc_RecoveryFillInterval rw \<and> rc_RecoveryFillInterval rw \<le> 4 * Minute \<and>
     5 * Minute \<le> rc_RecoveryWindow rw \<and> rc_RecoveryWindow rw \<le> 60 * Minute \<and> Hour mod rc_RecoveryWindow rw = 0 \<and>
     list_all (\<lambda>(name, _). validLabelName name \<and> name \<noteq> ''__name__'') (rc_Labels rw) \<and>
     rc_Targets rw \<noteq> [] \<and> distinct (map rt_URL (rc_Targets rw)) \<and>
     list_all (\<lambda>t. rt_URL t \<noteq> [] \<and> rt_ID t = target_id (rt_URL t)) (rc_Targets rw)"

lemma check_service_ok:
  assumes "check_service i seen svc = Inr svc'"
  shows "service_ok svc' \<and> sv_Name svc' = sv_Name svc \<and> sv_Name svc \<notin> set seen"
proof -
  obtain target scheme where t: "probe_target svc = (target, scheme)" by (cases "probe_target svc")
  have g: "sv_Name svc \<noteq> []" "\<not> ContainsAny (sv_Name svc) [CHR '' '', CHR 0x09]" "sv_Name svc \<notin> set seen"
      "\<not> 1 < length (probe_kinds svc)"
    using assms by (auto simp: check_service_def split: if_split_asm)
  show ?thesis
  proof (cases "target = []")
    case True
    then have "probe_kinds svc = []" using t by (auto simp: probe_target_def probe_kinds_def split: if_split_asm)
    moreover have "svc' = svc" "sv_Interval svc = 0" using assms g True by (auto simp: check_service_def t split: if_split_asm)
    ultimately show ?thesis using g by (simp add: service_ok_def probed_def)
  next
    case False
    then obtain uri addr where p: "parseProbeTarget target scheme = Inr (uri, addr)" and i: "0 < sv_Interval svc"
      and s': "svc' = (if scheme = ''sip'' then svc\<lparr>sv_SIP := uri\<rparr>
          else if scheme = ''dns'' then svc\<lparr>sv_DNS := uri\<rparr> else svc\<lparr>sv_AGW := uri\<rparr>)\<lparr>sv_Addr := addr\<rparr>"
      using assms g by (cases "parseProbeTarget target scheme") (auto simp: check_service_def t split: if_split_asm)
    note ok = parseProbeTarget_ok [OF p]
    then have "uri \<noteq> []" by (simp add: target_ok_def)
    then have "probe_kinds svc' \<noteq> []" "length (probe_kinds svc') = 1" "probe_target svc' = (uri, scheme)"
      using t False g(4) s' by (auto simp: probe_target_def probe_kinds_def split: if_split_asm)
    then show ?thesis using g i s' ok by (auto simp: service_ok_def probed_def)
  qed
qed

lemma check_services_names: "check_services i seen svcs = Inr svcs' \<Longrightarrow> map sv_Name svcs' = map sv_Name svcs"
  by (induction i seen svcs arbitrary: svcs' rule: check_services.induct)
    (auto split: sum.splits dest: check_service_ok)

lemma check_services_ok:
  "check_services i seen svcs = Inr svcs' \<Longrightarrow>
   list_all service_ok svcs' \<and> distinct (map sv_Name svcs') \<and> set (map sv_Name svcs') \<inter> set seen = {}"
proof (induction i seen svcs arbitrary: svcs' rule: check_services.induct)
  case (2 i seen svc rest)
  then obtain svc' rest' where c: "check_service i seen svc = Inr svc'"
      "check_services (i + 1) (sv_Name svc # seen) rest = Inr rest'" "svcs' = svc' # rest'"
    by (auto split: sum.splits)
  from check_service_ok [OF c(1)] "2.IH" [OF c(1) c(2)] c(3) show ?case by auto
qed simp

lemma make_targets_ok:
  "make_targets cp legacy i seen urls = Inr ts \<Longrightarrow>
   length ts = length urls \<and> distinct (map rt_URL ts) \<and> set (map rt_URL ts) \<inter> set seen = {} \<and>
   list_all (\<lambda>t. rt_URL t \<noteq> [] \<and> rt_ID t = target_id (rt_URL t)) ts"
proof (induction cp legacy i seen urls arbitrary: ts rule: make_targets.induct)
  case (2 cp legacy i seen raw rest)
  let ?url = "TrimSpace raw"
  obtain ts' where c: "?url \<noteq> []" "?url \<notin> set seen" "make_targets cp legacy (i + 1) (?url # seen) rest = Inr ts'"
      "ts = make_target cp legacy i ?url # ts'"
    using "2.prems" by (auto simp: Let_def split: sum.splits if_split_asm)
  from "2.IH" [OF refl c(1,2,3)] c show ?case by (auto simp: make_target_def)
qed simp

lemma bad_label_none: "bad_label ls = None \<Longrightarrow> list_all (\<lambda>(name, _). validLabelName name \<and> name \<noteq> ''__name__'') ls"
  by (induction ls rule: bad_label.induct) (auto split: if_split_asm)

lemma check_ranges_ok:
  "check_ranges rw = Inr rw' \<Longrightarrow> rw' = rw \<and> 10 * Second \<le> rc_RecoveryFillInterval rw \<and> rc_RecoveryFillInterval rw \<le> 4 * Minute \<and>
     5 * Minute \<le> rc_RecoveryWindow rw \<and> rc_RecoveryWindow rw \<le> 60 * Minute \<and> Hour mod rc_RecoveryWindow rw = 0 \<and>
     list_all (\<lambda>(name, _). validLabelName name \<and> name \<noteq> ''__name__'') (rc_Labels rw)"
  using bad_label_none [of "rc_Labels rw"] by (simp add: check_ranges_def split: if_split_asm option.splits)

lemma load_remote_write_ok:
  assumes "load_remote_write rw0 = Inr rw" and "rc_Targets rw0 = []"
  shows "remote_write_ok rw \<and> rc_RecoveryWindow rw = rc_RecoveryWindow rw0"
proof -
  define legacy where "legacy = (rc_URLs rw0 = [] \<and> rc_URL rw0 \<noteq> [])"
  define urls where "urls = (if legacy then [rc_URL rw0] else rc_URLs rw0)"
  define d where "d = send_defaults rw0"
  note fold = legacy_def [symmetric] urls_def [symmetric] d_def [symmetric]
  have u: "urls \<noteq> []" using assms(1) unfolding load_remote_write_def Let_def fold by (auto split: if_split_asm)
  obtain ts where ts: "make_targets (rc_Checkpoint d) legacy 0 [] urls = Inr ts"
    using assms(1) u unfolding load_remote_write_def Let_def fold
    by (cases "make_targets (rc_Checkpoint d) legacy 0 [] urls") (auto split: if_split_asm)
  let ?rw = "d\<lparr>rc_Targets := rc_Targets d @ ts,
      rc_StateInterval := (if rc_StateInterval d \<le> 0 then Minute else rc_StateInterval d)\<rparr>"
  have "check_ranges ?rw = Inr rw"
    using assms(1) u unfolding load_remote_write_def Let_def fold ts sum.case by (simp split: if_split_asm)
  note r = check_ranges_ok [OF this]
  have "0 < rc_BatchSize ?rw \<and> 0 < rc_FlushInterval ?rw \<and> 0 < rc_RetryInterval ?rw \<and> 0 < rc_Timeout ?rw \<and>
     0 < rc_StateInterval ?rw \<and> rc_Checkpoint ?rw \<noteq> [] \<and> rc_Targets ?rw = ts \<and> rc_RecoveryWindow ?rw = rc_RecoveryWindow rw0"
    using assms(2) by (simp add: d_def send_defaults_def duration_defs)
  moreover have "ts \<noteq> []" using u make_targets_ok [OF ts] by auto
  ultimately show ?thesis
    using r make_targets_ok [OF ts] unfolding remote_write_ok_def by (metis (no_types, lifting))
qed

text \<open>C13. A configuration that \<open>Load\<close> accepts is usable: there is at least one service, unit names are distinct
  and without blanks, a service has at most one probe, with a positive interval and a target in normal
  form, all intervals are positive, and with remote write enabled the batch size and timeouts are
  positive, the receivers' URLs are distinct and not empty, the fill interval and the recovery window
  are in range, the window divides the hour and every label name is valid. The hypothesis is that the
  YAML library does not touch the field that is excluded from decoding.\<close>

theorem Load_establishes_invariants:
  assumes "Load yaml read = Inr c" and "\<And>data c0. yaml data = Inr c0 \<Longrightarrow> rc_Targets (cf_RemoteWrite c0) = []"
  shows "Units c \<noteq> [] \<and> distinct (Units c) \<and> list_all service_ok (cf_Services c) \<and> sc_Listen (cf_Server c) \<noteq> [] \<and>
    0 < sy_ReconnectInterval (cf_Systemd c) \<and> 0 < sy_ReconciliationInterval (cf_Systemd c) \<and>
    0 < sy_StartupRecoveryInterval (cf_Systemd c) \<and> 0 < rc_RecoveryFillInterval (cf_RemoteWrite c) \<and>
    0 < rc_RecoveryWindow (cf_RemoteWrite c) \<and> (rc_Enabled (cf_RemoteWrite c) \<longrightarrow> remote_write_ok (cf_RemoteWrite c))"
proof -
  obtain data c0 where y: "yaml data = Inr c0" "validate c0 = Inr c"
    using assms(1) by (auto simp: Load_def split: sum.splits)
  let ?c = "load_defaults c0"
  have s: "cf_Services ?c \<noteq> []" using y(2) by (auto simp: validate_def Let_def)
  obtain svcs where svcs: "check_services 0 [] (cf_Services ?c) = Inr svcs"
    using y(2) s by (cases "check_services 0 [] (cf_Services ?c)") (simp_all add: validate_def Let_def)
  define rw where "rw = recovery_defaults (cf_RemoteWrite ?c)"
  have rw: "rc_Targets rw = []" "0 < rc_RecoveryFillInterval rw" "0 < rc_RecoveryWindow rw"
    using assms(2) [OF y(1)] by (simp_all add: rw_def recovery_defaults_def load_defaults_def Let_def duration_defs)
  have c: "c = ?c\<lparr>cf_Services := svcs, cf_RemoteWrite := cf_RemoteWrite c\<rparr>"
    and r: "if rc_Enabled rw then load_remote_write rw = Inr (cf_RemoteWrite c) else cf_RemoteWrite c = rw"
    using y(2) s unfolding validate_def Let_def svcs
    by (auto simp: rw_def [symmetric] split: if_split_asm sum.splits)
  have ok: "rc_Enabled rw \<Longrightarrow> remote_write_ok (cf_RemoteWrite c)" using r rw load_remote_write_ok by simp
  have "Units c = map sv_Name svcs" "cf_Services c = svcs" by (subst c, simp add: Units_def)+
  moreover have "svcs \<noteq> []" using check_services_names [OF svcs] s by auto
  moreover have "cf_Server c = cf_Server ?c" "cf_Systemd c = cf_Systemd ?c" by (subst c, simp)+
  moreover have "0 < rc_RecoveryFillInterval (cf_RemoteWrite c)" "0 < rc_RecoveryWindow (cf_RemoteWrite c)"
    using r rw ok by (auto simp: remote_write_ok_def duration_defs split: if_split_asm)
  moreover have "rc_Enabled (cf_RemoteWrite c) \<Longrightarrow> remote_write_ok (cf_RemoteWrite c)" using r ok by (auto split: if_split_asm)
  ultimately show ?thesis
    using check_services_ok [OF svcs] by (simp add: load_defaults_def Let_def duration_defs)
qed

text \<open>A file with one probed service and two receivers.\<close>

definition sample_decoded :: config where
  "sample_decoded =
     \<lparr>cf_Server = \<lparr>sc_Listen = [], sc_Debug = False\<rparr>,
      cf_Services = [\<lparr>sv_Name = ''a.service'', sv_SIP = ''SIP:[::1]:5060'', sv_DNS = [], sv_AGW = [], sv_Addr = [],
                      sv_Interval = Second\<rparr>],
      cf_Systemd = \<lparr>sy_ReconnectInterval = 0, sy_ReconciliationInterval = 0, sy_StartupRecoveryInterval = 0\<rparr>,
      cf_WAL = \<lparr>wl_Enabled = True, wl_Directory = ''/w'', wl_Fsync = True\<rparr>,
      cf_RemoteWrite = \<lparr>rc_Enabled = True, rc_URL = [], rc_URLs = [''http://r'', ''http://s''], rc_BatchSize = 0,
        rc_FlushInterval = 0, rc_RetryInterval = 0, rc_Timeout = 0, rc_Checkpoint = [], rc_StateInterval = 0,
        rc_RecoveryFillInterval = 0, rc_RecoveryWindow = 0, rc_Labels = [(''zone'', ''a'')], rc_Targets = []\<rparr>\<rparr>"

lemma sample_load: "\<exists>c. Load (\<lambda>_. Inr sample_decoded) (Inr ''services'') = Inr c \<and> length (rc_Targets (cf_RemoteWrite c)) = 2"
proof -
  have t: "TrimSpace ''http://r'' = ''http://r''" "TrimSpace ''http://s'' = ''http://s''"
    by (rule TrimSpace_printable; simp add: printable_def)+
  have l: "validLabelName ''zone''" by code_simp
  show ?thesis
    using l by (simp add: Load_def validate_def load_defaults_def check_service_def probe_kinds_def probe_target_def sample_target
        recovery_defaults_def load_remote_write_def send_defaults_def check_ranges_def make_target_def t sample_decoded_def
        ContainsAny_def Let_def duration_defs)
qed

theorem Load_establishes_invariants_witness:
  "\<exists>c. Load (\<lambda>_. Inr sample_decoded) (Inr ''services'') = Inr c \<and> distinct (Units c) \<and> remote_write_ok (cf_RemoteWrite c)"
proof -
  obtain c where c: "Load (\<lambda>_. Inr sample_decoded) (Inr ''services'') = Inr c" "length (rc_Targets (cf_RemoteWrite c)) = 2"
    using sample_load by blast
  have e: "rc_Enabled (cf_RemoteWrite c)"
  proof (rule ccontr)
    assume "\<not> rc_Enabled (cf_RemoteWrite c)"
    then show False using c
      by (auto simp: Load_def validate_def load_defaults_def recovery_defaults_def sample_decoded_def Let_def load_remote_write_def
          check_ranges_def send_defaults_def split: sum.splits if_split_asm option.splits)
  qed
  from Load_establishes_invariants [OF c(1)] e c(1) show ?thesis by (auto simp: sample_decoded_def)
qed

text \<open>
  With remote write disabled the range checks are skipped, so a window that does not divide the hour is
  accepted although recovery uses it.
\<close>

lemma disabled_remote_write_skips_window_check:
  "\<exists>c c'. rc_RecoveryWindow (cf_RemoteWrite c) = 7 * Minute \<and> Hour mod (7 * Minute) \<noteq> 0 \<and> validate c = Inr c' \<and>
     rc_RecoveryWindow (cf_RemoteWrite c') = 7 * Minute"
proof -
  let ?c = "sample_decoded\<lparr>cf_RemoteWrite := (cf_RemoteWrite sample_decoded)\<lparr>rc_Enabled := False, rc_RecoveryWindow := 7 * Minute\<rparr>\<rparr>"
  show ?thesis
    by (rule exI [of _ ?c]) (simp add: validate_def load_defaults_def check_service_def probe_kinds_def probe_target_def sample_target
        recovery_defaults_def sample_decoded_def ContainsAny_def Let_def duration_defs)
qed

section \<open>Probe intervals\<close>

lemma whole_milliseconds:
  assumes "0 < n" and "n * 10 ^ 6 < 2 ^ 53"
  shows "\<exists>m e. ParseFloat (show_nat n) = Inr (Fin m e) \<and>
     int64_of_f64 outside (f64_mul (Fin m e) (f64_of_int Millisecond)) = int n * Millisecond"
proof -
  have "n \<le> n * 10 ^ 6" by simp
  with assms(2) have "n < 2 ^ 53" by linarith
  then obtain m e where r: "f64_round False n 1 = Fin m e" "0 < m" "real_of_int m * 2 powi e = real n"
    using f64_round_whole [of 1 n n] assms(1) by auto
  have "digits_val (show_nat n @ []) = n" by (simp add: digits_val_show)
  with ParseFloat_digits [OF show_nat_digits show_nat_nonempty, of "[]" "show_nat n" n] r(1)
  have p: "ParseFloat (show_nat n) = Inr (Fin m e)" by simp
  obtain b f where s: "f64_of_int Millisecond = Fin b f" "0 < b" "real_of_int b * 2 powi f = 10 ^ 6"
    using f64_of_int_whole [of Millisecond] by (auto simp: Millisecond_def)
  obtain q g where q: "f64_mul (Fin m e) (Fin b f) = Fin q g" "0 < q" "real_of_int q * 2 powi g = real (n * 10 ^ 6)"
    using f64_mul_whole [OF r(2) s(2), of e f "n * 10 ^ 6"] assms(2) by (auto simp: r(3) s(3))
  have "f64_trunc q g = int (n * 10 ^ 6)" unfolding f64_trunc_floor [OF q(2)] q(3) by (rule floor_of_nat)
  then have "int64_of_f64 outside (Fin q g) = int n * Millisecond"
    using assms(2) by (simp add: int64_of_f64_def Millisecond_def)
  with p q(1) s(1) show ?thesis by auto
qed

text \<open>C37. The two ways of writing a probe interval agree: a bare number of milliseconds, which goes through the
  float parser and a multiplication of floats, gives exactly the duration that the same number with the
  unit \<open>ms\<close> gives, for every whole number up to \<open>2^53\<close> nanoseconds, about a hundred days.\<close>

theorem interval_forms_agree:
  assumes "n * 10 ^ 6 < 2 ^ 53" and "tag \<noteq> ''!!int''" and "tag \<noteq> ''!!float''"
  shows "probeEvery_UnmarshalYAML outside ScalarNode ''!!int'' (show_nat n) =
     probeEvery_UnmarshalYAML outside ScalarNode tag (show_nat n @ ''ms'')"
proof -
  have ms: "(''ms'', 10 ^ 6) \<in> set unitMap" by (simp add: unitMap_def)
  have dur: "ParseDuration outside (show_nat n @ ''ms'') = Inr (int n * Millisecond)"
    using ParseDuration_whole [OF ms, of n outside] assms(1) by (simp add: Millisecond_def)
  have "printable (hd (show_nat n))" using hd_show_nat [of n] by (simp add: is_digit_def printable_def)
  then have trim: "TrimSpace (show_nat n @ ''ms'') = show_nat n @ ''ms''"
    by (intro TrimSpace_printable) (simp_all add: hd_append, simp add: printable_def)
  show ?thesis
  proof (cases "n = 0")
    case True
    obtain b f where "f64_of_int Millisecond = Fin b f" using f64_of_int_whole [of Millisecond] by (auto simp: Millisecond_def)
    moreover have "ParseFloat (show_nat 0) = Inr (Fin 0 0)"
      using ParseFloat_digits [OF show_nat_digits show_nat_nonempty, of "[]" "show_nat 0" 0]
      by (simp add: digits_val_show f64_round_def)
    ultimately show ?thesis using True dur trim assms(2,3)
      by (simp add: probeEvery_UnmarshalYAML_def f64_round_def f64_make_def scale2_def int64_of_f64_def f64_trunc_def)
  next
    case False
    with whole_milliseconds [of n outside] assms dur trim show ?thesis by (auto simp: probeEvery_UnmarshalYAML_def)
  qed
qed

theorem interval_forms_agree_witness:
  "probeEvery_UnmarshalYAML (\<lambda>_. 0) ScalarNode ''!!int'' (show_nat 700) =
     probeEvery_UnmarshalYAML (\<lambda>_. 0) ScalarNode ''!!str'' (show_nat 700 @ ''ms'')"
  using interval_forms_agree [of 700 "''!!str''" "\<lambda>_. 0"] by simp

end
