(* ===== verification/Systemd.thy ===== *)
theory Systemd
  imports Model GoFloat
begin

text \<open>
  The D-Bus monitor, \<open>internal/systemd\<close>: reading a unit's properties into a snapshot, the signal loop of
  \<open>Monitor.Run\<close> and the connection life cycle of \<open>RunResilient\<close>.

  The bus itself, \<open>godbus\<close>, is not part of the program: what a call returns is a value of the environment
  of a round or of a monitor event. Handlers are functions on an arbitrary state, so that the same loop
  serves the exporter and the traces of the properties below; \<open>main\<close> passes all four, so the tests
  against nil are left out. Iterating over a map uses an order given by the environment.
\<close>

section \<open>Snapshots\<close>

text \<open>The dynamic types of a variant that the code distinguishes.\<close>

datatype variant = VString string | VUint64 uint64 | VInt64 int | VUint32 "32 word" | VOther string

type_synonym properties = "(string \<times> variant) list"

datatype snapshot_error =
    PropertyMissing string string | PropertyType string string | GetAllError string string | DecodeError string string

fun asUint64 :: "variant \<Rightarrow> uint64" where
  "asUint64 (VUint64 x) = x"
| "asUint64 (VInt64 x) = (if x \<ge> 0 then of_int x else 0)"
| "asUint64 (VUint32 x) = ucast x"
| "asUint64 _ = 0"

fun variant_type :: "variant \<Rightarrow> string" where
  "variant_type (VString _) = ''string''"
| "variant_type (VUint64 _) = ''uint64''"
| "variant_type (VInt64 _) = ''int64''"
| "variant_type (VUint32 _) = ''uint32''"
| "variant_type (VOther t) = t"

definition text_property :: "string \<Rightarrow> properties \<Rightarrow> string \<Rightarrow> snapshot_error + string" where
  "text_property service props name =
     (case map_of props name of None \<Rightarrow> Inl (PropertyMissing name service)
      | Some v \<Rightarrow> (case v of VString s \<Rightarrow> Inr s | _ \<Rightarrow> Inl (PropertyType name (variant_type v))))"

definition timestamp_property :: "string \<Rightarrow> properties \<Rightarrow> string \<Rightarrow> snapshot_error + uint64" where
  "timestamp_property service props name =
     (case map_of props name of None \<Rightarrow> Inl (PropertyMissing name service) | Some v \<Rightarrow> Inr (asUint64 v))"

definition sum_bind :: "'e + 'a \<Rightarrow> ('a \<Rightarrow> 'e + 'b) \<Rightarrow> 'e + 'b" where
  "sum_bind x f = (case x of Inl e \<Rightarrow> Inl e | Inr a \<Rightarrow> f a)"

lemma sum_bind_Inr: "sum_bind x f = Inr b \<longleftrightarrow> (\<exists>a. x = Inr a \<and> f a = Inr b)"
  by (auto simp: sum_bind_def split: sum.split)

definition snapshotFromProperties ::
  "string \<Rightarrow> string \<Rightarrow> go_time \<Rightarrow> properties \<Rightarrow> snapshot_error + unit_snapshot" where
  "snapshotFromProperties service bootID observedAt props =
     sum_bind (text_property service props ''ActiveState'') (\<lambda>activeState.
     sum_bind (text_property service props ''SubState'') (\<lambda>subState.
     sum_bind (timestamp_property service props ''ActiveEnterTimestamp'') (\<lambda>enter.
     sum_bind (timestamp_property service props ''ActiveExitTimestamp'') (\<lambda>exit.
     sum_bind (timestamp_property service props ''ActiveEnterTimestampMonotonic'') (\<lambda>enterMono.
     sum_bind (timestamp_property service props ''ActiveExitTimestampMonotonic'') (\<lambda>exitMono.
       Inr \<lparr>us_Service = service, us_ActiveState = activeState, us_SubState = subState,
            us_ActiveEnterTimestampUS = enter, us_ActiveExitTimestampUS = exit,
            us_ActiveEnterTimestampMonotonicUS = enterMono, us_ActiveExitTimestampMonotonicUS = exitMono,
            us_BootID = bootID, us_ObservedAt = observedAt\<rparr>))))))"

text \<open>The outcome of the \<open>GetAll\<close> call of one snapshot, and the time taken before it.\<close>

datatype call_outcome = CallFailed string | StoreFailed string | CallReply properties

record monitored_unit =
  un_path :: string
  un_service :: string

definition Snapshot :: "monitored_unit \<Rightarrow> string \<Rightarrow> go_time \<times> call_outcome \<Rightarrow> snapshot_error + unit_snapshot" where
  "Snapshot u bootID reply =
     (case snd reply of
        CallFailed e \<Rightarrow> Inl (GetAllError (un_service u) e)
      | StoreFailed e \<Rightarrow> Inl (DecodeError (un_service u) e)
      | CallReply props \<Rightarrow> snapshotFromProperties (un_service u) bootID (fst reply) props)"

definition interesting :: "properties \<Rightarrow> bool" where
  "interesting p \<longleftrightarrow> list_ex (\<lambda>(n, _). n \<in> set [''ActiveState'', ''SubState'', ''ActiveEnterTimestamp'', ''ActiveExitTimestamp'',
     ''ActiveEnterTimestampMonotonic'', ''ActiveExitTimestampMonotonic'']) p"

text \<open>\<open>Connect\<close> and \<open>Subscribe\<close> on the error of the bus, if any: each adds what it was doing.\<close>

fun Connect :: "string option \<Rightarrow> string option" where
  "Connect (Some e) = Some (''connect system bus: '' @ e)"
| "Connect None = None"

fun Subscribe :: "string option \<Rightarrow> string option" where
  "Subscribe (Some e) = Some (''AddMatch: '' @ e)"
| "Subscribe None = None"

text \<open>The baseline of the startup recovery: each unit is loaded and read; the first failure ends it.\<close>

datatype bus_error = BusConnect string | BusLoad string string | BusPath string | BusSnapshot snapshot_error

datatype load_outcome = LoadFailed string | PathFailed string | LoadPath string

fun LoadUnit :: "string \<Rightarrow> load_outcome \<Rightarrow> bus_error + monitored_unit" where
  "LoadUnit service (LoadFailed e) = Inl (BusLoad service e)"
| "LoadUnit service (PathFailed e) = Inl (BusPath e)"
| "LoadUnit service (LoadPath p) = Inr \<lparr>un_path = p, un_service = service\<rparr>"

fun current_states ::
  "(string \<Rightarrow> load_outcome) \<Rightarrow> (string \<Rightarrow> go_time \<times> call_outcome) \<Rightarrow> string list \<Rightarrow>
   (string \<Rightarrow> availability option) \<Rightarrow> bus_error + (string \<Rightarrow> availability option)" where
  "current_states load reply [] states = Inr states"
| "current_states load reply (service # rest) states =
     (case LoadUnit service (load service) of
        Inl e \<Rightarrow> Inl e
      | Inr u \<Rightarrow>
        (case Snapshot u [] (reply service) of
           Inl e \<Rightarrow> Inl (BusSnapshot e)
         | Inr s \<Rightarrow>
           current_states load reply rest (states(service \<mapsto> AvailabilityFromActiveState (us_ActiveState s)))))"

definition CurrentStates ::
  "string option \<Rightarrow> (string \<Rightarrow> load_outcome) \<Rightarrow> (string \<Rightarrow> go_time \<times> call_outcome) \<Rightarrow> string list \<Rightarrow>
   bus_error + (string \<Rightarrow> availability option)" where
  "CurrentStates connectErr load reply services =
     (case Connect connectErr of Some e \<Rightarrow> Inl (BusConnect e) | None \<Rightarrow> current_states load reply services Map.empty)"

text \<open>\<open>BootID\<close> on the outcome of reading \<open>/proc/sys/kernel/random/boot_id\<close>.\<close>

definition BootID :: "string + string \<Rightarrow> string + string" where
  "BootID read = (case read of Inl e \<Rightarrow> Inl (''read boot_id: '' @ e) | Inr b \<Rightarrow> Inr (CanonicalBootID b))"

text \<open>
  \<open>BootTime\<close>: the uptime in seconds, as a \<open>float64\<close>, is multiplied to nanoseconds and subtracted from the clock.
  \<open>outside\<close> is what the conversion of a float that no \<open>int64\<close> holds gives.
\<close>

definition BootTime :: "(float64 \<Rightarrow> int) \<Rightarrow> string + string \<Rightarrow> go_time \<Rightarrow> string + go_time" where
  "BootTime outside read now =
     (case read of Inl e \<Rightarrow> Inl (''read uptime: '' @ e)
      | Inr b \<Rightarrow>
        (case Fields b of [] \<Rightarrow> Inl ''invalid /proc/uptime''
         | f # _ \<Rightarrow>
           (case ParseFloat f of Inl e \<Rightarrow> Inl ''parse uptime''
            | Inr sec \<Rightarrow> Inr (now + wrap64 (- int64_of_f64 outside (f64_mul sec (f64_of_int Second)))))))"

section \<open>The monitor\<close>

type_synonym unit_map = "string \<Rightarrow> monitored_unit option"

definition NewMonitor :: unit_map where
  "NewMonitor = Map.empty"

definition AddUnit :: "monitored_unit \<Rightarrow> unit_map \<Rightarrow> unit_map" where
  "AddUnit u m = m(un_path u \<mapsto> u)"

text \<open>\<open>byService\<close>, visiting the paths in the given order.\<close>

fun byService :: "unit_map \<Rightarrow> string list \<Rightarrow> string \<Rightarrow> monitored_unit option" where
  "byService m [] s = None"
| "byService m (p # ps) s =
     (case m p of Some u \<Rightarrow> if un_service u = s then Some u else byService m ps s | None \<Rightarrow> byService m ps s)"

text \<open>
  What the \<open>select\<close> of the monitor receives. A reconciliation visits the units in some order, and each
  visit has its own reply; a signal has a name, a path and a body of which the first two elements
  matter: the interface, when it is a string, and the changed properties, when they are such a map.
\<close>

datatype monitor_event =
    MonCtxDone string
  | MonConnDone string
  | MonReconcile "(string \<times> go_time \<times> call_outcome) list"
  | MonSignalNil
  | MonSignal string string "(string option \<times> properties option) option" "go_time \<times> call_outcome"

datatype monitor_error = MonErrCtx string | MonErrConn string | MonErrClosed | MonErrSnapshot snapshot_error | MonErrHandler string

type_synonym 'e snapshot_handler = "unit_snapshot \<Rightarrow> 'e \<Rightarrow> string option \<times> 'e"

definition handle_unit ::
  "'e snapshot_handler \<Rightarrow> string \<Rightarrow> monitored_unit \<Rightarrow> go_time \<times> call_outcome \<Rightarrow> 'e \<Rightarrow> monitor_error option \<times> 'e" where
  "handle_unit onSnapshot bootID u reply e =
     (case Snapshot u bootID reply of
        Inl err \<Rightarrow> (Some (MonErrSnapshot err), e)
      | Inr s \<Rightarrow> (case onSnapshot s e of (err, e') \<Rightarrow> (map_option MonErrHandler err, e')))"

fun reconcile_units ::
  "'e snapshot_handler \<Rightarrow> string \<Rightarrow> unit_map \<Rightarrow> (string \<times> go_time \<times> call_outcome) list \<Rightarrow> 'e \<Rightarrow>
   monitor_error option \<times> 'e" where
  "reconcile_units h bootID m [] e = (None, e)"
| "reconcile_units h bootID m ((p, reply) # rest) e =
     (case m p of None \<Rightarrow> reconcile_units h bootID m rest e
      | Some u \<Rightarrow>
        (case handle_unit h bootID u reply e of
           (Some err, e') \<Rightarrow> (Some err, e')
         | (None, e') \<Rightarrow> reconcile_units h bootID m rest e'))"

definition propertiesChanged :: string where
  "propertiesChanged = ''org.freedesktop.DBus.Properties.PropertiesChanged''"

definition unitIface :: string where
  "unitIface = ''org.freedesktop.systemd1.Unit''"

definition on_signal ::
  "'e snapshot_handler \<Rightarrow> string \<Rightarrow> unit_map \<Rightarrow> string \<Rightarrow> string \<Rightarrow>
   (string option \<times> properties option) option \<Rightarrow> go_time \<times> call_outcome \<Rightarrow> 'e \<Rightarrow> monitor_error option \<times> 'e" where
  "on_signal h bootID m name path body reply e =
     (case body of None \<Rightarrow> (None, e)
      | Some (iface, props) \<Rightarrow>
        if name \<noteq> propertiesChanged then (None, e)
        else case m path of None \<Rightarrow> (None, e)
          | Some u \<Rightarrow>
            if iface \<noteq> Some unitIface then (None, e)
            else case props of None \<Rightarrow> (None, e)
              | Some p \<Rightarrow> if \<not> interesting p then (None, e) else handle_unit h bootID u reply e)"

text \<open>\<open>Run\<close>: the error it returns, or \<open>None\<close> when the listed events are used up and it goes on waiting.\<close>

fun Monitor_Run ::
  "'e snapshot_handler \<Rightarrow> string \<Rightarrow> unit_map \<Rightarrow> monitor_event list \<Rightarrow> 'e \<Rightarrow> monitor_error option \<times> 'e" where
  "Monitor_Run h bootID m [] e = (None, e)"
| "Monitor_Run h bootID m (MonCtxDone err # _) e = (Some (MonErrCtx err), e)"
| "Monitor_Run h bootID m (MonConnDone err # _) e = (Some (MonErrConn err), e)"
| "Monitor_Run h bootID m (MonReconcile visits # rest) e =
     (case reconcile_units h bootID m visits e of
        (Some err, e') \<Rightarrow> (Some err, e')
      | (None, e') \<Rightarrow> Monitor_Run h bootID m rest e')"
| "Monitor_Run h bootID m (MonSignalNil # _) e = (Some MonErrClosed, e)"
| "Monitor_Run h bootID m (MonSignal name path body reply # rest) e =
     (case on_signal h bootID m name path body reply e of
        (Some err, e') \<Rightarrow> (Some err, e')
      | (None, e') \<Rightarrow> Monitor_Run h bootID m rest e')"

section \<open>The connection life cycle\<close>

datatype conn_error =
    ConnConnect string | ConnLoad string bus_error | ConnSubscribe string | ConnRecovery string
  | ConnSnapshot string snapshot_error | ConnLost monitor_error

record 'e handlers =
  h_onSnapshot :: "'e snapshot_handler"
  h_onConnectionState :: "bool \<Rightarrow> go_time \<Rightarrow> 'e \<Rightarrow> 'e"
  h_onConnectionError :: "conn_error \<Rightarrow> 'e \<Rightarrow> 'e"
  h_onRecovery :: "go_time \<Rightarrow> go_time \<Rightarrow> 'e \<Rightarrow> string option \<times> 'e"

text \<open>The variables of \<open>RunResilient\<close>, and whether a connection is registered for the debug endpoint.\<close>

record resilient =
  rr_connectedOnce :: bool
  rr_disconnectedAt :: go_time
  rr_debugConn :: bool

definition resilient_start :: resilient where
  "resilient_start = \<lparr>rr_connectedOnce = False, rr_disconnectedAt = zero_time, rr_debugConn = False\<rparr>"

definition SetDebugDBus :: "bool \<Rightarrow> resilient \<Rightarrow> resilient" where
  "SetDebugDBus active r = r\<lparr>rr_debugConn := active\<rparr>"

text \<open>
  What one pass of the outer loop meets: the end of the context during the wait, the outcomes of the bus
  calls and of reading the boot id, the clock readings, the order in which \<open>byService\<close> visits the map, the
  events of the monitor and the state of the context afterwards.
\<close>

record round_env =
  re_waitErr :: "string option"
  re_connectErr :: "string option"
  re_ctxErr :: "string option"
  re_load :: "string \<Rightarrow> load_outcome"
  re_subscribeErr :: "string option"
  re_bootRead :: "string + string"
  re_until :: go_time
  re_order :: "string list"
  re_reply :: "string \<Rightarrow> go_time \<times> call_outcome"
  re_connectedAt :: go_time
  re_events :: "monitor_event list"
  re_ctxAfter :: "string option"
  re_lostAt :: go_time

datatype resilient_outcome = RrContinue | RrReturn string | RrMonitoring

fun load_units ::
  "(string \<Rightarrow> load_outcome) \<Rightarrow> string list \<Rightarrow> unit_map \<Rightarrow> conn_error + unit_map" where
  "load_units load [] m = Inr m"
| "load_units load (service # rest) m =
     (case LoadUnit service (load service) of
        Inl e \<Rightarrow> Inl (ConnLoad service e)
      | Inr u \<Rightarrow> load_units load rest (AddUnit u m))"

definition setup_monitor :: "round_env \<Rightarrow> string list \<Rightarrow> conn_error + unit_map" where
  "setup_monitor env services =
     (case load_units (re_load env) services NewMonitor of
        Inl e \<Rightarrow> Inl e
      | Inr m \<Rightarrow> (case Subscribe (re_subscribeErr env) of Some e \<Rightarrow> Inl (ConnSubscribe e) | None \<Rightarrow> Inr m))"

datatype snapshot_result = SnapsDone | SnapsFailed conn_error | SnapsHandler string

fun initial_snapshots ::
  "'e snapshot_handler \<Rightarrow> round_env \<Rightarrow> string \<Rightarrow> unit_map \<Rightarrow> string list \<Rightarrow> 'e \<Rightarrow> snapshot_result \<times> 'e" where
  "initial_snapshots h env bootID m [] e = (SnapsDone, e)"
| "initial_snapshots h env bootID m (service # rest) e =
     (case byService m (re_order env) service of
        None \<Rightarrow> initial_snapshots h env bootID m rest e
      | Some u \<Rightarrow>
        (case Snapshot u bootID (re_reply env service) of
           Inl err \<Rightarrow> (SnapsFailed (ConnSnapshot service err), e)
         | Inr s \<Rightarrow>
           (case h s e of
              (Some err, e') \<Rightarrow> (SnapsHandler err, e')
            | (None, e') \<Rightarrow> initial_snapshots h env bootID m rest e')))"

text \<open>The gap is recovered before the snapshots; the mark is cleared whether or not that worked.\<close>

definition recover_gap :: "'e handlers \<Rightarrow> round_env \<Rightarrow> resilient \<Rightarrow> 'e \<Rightarrow> resilient \<times> 'e" where
  "recover_gap h env r e =
     (if IsZero (rr_disconnectedAt r) then (r, e)
      else case h_onRecovery h (rr_disconnectedAt r) (re_until env) e of
          (err, e') \<Rightarrow> (r\<lparr>rr_disconnectedAt := zero_time\<rparr>,
             (case err of None \<Rightarrow> e' | Some x \<Rightarrow> h_onConnectionError h (ConnRecovery x) e')))"

text \<open>The part of a pass that runs the monitor on a connection that is set up.\<close>

definition monitor_connection ::
  "'e handlers \<Rightarrow> round_env \<Rightarrow> string \<Rightarrow> unit_map \<Rightarrow> resilient \<Rightarrow> 'e \<Rightarrow> resilient_outcome \<times> resilient \<times> 'e" where
  "monitor_connection h env bootID m r e =
     (let e1 = h_onConnectionState h True (re_connectedAt env) e; r1 = r\<lparr>rr_connectedOnce := True\<rparr> in
      case Monitor_Run (h_onSnapshot h) bootID m (re_events env) e1 of
        (None, e2) \<Rightarrow> (RrMonitoring, r1, e2)
      | (Some err, e2) \<Rightarrow>
        let r2 = SetDebugDBus False r1 in
        case re_ctxAfter env of
          Some c \<Rightarrow> (RrReturn c, r2, e2)
        | None \<Rightarrow>
          let e3 = h_onConnectionState h False (re_lostAt env) e2
          in (RrContinue, r2\<lparr>rr_disconnectedAt := re_lostAt env\<rparr>, h_onConnectionError h (ConnLost err) e3))"

definition connected_round ::
  "'e handlers \<Rightarrow> string list \<Rightarrow> round_env \<Rightarrow> resilient \<Rightarrow> 'e \<Rightarrow> resilient_outcome \<times> resilient \<times> 'e" where
  "connected_round h services env r0 e =
     (let r = SetDebugDBus True r0 in
      case setup_monitor env services of
        Inl err \<Rightarrow> (RrContinue, SetDebugDBus False r, h_onConnectionError h err e)
      | Inr m \<Rightarrow>
        (case BootID (re_bootRead env) of
           Inl err \<Rightarrow> (RrReturn (''read boot id: '' @ err), SetDebugDBus False r, e)
         | Inr bootID \<Rightarrow>
           (case recover_gap h env r e of (r1, e1) \<Rightarrow>
            case initial_snapshots (h_onSnapshot h) env bootID m services e1 of
              (SnapsHandler err, e2) \<Rightarrow> (RrReturn err, SetDebugDBus False r1, e2)
            | (SnapsFailed err, e2) \<Rightarrow> (RrContinue, SetDebugDBus False r1, h_onConnectionError h err e2)
            | (SnapsDone, e2) \<Rightarrow> monitor_connection h env bootID m r1 e2)))"

definition resilient_round ::
  "'e handlers \<Rightarrow> string list \<Rightarrow> round_env \<Rightarrow> resilient \<Rightarrow> 'e \<Rightarrow> resilient_outcome \<times> resilient \<times> 'e" where
  "resilient_round h services env r e =
     (case (if rr_connectedOnce r then re_waitErr env else None) of
        Some c \<Rightarrow> (RrReturn c, r, e)
      | None \<Rightarrow>
        (case Connect (re_connectErr env) of
           Some err \<Rightarrow>
             (case re_ctxErr env of
                Some c \<Rightarrow> (RrReturn c, r, e)
              | None \<Rightarrow> (RrContinue, r, h_onConnectionError h (ConnConnect err) e))
         | None \<Rightarrow> connected_round h services env r e))"

text \<open>\<open>RunResilient\<close> over the passes it makes; it has not returned when the list is used up.\<close>

fun RunResilient ::
  "'e handlers \<Rightarrow> string list \<Rightarrow> round_env list \<Rightarrow> resilient \<Rightarrow> 'e \<Rightarrow> resilient_outcome \<times> resilient \<times> 'e" where
  "RunResilient h services [] r e = (RrContinue, r, e)"
| "RunResilient h services (env # rest) r e =
     (case resilient_round h services env r e of
        (RrContinue, r', e') \<Rightarrow> RunResilient h services rest r' e'
      | done \<Rightarrow> done)"

definition DebugDisconnect :: "resilient \<Rightarrow> bool" where
  "DebugDisconnect r = rr_debugConn r"

section \<open>Traces\<close>

text \<open>Handlers that record what \<open>RunResilient\<close> does; \<open>f\<close> and \<open>g\<close> decide which calls fail.\<close>

datatype action =
    ActSnapshot unit_snapshot | ActState bool go_time | ActError conn_error | ActRecovery go_time go_time

definition trace_snapshot :: "(unit_snapshot \<Rightarrow> action list \<Rightarrow> string option) \<Rightarrow> action list snapshot_handler" where
  "trace_snapshot f s acts = (f s acts, acts @ [ActSnapshot s])"

definition tracer ::
  "(unit_snapshot \<Rightarrow> action list \<Rightarrow> string option) \<Rightarrow> (go_time \<Rightarrow> go_time \<Rightarrow> action list \<Rightarrow> string option) \<Rightarrow> action list handlers" where
  "tracer f g =
     \<lparr>h_onSnapshot = trace_snapshot f,
      h_onConnectionState = (\<lambda>b t acts. acts @ [ActState b t]),
      h_onConnectionError = (\<lambda>err acts. acts @ [ActError err]),
      h_onRecovery = (\<lambda>a b acts. (g a b acts, acts @ [ActRecovery a b]))\<rparr>"

lemma tracer_simps [simp]:
  "h_onSnapshot (tracer f g) = trace_snapshot f"
  "h_onConnectionState (tracer f g) b t acts = acts @ [ActState b t]"
  "h_onConnectionError (tracer f g) err acts = acts @ [ActError err]"
  "h_onRecovery (tracer f g) t t2 acts = (g t t2 acts, acts @ [ActRecovery t t2])"
  by (simp_all add: tracer_def)

text \<open>
  The protocol of the handlers as an automaton: its state is the time of a disconnect that has not been
  recovered yet, zero when there is none, and \<open>None\<close> is a violation. Snapshots and connection reports
  happen only when no gap is open, a recovery only when one is, and then from the time it began.
\<close>

fun gap_step :: "go_time \<Rightarrow> action \<Rightarrow> go_time option" where
  "gap_step d (ActSnapshot s) = (if IsZero d then Some d else None)"
| "gap_step d (ActState True t) = (if IsZero d then Some d else None)"
| "gap_step d (ActState False t) = (if IsZero d then Some t else None)"
| "gap_step d (ActRecovery a b) = (if \<not> IsZero d \<and> a = d then Some zero_time else None)"
| "gap_step d (ActError e) = Some d"

fun gap_run :: "go_time \<Rightarrow> action list \<Rightarrow> go_time option" where
  "gap_run d [] = Some d"
| "gap_run d (a # as) = (case gap_step d a of None \<Rightarrow> None | Some d' \<Rightarrow> gap_run d' as)"

lemma gap_run_append:
  "gap_run d (xs @ ys) = (case gap_run d xs of None \<Rightarrow> None | Some d' \<Rightarrow> gap_run d' ys)"
  by (induction xs arbitrary: d) (auto split: option.split)

lemma gap_run_snoc: "gap_run d xs = Some d' \<Longrightarrow> gap_run d (xs @ [a]) = gap_step d' a"
  by (simp add: gap_run_append split: option.split)

lemma IsZero_zero [simp]: "IsZero zero_time"
  by (simp add: IsZero_def)

abbreviation no_gap :: "action list \<Rightarrow> bool" where
  "no_gap acts \<equiv> gap_run zero_time acts = Some zero_time"

lemma handle_unit_gap:
  "no_gap acts \<Longrightarrow> handle_unit (trace_snapshot f) bootID u reply acts = (err, acts') \<Longrightarrow> no_gap acts'"
  by (auto simp: handle_unit_def trace_snapshot_def gap_run_snoc split: sum.splits)

lemma reconcile_units_gap:
  "reconcile_units (trace_snapshot f) bootID m vs acts = (err, acts') \<Longrightarrow> no_gap acts \<Longrightarrow> no_gap acts'"
proof (induction vs arbitrary: acts)
  case (Cons v vs)
  obtain p reply where v: "v = (p, reply)" by (cases v)
  show ?case
  proof (cases "m p")
    case None
    then show ?thesis using Cons v by simp
  next
    case (Some u)
    obtain e1 log1 where h: "handle_unit (trace_snapshot f) bootID u reply acts = (e1, log1)"
      by (cases "handle_unit (trace_snapshot f) bootID u reply acts")
    have "no_gap log1" using handle_unit_gap [OF Cons.prems(2) h] .
    then show ?thesis using Cons Some h v by (cases e1) auto
  qed
qed simp

lemma on_signal_gap:
  "on_signal (trace_snapshot f) bootID m name path body reply acts = (err, acts') \<Longrightarrow> no_gap acts \<Longrightarrow> no_gap acts'"
  by (auto simp: on_signal_def dest: handle_unit_gap split: option.splits if_split_asm)

lemma Monitor_Run_gap:
  "Monitor_Run (trace_snapshot f) bootID m evs acts = (err, acts') \<Longrightarrow> no_gap acts \<Longrightarrow> no_gap acts'"
proof (induction evs arbitrary: acts)
  case (Cons ev evs)
  show ?case
  proof (cases ev)
    case (MonReconcile vs)
    obtain e1 log1 where h: "reconcile_units (trace_snapshot f) bootID m vs acts = (e1, log1)"
      by (cases "reconcile_units (trace_snapshot f) bootID m vs acts")
    have "no_gap log1" using reconcile_units_gap [OF h Cons.prems(2)] .
    then show ?thesis using Cons h MonReconcile by (cases e1) auto
  next
    case (MonSignal name path body reply)
    obtain e1 log1 where h: "on_signal (trace_snapshot f) bootID m name path body reply acts = (e1, log1)"
      by (cases "on_signal (trace_snapshot f) bootID m name path body reply acts")
    have "no_gap log1" using on_signal_gap [OF h Cons.prems(2)] .
    then show ?thesis using Cons h MonSignal by (cases e1) auto
  qed (use Cons in auto)
qed simp

lemma initial_snapshots_gap:
  "initial_snapshots (trace_snapshot f) env bootID m services acts = (res, acts') \<Longrightarrow> no_gap acts \<Longrightarrow> no_gap acts'"
proof (induction services arbitrary: acts)
  case (Cons service services)
  show ?case
  proof (cases "byService m (re_order env) service")
    case None
    then show ?thesis using Cons by simp
  next
    case (Some u)
    show ?thesis
    proof (cases "Snapshot u bootID (re_reply env service)")
      case (Inl err)
      then show ?thesis using Cons.prems Some by simp
    next
      case (Inr s)
      have "no_gap (acts @ [ActSnapshot s])" using Cons.prems(2) by (simp add: gap_run_snoc)
      then show ?thesis using Cons Some Inr by (cases "f s acts") (auto simp: trace_snapshot_def)
    qed
  qed
qed simp

text \<open>The mark of \<open>RunResilient\<close> is the state of the automaton after every pass.\<close>

definition tracks_gap :: "resilient \<Rightarrow> action list \<Rightarrow> bool" where
  "tracks_gap r acts \<longleftrightarrow> gap_run zero_time acts = Some (rr_disconnectedAt r)"

lemma recover_gap_tracks:
  assumes "recover_gap (tracer f g) env r acts = (r', acts')" and "tracks_gap r acts"
  shows "no_gap acts' \<and> rr_disconnectedAt r' = zero_time"
proof (cases "IsZero (rr_disconnectedAt r)")
  case True
  then show ?thesis using assms by (simp add: recover_gap_def tracks_gap_def IsZero_def)
next
  case False
  let ?acts = "acts @ [ActRecovery (rr_disconnectedAt r) (re_until env)]"
  have "no_gap ?acts" using assms(2) False by (simp add: tracks_gap_def gap_run_snoc)
  then show ?thesis
    using assms(1) False gap_run_snoc [of zero_time ?acts zero_time "ActError _"]
    by (auto simp: recover_gap_def split: option.splits)
qed

lemma monitor_connection_tracks:
  assumes "monitor_connection (tracer f g) env bootID m r acts = (out, r', acts')"
    and "no_gap acts" and "rr_disconnectedAt r = zero_time"
  shows "tracks_gap r' acts'"
proof -
  let ?acts = "acts @ [ActState True (re_connectedAt env)]"
  have 1: "no_gap ?acts" using assms(2) by (simp add: gap_run_snoc)
  obtain err log2 where run: "Monitor_Run (trace_snapshot f) bootID m (re_events env) ?acts = (err, log2)"
    by (cases "Monitor_Run (trace_snapshot f) bootID m (re_events env) ?acts")
  note 2 = Monitor_Run_gap [OF run 1]
  have 3: "gap_run zero_time (log2 @ [ActState False (re_lostAt env)]) = Some (re_lostAt env)"
    using 2 by (simp add: gap_run_snoc)
  have 4: "gap_run zero_time (log2 @ [ActState False (re_lostAt env), ActError x]) = Some (re_lostAt env)" for x
    using gap_run_snoc [OF 3, of "ActError x"] by simp
  show ?thesis
    using assms(1,3) run 2 4
    by (cases err) (auto simp: monitor_connection_def Let_def SetDebugDBus_def tracks_gap_def split: option.splits)
qed

lemma connected_round_tracks:
  assumes "connected_round (tracer f g) services env r acts = (out, r', acts')" and "tracks_gap r acts"
  shows "tracks_gap r' acts'"
proof -
  have err: "tracks_gap r1 (log1 @ [ActError x])" if "tracks_gap r1 log1" for r1 log1 x
    using that by (simp add: tracks_gap_def gap_run_snoc)
  have debug: "tracks_gap (SetDebugDBus b r1) log1 = tracks_gap r1 log1" for b r1 log1
    by (simp add: tracks_gap_def SetDebugDBus_def)
  show ?thesis
  proof (cases "setup_monitor env services")
    case (Inl x)
    then show ?thesis using assms err by (auto simp: connected_round_def Let_def debug)
  next
    case m: (Inr m)
    show ?thesis
    proof (cases "BootID (re_bootRead env)")
      case (Inl x)
      then show ?thesis using assms m by (auto simp: connected_round_def Let_def debug)
    next
      case b: (Inr bootID)
      obtain r1 log1 where r: "recover_gap (tracer f g) env (SetDebugDBus True r) acts = (r1, log1)"
        by (cases "recover_gap (tracer f g) env (SetDebugDBus True r) acts")
      obtain res log2 where s: "initial_snapshots (trace_snapshot f) env bootID m services log1 = (res, log2)"
        by (cases "initial_snapshots (trace_snapshot f) env bootID m services log1")
      have 1: "no_gap log1" "rr_disconnectedAt r1 = zero_time"
        using recover_gap_tracks [OF r] assms(2) by (simp_all add: debug)
      have 2: "no_gap log2" using initial_snapshots_gap [OF s 1(1)] .
      then have "tracks_gap r1 log2" using 1 by (simp add: tracks_gap_def)
      then show ?thesis
        using assms(1) err monitor_connection_tracks [OF _ 2 1(2)]
        by (cases res) (auto simp: connected_round_def Let_def m b r s debug)
    qed
  qed
qed

lemma resilient_round_tracks:
  "resilient_round (tracer f g) services env r acts = (out, r', acts') \<Longrightarrow> tracks_gap r acts \<Longrightarrow> tracks_gap r' acts'"
  using connected_round_tracks [of f g services env r acts out r' acts']
  by (auto simp: resilient_round_def tracks_gap_def gap_run_snoc split: option.splits)

lemma RunResilient_tracks:
  "RunResilient (tracer f g) services envs r acts = (out, r', acts') \<Longrightarrow> tracks_gap r acts \<Longrightarrow> tracks_gap r' acts'"
proof (induction envs arbitrary: r acts)
  case (Cons env envs)
  obtain o1 r1 log1 where h: "resilient_round (tracer f g) services env r acts = (o1, r1, log1)"
    by (cases "resilient_round (tracer f g) services env r acts")
  have "tracks_gap r1 log1" using resilient_round_tracks [OF h Cons.prems(2)] .
  then show ?case using Cons h by (cases o1) auto
qed simp

section \<open>Properties\<close>

text \<open>C10. Gaps are recovered first: whatever the bus, the clock and the handlers do, \<open>RunResilient\<close> reports a
  disconnect only after a connection, asks for a recovery exactly once for a reported disconnect and
  from its time, and between the two hands out no snapshot and reports no connection. The protocol is
  the automaton \<open>gap_run\<close>, which accepts every trace and ends in the value of the loop's variable.\<close>

theorem gap_recovered_before_snapshots:
  assumes "RunResilient (tracer f g) services envs resilient_start [] = (out, r, acts)"
  shows "gap_run zero_time acts = Some (rr_disconnectedAt r)"
  using RunResilient_tracks [OF assms] by (simp add: tracks_gap_def resilient_start_def)

definition sample_properties :: properties where
  "sample_properties = [(''ActiveState'', VString ''active''), (''SubState'', VString ''running''),
     (''ActiveEnterTimestamp'', VUint64 5000), (''ActiveExitTimestamp'', VInt64 4000),
     (''ActiveEnterTimestampMonotonic'', VUint32 50), (''ActiveExitTimestampMonotonic'', VOther ''bool'')]"

definition sample_unit_snapshot :: unit_snapshot where
  "sample_unit_snapshot = \<lparr>us_Service = ''a.service'', us_ActiveState = ''active'', us_SubState = ''running'',
     us_ActiveEnterTimestampUS = 5000, us_ActiveExitTimestampUS = 4000, us_ActiveEnterTimestampMonotonicUS = 50,
     us_ActiveExitTimestampMonotonicUS = 0, us_BootID = [], us_ObservedAt = 7\<rparr>"

definition sample_round :: "call_outcome \<Rightarrow> monitor_event list \<Rightarrow> round_env" where
  "sample_round reply evs = \<lparr>re_waitErr = None, re_connectErr = None, re_ctxErr = None, re_load = (\<lambda>_. LoadPath ''/u''),
     re_subscribeErr = None, re_bootRead = Inr [], re_until = 2000, re_order = [''/u''], re_reply = (\<lambda>_. (7, reply)),
     re_connectedAt = 8, re_events = evs, re_ctxAfter = None, re_lostAt = 1000\<rparr>"

text \<open>
  A connection that is lost, a second one on which the snapshot fails after the recovery, and a third.
\<close>

lemma sample_resilient_run:
  "\<exists>r. RunResilient (tracer (\<lambda>_ _. None) (\<lambda>_ _ _. None)) [''a.service'']
     [sample_round (CallReply sample_properties) [MonConnDone ''closed''], sample_round (CallFailed ''timeout'') [],
      sample_round (CallReply sample_properties) []] resilient_start [] =
   (RrMonitoring, r, [ActSnapshot sample_unit_snapshot, ActState True 8, ActState False 1000,
      ActError (ConnLost (MonErrConn ''closed'')), ActRecovery 1000 2000,
      ActError (ConnSnapshot ''a.service'' (GetAllError ''a.service'' ''timeout'')),
      ActSnapshot sample_unit_snapshot, ActState True 8])"
proof -
  have b: "CanonicalBootID [] = []" by code_simp
  show ?thesis
    by (simp add: resilient_round_def connected_round_def setup_monitor_def NewMonitor_def AddUnit_def BootID_def recover_gap_def
        monitor_connection_def Snapshot_def snapshotFromProperties_def sum_bind_def text_property_def timestamp_property_def
        trace_snapshot_def resilient_start_def SetDebugDBus_def sample_round_def sample_properties_def sample_unit_snapshot_def
        IsZero_def zero_time_def b Let_def)
qed

theorem gap_recovered_before_snapshots_witness:
  "\<exists>out r acts. RunResilient (tracer (\<lambda>_ _. None) (\<lambda>_ _ _. None)) [''a.service'']
     [sample_round (CallReply sample_properties) [MonConnDone ''closed''], sample_round (CallFailed ''timeout'') [],
      sample_round (CallReply sample_properties) []] resilient_start [] = (out, r, acts) \<and>
     ActRecovery 1000 2000 \<in> set acts \<and> gap_run zero_time acts = Some (rr_disconnectedAt r)"
proof -
  obtain r where run: "RunResilient (tracer (\<lambda>_ _. None) (\<lambda>_ _ _. None)) [''a.service'']
     [sample_round (CallReply sample_properties) [MonConnDone ''closed''], sample_round (CallFailed ''timeout'') [],
      sample_round (CallReply sample_properties) []] resilient_start [] =
   (RrMonitoring, r, [ActSnapshot sample_unit_snapshot, ActState True 8, ActState False 1000,
      ActError (ConnLost (MonErrConn ''closed'')), ActRecovery 1000 2000,
      ActError (ConnSnapshot ''a.service'' (GetAllError ''a.service'' ''timeout'')),
      ActSnapshot sample_unit_snapshot, ActState True 8])"
    using sample_resilient_run by blast
  then show ?thesis using gap_recovered_before_snapshots [OF run] by (intro exI conjI) auto
qed

text \<open>Two configured names of one unit share a path, and only the later one is monitored.\<close>

lemma aliased_unit_is_not_monitored:
  "\<exists>m. load_units (\<lambda>_. LoadPath ''/u'') [''alias.service'', ''a.service''] Map.empty = Inr m \<and>
     byService m [''/u''] ''alias.service'' = None"
  by (simp add: AddUnit_def)

section \<open>The precision of the boot time\<close>

text \<open>The first field of \<open>/proc/uptime\<close>: seconds and hundredths.\<close>

definition uptime_text :: "nat \<Rightarrow> nat \<Rightarrow> string" where
  "uptime_text s c = show_nat s @ ''.'' @ [digit_char (c div 10), digit_char (c mod 10)]"

lemma uptime_digits:
  assumes "c < 100"
  shows "ParseFloat (uptime_text s c) = (case f64_round False (s * 100 + c) 100 of Infty neg \<Rightarrow> Inl ErrRange | x \<Rightarrow> Inr x)"
proof -
  let ?fs = "[digit_char (c div 10), digit_char (c mod 10)]"
  have d: "is_digit (digit_char (c div 10))" "is_digit (digit_char (c mod 10))" using assms by simp_all
  have "digits_val (show_nat s @ ?fs) = digits_val ((show_nat s @ [digit_char (c div 10)]) @ [digit_char (c mod 10)])" by simp
  also have "\<dots> = 10 * (10 * s + c div 10) + c mod 10" using assms by (simp only: digits_val_append1 digits_val_show) simp
  finally have "digits_val (show_nat s @ ?fs) = s * 100 + c" by simp
  with ParseFloat_digits [OF show_nat_digits show_nat_nonempty, of ?fs "uptime_text s c" s] d show ?thesis
    by (simp add: uptime_text_def)
qed

lemma uptime_printable: "c < 100 \<Longrightarrow> list_all printable (uptime_text s c)"
proof -
  have p: "is_digit x \<Longrightarrow> printable x" for x by (simp add: is_digit_def printable_def)
  then have "list_all printable (show_nat s)" using show_nat_digits [of s] by (auto simp: list_all_iff)
  moreover assume "c < 100"
  ultimately show ?thesis using p by (simp add: uptime_text_def) (simp add: printable_def)
qed

text \<open>Two roundings and the cut of the fraction: at most a microsecond below \<open>2^32\<close> seconds.\<close>

lemma uptime_nanoseconds:
  assumes "0 < n" and "n < 100 * 2 ^ 32"
  shows "\<exists>m e x. f64_round False n 100 = Fin m e \<and> f64_mul (Fin m e) (f64_of_int Second) = x \<and>
     \<bar>int64_of_f64 outside x - int n * 10 ^ 7\<bar> \<le> 1000"
proof -
  define u :: real where "u = 2 powi (- 53)"
  define y where "y = real n / 100"
  have u: "0 < u" "u \<le> 1 / 9007199254740992" by (simp_all add: u_def power_int_minus)
  have y: "1 / 100 \<le> y" "y < 2 ^ 32" using assms by (simp_all add: y_def)
  have "(2::real) powi (- 1022) \<le> 2 powi (- 7)" "(2::real) powi 32 \<le> 2 powi 1023" by (rule power_int_increasing; simp)+
  with y have "2 powi (- 1022) \<le> real n / real 100" "real n / real 100 < 2 powi 1023"
    by (simp_all add: y_def power_int_minus)
  with f64_round_normal [OF assms(1), of 100] obtain m e where r: "f64_round False n 100 = Fin m e" "0 < m"
      "\<bar>real_of_int m * 2 powi e - y\<bar> \<le> y * u" unfolding y_def u_def by auto
  obtain b f where s: "f64_of_int Second = Fin b f" "0 < b" "real_of_int b * 2 powi f = 10 ^ 9"
    using f64_of_int_whole [of Second] by (auto simp: Second_def Millisecond_def)
  define v where "v = real_of_int m * 2 powi e"
  define z where "z = v * 10 ^ 9"
  have yu: "0 \<le> y * u" "y * u \<le> y / 9007199254740992" using y u by (simp_all add: mult_left_mono [of u "1 / 9007199254740992" y, simplified])
  have v: "y - y / 9007199254740992 \<le> v" "v \<le> y + y / 9007199254740992"
    using r(3) yu unfolding v_def [symmetric] by linarith+
  have z: "1 \<le> z" "z < 2 ^ 64" using v y unfolding z_def by simp_all
  obtain q g where p: "f64_mul (Fin m e) (Fin b f) = Fin q g" "0 < q" "\<bar>real_of_int q * 2 powi g - z\<bar> \<le> z * u"
    using f64_mul_error [OF r(2) s(2), of z e f] z unfolding s(3) z_def v_def u_def by auto
  define t where "t = real_of_int q * 2 powi g"
  have zu: "z * u \<le> z / 9007199254740992" using z u by (simp add: mult_left_mono [of u "1 / 9007199254740992" z, simplified])
  have t: "\<bar>t - z\<bar> \<le> z / 9007199254740992" using p(3) zu unfolding t_def by linarith
  have floor: "f64_trunc q g = \<lfloor>t\<rfloor>" using f64_trunc_floor [OF p(2)] by (simp add: t_def)
  have exact: "y * 10 ^ 9 = real_of_int (int n * 10 ^ 7)" by (simp add: y_def)
  have near: "\<bar>t - y * 10 ^ 9\<bar> \<le> 999" using t v y unfolding z_def abs_le_iff by simp
  have "0 \<le> t" "t < 2 ^ 63" using near y by simp_all
  then have rng: "- (2 ^ 63) \<le> \<lfloor>t\<rfloor>" "\<lfloor>t\<rfloor> < 2 ^ 63" by (simp_all add: floor_less_iff le_floor_iff)
  have "\<bar>real_of_int (\<lfloor>t\<rfloor> - int n * 10 ^ 7)\<bar> \<le> 1000"
    using near unfolding exact by (simp add: abs_le_iff) linarith
  then have "\<bar>\<lfloor>t\<rfloor> - int n * 10 ^ 7\<bar> \<le> 1000" by linarith
  with r(1) p(1) s(1) rng floor show ?thesis by (auto simp: int64_of_f64_def)
qed

text \<open>C36. The boot time is right to a microsecond. For every uptime below \<open>2^32\<close> seconds that the kernel reports, in
  seconds and hundredths, the value that goes through the decimal parser, a multiplication of floats and
  a conversion to an integer differs from the clock minus the exact uptime by at most 1000 nanoseconds;
  no branch fails and nothing overflows.\<close>

theorem BootTime_within_a_microsecond:
  assumes "s < 2 ^ 32" and "c < 100"
  shows "\<exists>t. BootTime outside (Inr (uptime_text s c @ '' '' @ rest)) now = Inr t \<and>
     \<bar>t - (now - (int s * Second + int c * (10 * Millisecond)))\<bar> \<le> 1000"
proof -
  let ?n = "s * 100 + c"
  obtain fs where fields: "Fields (uptime_text s c @ '' '' @ rest) = uptime_text s c # fs"
    using Fields_first [OF uptime_printable [OF assms(2)], of s rest] by (auto simp: uptime_text_def)
  have "\<exists>m e. f64_round False ?n 100 = Fin m e \<and>
      \<bar>int64_of_f64 outside (f64_mul (Fin m e) (f64_of_int Second)) - int ?n * 10 ^ 7\<bar> \<le> 1000"
  proof (cases "?n = 0")
    case True
    obtain b f where "f64_of_int Second = Fin b f" using f64_of_int_whole [of Second] by (auto simp: Second_def Millisecond_def)
    with True show ?thesis
      by (simp add: f64_round_def f64_make_def scale2_def int64_of_f64_def f64_trunc_def)
  next
    case False
    have "?n < 100 * 2 ^ 32" using assms by simp
    with uptime_nanoseconds [of ?n outside] False show ?thesis by blast
  qed
  then obtain m e where r: "f64_round False ?n 100 = Fin m e"
      "\<bar>int64_of_f64 outside (f64_mul (Fin m e) (f64_of_int Second)) - int ?n * 10 ^ 7\<bar> \<le> 1000" by blast
  let ?d = "int64_of_f64 outside (f64_mul (Fin m e) (f64_of_int Second))"
  have "\<bar>?d\<bar> < 2 ^ 63" using r(2) assms by (simp add: abs_le_iff abs_less_iff)
  then have "wrap64 (- ?d) = - ?d" by (intro wrap64_id) simp_all
  moreover have "ParseFloat (uptime_text s c) = Inr (Fin m e)" by (simp add: uptime_digits [OF assms(2)] r(1))
  ultimately have "BootTime outside (Inr (uptime_text s c @ '' '' @ rest)) now = Inr (now - ?d)"
    by (simp add: BootTime_def fields del: append_Cons)
  moreover have "int s * Second + int c * (10 * Millisecond) = int ?n * 10 ^ 7" by (simp add: Second_def Millisecond_def)
  ultimately show ?thesis using r(2) by simp
qed

theorem BootTime_within_a_microsecond_witness:
  "\<exists>t. BootTime (\<lambda>_. 0) (Inr (uptime_text 86461 7 @ '' 345844.28'')) 1700000000000000000 = Inr t \<and>
     \<bar>t - 1699913538930000000\<bar> \<le> 1000"
  using BootTime_within_a_microsecond [of 86461 7 "\<lambda>_. 0" "''345844.28''" 1700000000000000000]
  by (simp add: Second_def Millisecond_def)

end
