(* ===== verification/Probes.thy ===== *)
theory Probes
  imports GoNet Sha256 Model
begin

text \<open>
  The readiness probes, \<open>internal/sip\<close>, \<open>internal/dns\<close> and \<open>internal/agw\<close>. The three packages have the same
  \<open>Prober\<close>, so it is modelled once, from \<open>sip/probe.go\<close>, and the other two are named after it; the requests
  and the recognition of an answer differ and are modelled separately.

  A prober's goroutines are the map \<open>pr_threads\<close> from run identifiers to the service and whether the context
  of the run has ended; \<open>pr_done\<close> says whether the context that all runs derive from has. \<open>Stop\<close> releases the
  mutex before it cancels, so it is two steps, \<open>unregister\<close> and \<open>cancel_run\<close>. One attempt is a function of what the socket does: the outcomes of the calls in order
  and the packets that arrive before the deadline. Log output is left out.
\<close>

section \<open>The prober\<close>

record probe =
  pb_Service :: string
  pb_URI :: string
  pb_Addr :: string
  pb_Interval :: duration

record prober =
  pr_probes :: "string \<Rightarrow> probe option"
  pr_running :: "string \<Rightarrow> uint64 option"
  pr_next :: uint64
  pr_threads :: "uint64 \<Rightarrow> (string \<times> bool) option"
  pr_done :: bool

definition Prober_New :: "probe list \<Rightarrow> prober" where
  "Prober_New probes =
     \<lparr>pr_probes = fold (\<lambda>p m. m(pb_Service p \<mapsto> p)) probes Map.empty, pr_running = Map.empty, pr_next = 0,
      pr_threads = Map.empty, pr_done = False\<rparr>"

definition Start :: "string \<Rightarrow> prober \<Rightarrow> prober" where
  "Start service p =
     (if pr_running p service \<noteq> None then p
      else case pr_probes p service of
          None \<Rightarrow> p
        | Some _ \<Rightarrow>
          let rid = pr_next p + 1 in
          p\<lparr>pr_next := rid, pr_running := (pr_running p)(service \<mapsto> rid),
            pr_threads := (pr_threads p)(rid \<mapsto> (service, pr_done p))\<rparr>)"

text \<open>The part of \<open>Stop\<close> under the mutex, which returns \<open>current\<close>; \<open>cancel\<close> marks the run, if it has not ended.\<close>

definition unregister :: "string \<Rightarrow> prober \<Rightarrow> uint64 option \<times> prober" where
  "unregister service p = (pr_running p service, p\<lparr>pr_running := (pr_running p)(service := None)\<rparr>)"

definition cancel_run :: "uint64 \<Rightarrow> prober \<Rightarrow> prober" where
  "cancel_run rid p =
     (case pr_threads p rid of None \<Rightarrow> p
      | Some (service, _) \<Rightarrow> p\<lparr>pr_threads := (pr_threads p)(rid \<mapsto> (service, True))\<rparr>)"

definition Stop :: "string \<Rightarrow> prober \<Rightarrow> prober" where
  "Stop service p =
     (case unregister service p of
        (None, p1) \<Rightarrow> p1
      | (Some rid, p1) \<Rightarrow> cancel_run rid p1)"

definition finish :: "string \<Rightarrow> uint64 \<Rightarrow> prober \<Rightarrow> prober" where
  "finish service rid p =
     (if pr_running p service = Some rid then p\<lparr>pr_running := (pr_running p)(service := None)\<rparr> else p)"

text \<open>The goroutine of a run returns from \<open>runProbe\<close>, for whatever reason, and its deferred \<open>finish\<close> runs.\<close>

definition run_ends :: "uint64 \<Rightarrow> prober \<Rightarrow> prober" where
  "run_ends rid p =
     (case pr_threads p rid of None \<Rightarrow> p
      | Some (service, _) \<Rightarrow> finish service rid (p\<lparr>pr_threads := (pr_threads p)(rid := None)\<rparr>))"

text \<open>The end of the parent context cancels every run.\<close>

definition ctx_ends :: "prober \<Rightarrow> prober" where
  "ctx_ends p = p\<lparr>pr_done := True, pr_threads := (\<lambda>i. map_option (\<lambda>(service, _). (service, True)) (pr_threads p i))\<rparr>"

text \<open>
  The atomic steps of any number of callers and of the goroutines. The second component holds the runs
  that a call of \<open>Stop\<close> has unregistered and not yet cancelled.
\<close>

inductive prober_step :: "prober \<times> uint64 list \<Rightarrow> prober \<times> uint64 list \<Rightarrow> bool" where
  step_start: "prober_step (p, ks) (Start service p, ks)"
| step_unregister: "unregister service p = (Some rid, p') \<Longrightarrow> prober_step (p, ks) (p', rid # ks)"
| step_cancel: "rid \<in> set ks \<Longrightarrow> prober_step (p, ks) (cancel_run rid p, remove1 rid ks)"
| step_ends: "prober_step (p, ks) (run_ends rid p, ks)"
| step_ctx: "prober_step (p, ks) (ctx_ends p, ks)"

text \<open>The states a prober reaches in a number of steps.\<close>

inductive prober_reach :: "nat \<Rightarrow> prober \<times> uint64 list \<Rightarrow> bool" where
  reach_new: "prober_reach 0 (Prober_New probes, [])"
| reach_step: "prober_reach n c \<Longrightarrow> prober_step c c' \<Longrightarrow> prober_reach (Suc n) c'"

text \<open>\<open>internal/dns/probe.go\<close> and \<open>internal/agw/probe.go\<close> repeat these operations.\<close>

definition dns_New :: "probe list \<Rightarrow> prober" where "dns_New = Prober_New"
definition dns_Start :: "string \<Rightarrow> prober \<Rightarrow> prober" where "dns_Start = Start"
definition dns_Stop :: "string \<Rightarrow> prober \<Rightarrow> prober" where "dns_Stop = Stop"
definition dns_unregister :: "string \<Rightarrow> prober \<Rightarrow> uint64 option \<times> prober" where "dns_unregister = unregister"
definition dns_cancel_run :: "uint64 \<Rightarrow> prober \<Rightarrow> prober" where "dns_cancel_run = cancel_run"
definition agw_unregister :: "string \<Rightarrow> prober \<Rightarrow> uint64 option \<times> prober" where "agw_unregister = unregister"
definition agw_cancel_run :: "uint64 \<Rightarrow> prober \<Rightarrow> prober" where "agw_cancel_run = cancel_run"
definition dns_finish :: "string \<Rightarrow> uint64 \<Rightarrow> prober \<Rightarrow> prober" where "dns_finish = finish"
definition agw_New :: "probe list \<Rightarrow> prober" where "agw_New = Prober_New"
definition agw_Start :: "string \<Rightarrow> prober \<Rightarrow> prober" where "agw_Start = Start"
definition agw_Stop :: "string \<Rightarrow> prober \<Rightarrow> prober" where "agw_Stop = Stop"
definition agw_finish :: "string \<Rightarrow> uint64 \<Rightarrow> prober \<Rightarrow> prober" where "agw_finish = finish"

section \<open>Byte strings\<close>

text \<open>The length of the white space a string begins with, 0 if it begins with something else.\<close>

definition space_at :: "string \<Rightarrow> nat" where
  "space_at s = (case s of [] \<Rightarrow> 0 | c # _ \<Rightarrow> if c \<in> set ascii_spaces then 1 else space_len wide_spaces s)"

text \<open>\<open>bytes.Fields\<close>, with the field read so far.\<close>

function fields_from :: "string \<Rightarrow> string \<Rightarrow> string list" where
  "fields_from cur [] = (if cur = [] then [] else [cur])"
| "fields_from cur (c # s) =
     (if space_at (c # s) = 0 then fields_from (cur @ [c]) s
      else (if cur = [] then [] else [cur]) @ fields_from [] (drop (space_at (c # s)) (c # s)))"
  by pat_completeness auto
termination
  by (relation "measure (\<lambda>(cur, s). length s)") auto

definition Fields :: "string \<Rightarrow> string list" where
  "Fields s = fields_from [] s"

text \<open>\<open>bytes.Split\<close> and \<open>bytes.Cut\<close> at a one-byte separator.\<close>

fun split_byte :: "char \<Rightarrow> string \<Rightarrow> string list" where
  "split_byte c [] = [[]]"
| "split_byte c (x # s) =
     (if x = c then [] # split_byte c s
      else case split_byte c s of [] \<Rightarrow> [[x]] | l # ls \<Rightarrow> (x # l) # ls)"

definition Cut :: "string \<Rightarrow> char \<Rightarrow> string \<times> string \<times> bool" where
  "Cut s c =
     (case IndexByte s c of Some i \<Rightarrow> (take i s, drop (i + 1) s, True) | None \<Rightarrow> (s, [], False))"

section \<open>SIP: OPTIONS and its answer\<close>

record sip_message =
  sm_CallID :: string
  sm_Bytes :: string

text \<open>\<open>token\<close> on the outcome of \<open>rand.Read\<close>, eight bytes or an error.\<close>

definition token :: "string + nat list \<Rightarrow> string + string" where
  "token raw = (case raw of Inl e \<Rightarrow> Inl e | Inr buf \<Rightarrow> Inr (hex_string buf))"

definition crlf :: string where
  "crlf = [CHR 0x0D, CHR 0x0A]"

definition options_text :: "string \<Rightarrow> string \<Rightarrow> int \<Rightarrow> int \<Rightarrow> string \<Rightarrow> string \<Rightarrow> string \<Rightarrow> string" where
  "options_text uri host localPort cseq callID branch tag =
     ''OPTIONS '' @ uri @ '' SIP/2.0'' @ crlf @
     ''Via: SIP/2.0/UDP '' @ host @ '':'' @ show_int localPort @ '';branch=z9hG4bK'' @ branch @ '';rport'' @ crlf @
     ''From: <sip:systemd-transition-exporter@'' @ host @ ''>;tag='' @ tag @ crlf @
     ''To: <'' @ uri @ ''>'' @ crlf @
     ''Call-ID: '' @ callID @ crlf @
     ''CSeq: '' @ show_int cseq @ '' OPTIONS'' @ crlf @
     ''Max-Forwards: 70'' @ crlf @
     ''Content-Length: 0'' @ crlf @ crlf"

definition Options ::
  "string \<Rightarrow> string \<Rightarrow> int \<Rightarrow> int \<Rightarrow> string + nat list \<Rightarrow> string + nat list \<Rightarrow> string + nat list \<Rightarrow> string + sip_message" where
  "Options uri localHost localPort cseq r1 r2 r3 =
     (case token r1 of Inl e \<Rightarrow> Inl e
      | Inr callID \<Rightarrow>
        (case token r2 of Inl e \<Rightarrow> Inl e
         | Inr branch \<Rightarrow>
           (case token r3 of Inl e \<Rightarrow> Inl e
            | Inr tag \<Rightarrow>
              let host = (if Contains localHost '':'' \<and> \<not> HasPrefix localHost ''['' then ''['' @ localHost @ '']'' else localHost)
              in Inr \<lparr>sm_CallID = callID, sm_Bytes = options_text uri host localPort cseq callID branch tag\<rparr>)))"

definition is_call_id :: "string \<Rightarrow> bool" where
  "is_call_id name \<longleftrightarrow> EqualFold (TrimSpace name) ''Call-ID'' \<or> name = ''i''"

fun call_id_line :: "string \<Rightarrow> string list \<Rightarrow> bool" where
  "call_id_line callID [] \<longleftrightarrow> False"
| "call_id_line callID (raw # rest) \<longleftrightarrow>
     (case Cut (TrimSpace raw) colon of (name, val, found) \<Rightarrow>
        if \<not> found then call_id_line callID rest
        else if is_call_id name then TrimSpace val = callID
        else call_id_line callID rest)"

definition status_ok :: "string \<Rightarrow> bool" where
  "status_ok packet \<longleftrightarrow>
     (let fs = Fields (TrimSpace (fst (Cut packet nl))) in
      length fs \<ge> 2 \<and> EqualFold (fs ! 0) ''SIP/2.0'' \<and> ParseInt64 (fs ! 1) = Some 200)"

definition IsOK :: "string \<Rightarrow> string \<Rightarrow> bool" where
  "IsOK packet callID \<longleftrightarrow> status_ok packet \<and> call_id_line callID (split_byte nl packet)"

section \<open>DNS: a CHAOS query and its answer\<close>

definition PutUint16 :: "uint16 \<Rightarrow> string" where
  "PutUint16 x = [char_of (unat x div 256), char_of (unat x mod 256)]"

definition Uint16 :: "string \<Rightarrow> uint16" where
  "Uint16 s = of_nat (256 * of_char (s ! 0) + of_char (s ! 1))"

definition version_bind :: string where
  "version_bind = [CHR 0x07] @ ''version'' @ [CHR 0x04] @ ''bind'' @ [CHR 0x00]"

definition typeTXT :: uint16 where "typeTXT = 16"
definition classCHAOS :: uint16 where "classCHAOS = 3"

text \<open>\<open>Query\<close> on the two random bytes it reads, or on the error of reading them.\<close>

definition Query :: "string + string \<Rightarrow> string + (uint16 \<times> string)" where
  "Query raw =
     (case raw of Inl e \<Rightarrow> Inl e
      | Inr r \<Rightarrow>
        let rid = Uint16 r in
        Inr (rid, PutUint16 rid @ [CHR 0x00, CHR 0x00] @ PutUint16 1 @ replicate 6 (CHR 0x00) @ version_bind @
                 PutUint16 typeTXT @ PutUint16 classCHAOS))"

definition Answered :: "string \<Rightarrow> uint16 \<Rightarrow> bool" where
  "Answered packet rid \<longleftrightarrow>
     length packet \<ge> 12 \<and> Uint16 (take 2 packet) = rid \<and> 128 \<le> (of_char (packet ! 2) :: nat)"

section \<open>AGW: ping and pong\<close>

definition agw_command :: string where "agw_command = ''d7:command4:pinge''"
definition agw_result :: string where "agw_result = ''d6:result4:ponge''"

text \<open>\<open>Ping\<close> on the process id and the counter; it returns the token, the packet and the counter.\<close>

definition Ping :: "int \<Rightarrow> uint64 \<Rightarrow> string \<times> string \<times> uint64" where
  "Ping pid seq =
     (let n = seq + 1; tok = ''0_'' @ show_int pid @ ''_'' @ show_nat (unat n)
      in (tok, tok @ '' '' @ agw_command, n))"

definition IsPong :: "string \<Rightarrow> string \<Rightarrow> bool" where
  "IsPong packet tok \<longleftrightarrow>
     (let prefix = tok @ '' '' in HasPrefix packet prefix \<and> Contains (drop (length prefix) packet) agw_result)"

section \<open>One attempt and the probe loop\<close>

text \<open>
  What a read returns: an error, with whether the context has ended and whether it is the deadline, or a
  packet, with the clock after it and whether that is before the deadline. When the list is used up the
  deadline passes.
\<close>

datatype read_event = ReadErr "string option" bool string | ReadPacket string go_time bool

datatype probe_result = ProbeAnswered go_time | ProbeFailed "string option"

fun read_loop_probe :: "(string \<Rightarrow> bool) \<Rightarrow> read_event list \<Rightarrow> probe_result" where
  "read_loop_probe accepts [] = ProbeFailed None"
| "read_loop_probe accepts (ReadErr ctxErr timeout err # _) =
     (case ctxErr of Some c \<Rightarrow> ProbeFailed (Some c)
      | None \<Rightarrow> if timeout then ProbeFailed None else ProbeFailed (Some err))"
| "read_loop_probe accepts (ReadPacket packet now before # rest) =
     (if accepts packet then ProbeAnswered now
      else if \<not> before then ProbeFailed None
      else read_loop_probe accepts rest)"

record attempt_env =
  at_ctxBefore :: bool
  at_resolveErr :: "string option"
  at_dialErr :: "string option"
  at_local :: "(string \<times> int) option"
  at_random :: "string + nat list" 
  at_random2 :: "string + nat list"
  at_random3 :: "string + nat list"
  at_rawID :: "string + string"
  at_pid :: int
  at_seq :: uint64
  at_writeErr :: "string option"
  at_reads :: "read_event list"
  at_ctxAfter :: bool

text \<open>The calls before the request is built, which the three packages share.\<close>

definition open_socket :: "attempt_env \<Rightarrow> string option" where
  "open_socket env = (case at_resolveErr env of Some e \<Rightarrow> Some e | None \<Rightarrow> at_dialErr env)"

definition exchange :: "attempt_env \<Rightarrow> (string \<Rightarrow> bool) \<Rightarrow> probe_result" where
  "exchange env accepts =
     (case at_writeErr env of Some e \<Rightarrow> ProbeFailed (Some e) | None \<Rightarrow> read_loop_probe accepts (at_reads env))"

definition sip_probeOnce :: "probe \<Rightarrow> int \<Rightarrow> attempt_env \<Rightarrow> probe_result" where
  "sip_probeOnce probe cseq env =
     (case open_socket env of Some e \<Rightarrow> ProbeFailed (Some e)
      | None \<Rightarrow>
        (case at_local env of None \<Rightarrow> ProbeFailed (Some ''local sip address is not udp'')
         | Some (ip, port) \<Rightarrow>
           (case Options (pb_URI probe) ip port cseq (at_random env) (at_random2 env) (at_random3 env) of
              Inl e \<Rightarrow> ProbeFailed (Some e)
            | Inr m \<Rightarrow> exchange env (\<lambda>packet. IsOK packet (sm_CallID m)))))"

definition dns_probeOnce :: "attempt_env \<Rightarrow> probe_result" where
  "dns_probeOnce env =
     (case open_socket env of Some e \<Rightarrow> ProbeFailed (Some e)
      | None \<Rightarrow>
        (case Query (at_rawID env) of
           Inl e \<Rightarrow> ProbeFailed (Some e)
         | Inr (rid, _) \<Rightarrow> exchange env (\<lambda>packet. Answered packet rid)))"

definition agw_probeOnce :: "attempt_env \<Rightarrow> probe_result" where
  "agw_probeOnce env =
     (case open_socket env of Some e \<Rightarrow> ProbeFailed (Some e)
      | None \<Rightarrow> (case Ping (at_pid env) (at_seq env) of (tok, _, _) \<Rightarrow> exchange env (\<lambda>packet. IsPong packet tok)))"

datatype run_result = RunStopped | RunReady go_time | RunProbing

text \<open>
  \<open>runProbe\<close> over the attempts it makes: stopped, ready at a time, or still probing when they are used up.
  The request number counts the attempts; the loop never ends by itself without an answer.
\<close>

fun run_attempts :: "(int \<Rightarrow> attempt_env \<Rightarrow> probe_result) \<Rightarrow> int \<Rightarrow> attempt_env list \<Rightarrow> run_result" where
  "run_attempts once cseq [] = RunProbing"
| "run_attempts once cseq (env # rest) =
     (if at_ctxBefore env then RunStopped
      else case once cseq env of
          ProbeAnswered t \<Rightarrow> RunReady t
        | ProbeFailed _ \<Rightarrow> if at_ctxAfter env then RunStopped else run_attempts once (cseq + 1) rest)"

definition sip_runProbe :: "probe \<Rightarrow> attempt_env list \<Rightarrow> run_result" where
  "sip_runProbe probe envs = run_attempts (sip_probeOnce probe) 1 envs"

definition dns_runProbe :: "attempt_env list \<Rightarrow> run_result" where
  "dns_runProbe envs = run_attempts (\<lambda>_. dns_probeOnce) 1 envs"

definition agw_runProbe :: "attempt_env list \<Rightarrow> run_result" where
  "agw_runProbe envs = run_attempts (\<lambda>_. agw_probeOnce) 1 envs"

section \<open>One loop per service\<close>

text \<open>
  A registered run is a goroutine of its service, cancelled only with the parent context; a goroutine that
  is not cancelled is registered or a \<open>Stop\<close> is about to cancel it; every identifier was issued.
\<close>

definition prober_inv :: "nat \<Rightarrow> prober \<times> uint64 list \<Rightarrow> bool" where
  "prober_inv n c \<longleftrightarrow> (case c of (p, ks) \<Rightarrow> unat (pr_next p) \<le> n \<and>
     (\<forall>s i. pr_running p s = Some i \<longrightarrow> pr_threads p i = Some (s, pr_done p) \<and> i \<notin> set ks) \<and>
     (\<forall>s i. pr_threads p i = Some (s, False) \<longrightarrow> \<not> pr_done p \<and> (pr_running p s = Some i \<or> i \<in> set ks)) \<and>
     distinct ks \<and> (\<forall>i \<in> set ks. unat i \<le> unat (pr_next p)) \<and>
     (\<forall>i. pr_threads p i \<noteq> None \<longrightarrow> unat i \<le> unat (pr_next p)))"

lemma prober_inv_registered:
  "prober_inv n (p, ks) \<Longrightarrow> pr_running p s = Some i \<Longrightarrow> pr_threads p i = Some (s, pr_done p) \<and> i \<notin> set ks"
  by (simp add: prober_inv_def)

lemma prober_inv_live:
  "prober_inv n (p, ks) \<Longrightarrow> pr_threads p i = Some (s, False) \<Longrightarrow> \<not> pr_done p \<and> (pr_running p s = Some i \<or> i \<in> set ks)"
  by (simp add: prober_inv_def)

lemma prober_inv_issued:
  "prober_inv n (p, ks) \<Longrightarrow> pr_threads p i \<noteq> None \<or> i \<in> set ks \<Longrightarrow> unat i \<le> unat (pr_next p)"
  by (auto simp: prober_inv_def)

lemma prober_invI:
  assumes "unat (pr_next p) \<le> n"
    and "\<And>s i. pr_running p s = Some i \<Longrightarrow> pr_threads p i = Some (s, pr_done p) \<and> i \<notin> set ks"
    and "\<And>s i. pr_threads p i = Some (s, False) \<Longrightarrow> \<not> pr_done p \<and> (pr_running p s = Some i \<or> i \<in> set ks)"
    and "distinct ks" and "\<And>i. pr_threads p i \<noteq> None \<or> i \<in> set ks \<Longrightarrow> unat i \<le> unat (pr_next p)"
  shows "prober_inv n (p, ks)"
  using assms unfolding prober_inv_def prod.case by blast

lemma Start_inv:
  assumes "prober_inv n (p, ks)" and "Suc n < 2 ^ 64"
  shows "prober_inv (Suc n) (Start service p, ks)"
proof (cases "pr_running p service = None \<and> pr_probes p service \<noteq> None")
  case False
  then have "Start service p = p" by (auto simp: Start_def)
  then show ?thesis using assms(1) by (simp add: prober_inv_def)
next
  case True
  let ?i = "pr_next p + 1"
  have nx: "unat ?i = Suc (unat (pr_next p))"
    using assms by (intro unat_Suc_no_wrap) (simp add: prober_inv_def)
  have "\<not> unat ?i \<le> unat (pr_next p)" using nx by simp
  then have fresh: "pr_threads p ?i = None" "?i \<notin> set ks" using assms(1) unfolding prober_inv_def by blast+
  have ids: "pr_threads p i \<noteq> None \<Longrightarrow> unat i \<le> Suc (unat (pr_next p))"
    "i \<in> set ks \<Longrightarrow> unat i \<le> Suc (unat (pr_next p))" for i
    using assms(1) by (auto simp: prober_inv_def le_Suc_eq)
  have p': "Start service p = p\<lparr>pr_next := ?i, pr_running := (pr_running p)(service \<mapsto> ?i),
      pr_threads := (pr_threads p)(?i \<mapsto> (service, pr_done p))\<rparr>" using True by (auto simp: Start_def Let_def)
  have none: "pr_threads p i = Some (service, False) \<Longrightarrow> i \<in> set ks" for i
    using prober_inv_live [OF assms(1), of i service] True by simp
  show ?thesis
    using assms(1) nx fresh True ids none unfolding p' by (auto simp: prober_inv_def split: if_split_asm)
qed

lemma unregister_inv:
  assumes "prober_inv n (p, ks)" and "unregister service p = (Some i, p')"
  shows "prober_inv (Suc n) (p', i # ks)"
proof -
  have i: "pr_running p service = Some i" and p': "p' = p\<lparr>pr_running := (pr_running p)(service := None)\<rparr>"
    using assms(2) by (auto simp: unregister_def)
  note reg = prober_inv_registered [OF assms(1)]
  have own: "s = service" if "pr_running p s = Some i" for s
    using reg [OF that] reg [OF i] by simp
  have rest: "j = i \<or> j \<in> set ks" if "pr_threads p j = Some (service, False)" for j
    using prober_inv_live [OF assms(1) that] i by auto
  show ?thesis
  proof (rule prober_invI)
    show "unat (pr_next p') \<le> Suc n" "distinct (i # ks)" using assms(1) reg [OF i] by (simp_all add: p' prober_inv_def)
  next
    fix s j
    show "pr_threads p' j = Some (s, pr_done p') \<and> j \<notin> set (i # ks)" if "pr_running p' s = Some j"
      using that reg [of s j] own [of s] by (auto simp: p' split: if_split_asm)
    show "\<not> pr_done p' \<and> (pr_running p' s = Some j \<or> j \<in> set (i # ks))" if "pr_threads p' j = Some (s, False)"
      using that prober_inv_live [OF assms(1), of j s] rest [of j] by (auto simp: p')
    show "unat j \<le> unat (pr_next p')" if "pr_threads p' j \<noteq> None \<or> j \<in> set (i # ks)"
      using that prober_inv_issued [OF assms(1), of j] reg [OF i] by (auto simp: p')
  qed
qed

lemma cancel_run_inv:
  assumes "prober_inv n (p, ks)" and "i \<in> set ks"
  shows "prober_inv (Suc n) (cancel_run i p, remove1 i ks)"
proof (cases "pr_threads p i")
  case None
  then show ?thesis using assms by (auto simp: prober_inv_def cancel_run_def)
next
  case (Some x)
  then have p': "cancel_run i p = p\<lparr>pr_threads := (pr_threads p)(i \<mapsto> (fst x, True))\<rparr>"
    by (simp add: cancel_run_def split: prod.split)
  have "pr_running p s \<noteq> Some i" for s using assms by (auto simp: prober_inv_def)
  then show ?thesis using assms Some unfolding p' by (auto simp: prober_inv_def)
qed

lemma run_ends_frame [simp]:
  "pr_next (run_ends i p) = pr_next p" "pr_done (run_ends i p) = pr_done p"
  "pr_threads (run_ends i p) = (pr_threads p)(i := None)"
  by (auto simp: run_ends_def finish_def fun_eq_iff split: option.split)

lemma run_ends_running:
  assumes "prober_inv n (p, ks)"
  shows "pr_running (run_ends i p) s = (if pr_running p s = Some i then None else pr_running p s)"
proof (cases "pr_running p s = Some i")
  case True
  with prober_inv_registered [OF assms True] show ?thesis by (simp add: run_ends_def finish_def)
next
  case False
  then show ?thesis by (auto simp: run_ends_def finish_def split: option.split)
qed

lemma run_ends_inv:
  assumes "prober_inv n (p, ks)"
  shows "prober_inv (Suc n) (run_ends i p, ks)"
proof (rule prober_invI)
  show "unat (pr_next (run_ends i p)) \<le> Suc n" "distinct ks" using assms by (simp_all add: prober_inv_def)
next
  fix s j
  show "pr_threads (run_ends i p) j = Some (s, pr_done (run_ends i p)) \<and> j \<notin> set ks"
    if "pr_running (run_ends i p) s = Some j"
    using that prober_inv_registered [OF assms, of s j] by (auto simp: run_ends_running [OF assms] split: if_split_asm)
  show "\<not> pr_done (run_ends i p) \<and> (pr_running (run_ends i p) s = Some j \<or> j \<in> set ks)"
    if "pr_threads (run_ends i p) j = Some (s, False)"
    using that prober_inv_live [OF assms, of j s] by (auto simp: run_ends_running [OF assms] split: if_split_asm)
  show "unat j \<le> unat (pr_next (run_ends i p))" if "pr_threads (run_ends i p) j \<noteq> None \<or> j \<in> set ks"
    using that prober_inv_issued [OF assms, of j] by (simp split: if_split_asm)
qed

lemma ctx_ends_inv: "prober_inv n (p, ks) \<Longrightarrow> prober_inv (Suc n) (ctx_ends p, ks)"
  by (auto simp: prober_inv_def ctx_ends_def)

lemma prober_reach_inv: "prober_reach n c \<Longrightarrow> n < 2 ^ 64 \<Longrightarrow> prober_inv n c"
proof (induction rule: prober_reach.induct)
  case (reach_new probes)
  then show ?case by (simp add: prober_inv_def Prober_New_def)
next
  case (reach_step n c c')
  then have "prober_inv n c" by simp
  with reach_step(2,4) show ?case
    by (cases rule: prober_step.cases)
      (auto intro: Start_inv unregister_inv cancel_run_inv run_ends_inv ctx_ends_inv)
qed

text \<open>C12. At most one probe loop per service, up to a \<open>Stop\<close> under way. In every state a prober reaches in fewer
  than two to the power 64 steps, in any interleaving of \<open>Start\<close>, of the two halves of \<open>Stop\<close>, of the ends of
  its goroutines and of the end of the parent context: a registered run is a goroutine of its service that
  is cancelled only with the parent context; a goroutine that is not cancelled is registered, or a call of
  \<open>Stop\<close> has unregistered it and is about to cancel it; so of two goroutines of one service that are not
  cancelled one has such a \<open>Stop\<close> pending; starting a service that has a registered run changes nothing; and
  the end of an older run does not unregister a newer one.\<close>

theorem one_probe_loop_per_service:
  assumes "prober_reach n (p, ks)" and "n < 2 ^ 64"
  shows "(\<forall>s i. pr_running p s = Some i \<longrightarrow> pr_threads p i = Some (s, pr_done p)) \<and>
    (\<forall>s i. pr_threads p i = Some (s, False) \<longrightarrow> pr_running p s = Some i \<or> i \<in> set ks) \<and>
    (\<forall>s i j. pr_threads p i = Some (s, False) \<and> pr_threads p j = Some (s, False) \<and> i \<noteq> j \<longrightarrow> i \<in> set ks \<or> j \<in> set ks) \<and>
    (\<forall>s i. pr_running p s = Some i \<longrightarrow> Start s p = p) \<and>
    (\<forall>s i j. pr_running p s = Some i \<and> j \<noteq> i \<longrightarrow> pr_running (run_ends j p) s = Some i)"
proof -
  have inv: "prober_inv n (p, ks)" using prober_reach_inv [OF assms] .
  then have live: "pr_running p s = Some i \<or> i \<in> set ks" if "pr_threads p i = Some (s, False)" for s i
    using that by (auto simp: prober_inv_def)
  have "i \<in> set ks \<or> j \<in> set ks"
    if "pr_threads p i = Some (s, False)" "pr_threads p j = Some (s, False)" "i \<noteq> j" for s i j
    using live [OF that(1)] live [OF that(2)] that(3) by auto
  moreover have "pr_running (run_ends j p) s = Some i" if "pr_running p s = Some i" "j \<noteq> i" for s i j
    using that by (auto simp: run_ends_def finish_def split: option.split)
  moreover have "pr_threads p i = Some (s, pr_done p)" if "pr_running p s = Some i" for s i
    using inv that by (auto simp: prober_inv_def)
  ultimately show ?thesis using live by (simp add: Start_def)
qed

definition sample_probe :: probe where
  "sample_probe = \<lparr>pb_Service = ''a.service'', pb_URI = ''sip:10.0.0.1:5060'', pb_Addr = ''10.0.0.1:5060'', pb_Interval = Second\<rparr>"

text \<open>A second run started between the two halves of a \<open>Stop\<close>: two goroutines run, and the first is about to be cancelled.\<close>

theorem one_probe_loop_per_service_witness:
  "\<exists>p ks. prober_reach 3 (p, ks) \<and> pr_threads p 1 = Some (''a.service'', False) \<and> pr_threads p 2 = Some (''a.service'', False) \<and>
     (1 \<in> set ks \<or> 2 \<in> set ks) \<and> pr_running (run_ends 1 p) ''a.service'' = Some 2"
proof -
  let ?p1 = "Start ''a.service'' (Prober_New [sample_probe])"
  let ?p2 = "snd (unregister ''a.service'' ?p1)"
  let ?p3 = "Start ''a.service'' ?p2"
  have "prober_reach (Suc 0) (?p1, [])" by (rule reach_step [OF reach_new step_start])
  moreover have "unregister ''a.service'' ?p1 = (Some 1, ?p2)"
    by (simp add: unregister_def Start_def Prober_New_def sample_probe_def Let_def)
  ultimately have "prober_reach (Suc (Suc 0)) (?p2, [1])" by (blast intro: reach_step step_unregister)
  then have r: "prober_reach 3 (?p3, [1])" using reach_step step_start by (fastforce simp: numeral_eq_Suc)
  have "pr_threads ?p3 1 = Some (''a.service'', False)" "pr_threads ?p3 2 = Some (''a.service'', False)"
    "pr_running ?p3 ''a.service'' = Some 2"
    by (simp_all add: unregister_def Start_def Prober_New_def sample_probe_def Let_def)
  with r one_probe_loop_per_service [OF r] show ?thesis by (intro exI [of _ ?p3] exI [of _ "[1]"]) simp
qed

section \<open>Answers identify their request\<close>

lemma call_id_line_unique: "call_id_line a ls \<Longrightarrow> call_id_line b ls \<Longrightarrow> a = b"
  by (induction ls) (auto split: prod.splits if_split_asm)

lemma token_no_space: "CHR '' '' \<notin> set (fst (Ping pid seq))"
proof -
  have "CHR '' '' \<notin> set (show_nat n)" for n
    using show_nat_digits [of n] by (auto simp: list_all_iff is_digit_def)
  then show ?thesis by (auto simp: Ping_def Let_def show_int_def)
qed

lemma HasPrefix_append: "HasPrefix s p \<longleftrightarrow> (\<exists>r. s = p @ r)"
  by (auto simp: HasPrefix_def) (metis append_take_drop_id)

lemma prefix_takeWhile:
  "HasPrefix s (a @ '' '') \<Longrightarrow> CHR '' '' \<notin> set a \<Longrightarrow> takeWhile (\<lambda>x. x \<noteq> CHR '' '') s = a"
  by (auto simp: HasPrefix_append takeWhile_tail takeWhile_absent)

lemma prefix_at_space:
  "HasPrefix s (a @ '' '') \<Longrightarrow> HasPrefix s (b @ '' '') \<Longrightarrow> CHR '' '' \<notin> set a \<Longrightarrow> CHR '' '' \<notin> set b \<Longrightarrow> a = b"
  using prefix_takeWhile [of s a] prefix_takeWhile [of s b] by simp

lemma pong_accepted: "IsPong (fst (Ping pid seq) @ '' '' @ agw_result) (fst (Ping pid seq))"
  using Contains_append [of "[]" agw_result "[]"] by (simp add: IsPong_def HasPrefix_def Let_def)

lemma ping_is_no_pong: "\<not> IsPong (fst (snd (Ping pid seq))) (fst (Ping pid seq))"
proof -
  have "\<not> Contains agw_command agw_result" by code_simp
  then show ?thesis by (simp add: IsPong_def Ping_def Let_def)
qed

lemma Uint16_Put: "Uint16 (PutUint16 x) = x"
proof -
  have "unat x < 65536" using unsigned_less [of x] by simp
  then have "256 * (unat x div 256 mod 256) + unat x mod 256 = unat x" by simp
  then show ?thesis by (simp add: Uint16_def PutUint16_def)
qed

lemma unat_Uint16: "unat (Uint16 x) = 256 * of_char (x ! 0) + of_char (x ! 1)"
proof -
  have "256 * of_char (x ! 0) + of_char (x ! 1) < (65536 :: nat)"
    using nat_of_char_less_256 [of "x ! 0"] nat_of_char_less_256 [of "x ! 1"] by linarith
  then show ?thesis by (simp only: Uint16_def unsigned_of_nat) (simp add: take_bit_nat_eq_self)
qed

lemma base256:
  assumes "256 * a + b = 256 * c + d" and "b < 256" and "d < 256"
  shows "a = c \<and> b = (d :: nat)"
proof -
  have "(256 * a + b) div 256 = a" "(256 * c + d) div 256 = c" using assms(2,3) by simp_all
  then have "a = c" using assms(1) by metis
  then show ?thesis using assms(1) by simp
qed

lemma Uint16_inj:
  assumes "length x = 2" and "length y = 2" and "Uint16 x = Uint16 y"
  shows "x = y"
proof -
  have "256 * of_char (x ! 0) + of_char (x ! 1) = 256 * of_char (y ! 0) + (of_char (y ! 1) :: nat)"
    using arg_cong [OF assms(3), of unat] unfolding unat_Uint16 .
  from base256 [OF this nat_of_char_less_256 nat_of_char_less_256]
  have "x ! 0 = y ! 0 \<and> x ! 1 = y ! 1" unfolding of_char_eq_iff .
  then show ?thesis using assms(1,2) by (intro nth_equalityI) (auto simp: less_2_cases_iff)
qed

lemma top_bit: "(128 \<le> (of_char c :: nat)) = bit (of_char c :: nat) 7"
proof -
  have "(of_char c :: nat) div 128 = 0 \<or> (of_char c :: nat) div 128 = 1" using nat_of_char_less_256 [of c] by linarith
  then show ?thesis by (auto simp: bit_iff_odd)
qed

text \<open>The token and the packet of the call of \<open>Ping\<close> that follows \<open>k\<close> others of the process.\<close>

fun later_ping :: "int \<Rightarrow> uint64 \<Rightarrow> nat \<Rightarrow> string \<times> string" where
  "later_ping pid seq 0 = (case Ping pid seq of (tok, packet, _) \<Rightarrow> (tok, packet))"
| "later_ping pid seq (Suc k) = (case Ping pid seq of (_, _, seq') \<Rightarrow> later_ping pid seq' k)"

lemma later_ping_eq:
  "later_ping pid seq k = (let tok = ''0_'' @ show_int pid @ ''_'' @ show_nat (unat (seq + 1 + of_nat k)) in (tok, tok @ '' '' @ agw_command))"
  by (induction k arbitrary: seq) (simp_all add: Ping_def Let_def algebra_simps)

lemma later_ping_Ping: "later_ping pid seq k = (fst (Ping pid (seq + of_nat k)), fst (snd (Ping pid (seq + of_nat k))))"
  by (simp add: later_ping_eq Ping_def Let_def algebra_simps)

lemma show_nat_inj: "show_nat m = show_nat n \<Longrightarrow> m = n"
  by (metis digits_val_show)

lemma later_ping_distinct:
  assumes "fst (later_ping pid seq k) = fst (later_ping pid seq l)" and "k < 2 ^ 64" and "l < 2 ^ 64"
  shows "k = l"
proof -
  have "show_nat (unat (seq + 1 + of_nat k)) = show_nat (unat (seq + 1 + of_nat l))"
    using assms(1) by (simp add: later_ping_eq Let_def)
  then have "unat (seq + 1 + of_nat k) = unat (seq + 1 + of_nat l)" by (rule show_nat_inj)
  then have "seq + 1 + of_nat k = seq + 1 + of_nat l" by (rule unsigned_word_eqI)
  then have "(of_nat k :: uint64) = of_nat l" by (rule add_left_imp_eq)
  then have "unat (of_nat k :: uint64) = unat (of_nat l :: uint64)" by simp
  then show ?thesis using assms(2,3) by (simp add: unat_of_nat)
qed

lemma hex_digit_inj: "a < 16 \<Longrightarrow> b < 16 \<Longrightarrow> hex_digit a = hex_digit b \<Longrightarrow> a = b"
  by (auto simp: hex_digit_def char_of_eq_iff of_char_of take_bit_eq_mod split: if_split_asm)

lemma hex_string_inj:
  "hex_string as = hex_string bs \<Longrightarrow> list_all (\<lambda>x. x < 256) as \<Longrightarrow> list_all (\<lambda>x. x < 256) bs \<Longrightarrow> as = bs"
proof (induction as arbitrary: bs)
  case Nil
  then show ?case by (cases bs) (simp_all add: hex_string_def)
next
  case (Cons a as)
  then obtain b bs' where bs: "bs = b # bs'" by (cases bs) (simp_all add: hex_string_def)
  have d: "hex_digit (a div 16) = hex_digit (b div 16)" "hex_digit (a mod 16) = hex_digit (b mod 16)" "hex_string as = hex_string bs'"
    using Cons.prems(1) by (simp_all add: hex_string_def bs)
  have "a div 16 = b div 16" "a mod 16 = b mod 16"
    using d(1,2) Cons.prems(2,3) by (auto simp: bs intro!: hex_digit_inj)
  then have "a = b" by (metis div_mod_decomp)
  then show ?case using Cons.IH [OF d(3)] Cons.prems(2,3) by (simp add: bs)
qed

text \<open>C39. A SIP or AGW answer belongs to one request. Two \<open>OPTIONS\<close> requests whose Call-IDs were made from different
  random bytes are never both answered by one packet. Neither are two of the up to \<open>2^64\<close> pings of a process,
  because the counter gives each its own token; a pong that repeats the token of a ping is its answer, and
  the ping itself, sent back, is not.\<close>

theorem answers_identify_their_request:
  assumes "Options uri host port cseq (Inr r) r2 r3 = Inr m" and "Options uri' host' port' cseq' (Inr r') r2' r3' = Inr m'"
    and "list_all (\<lambda>x. x < 256) r" and "list_all (\<lambda>x. x < 256) r'" and "r \<noteq> r'"
    and "k < 2 ^ 64" and "l < 2 ^ 64" and "k \<noteq> l"
  shows "\<not> (IsOK packet (sm_CallID m) \<and> IsOK packet (sm_CallID m')) \<and>
     \<not> (IsPong packet (fst (later_ping pid seq k)) \<and> IsPong packet (fst (later_ping pid seq l))) \<and>
     IsPong (fst (later_ping pid seq k) @ '' d6:result4:ponge'') (fst (later_ping pid seq k)) \<and>
     \<not> IsPong (snd (later_ping pid seq k)) (fst (later_ping pid seq k))"
proof (intro conjI)
  have "sm_CallID m = hex_string r" "sm_CallID m' = hex_string r'"
    using assms(1,2) by (auto simp: Options_def token_def Let_def split: sum.splits)
  then have "sm_CallID m \<noteq> sm_CallID m'" using hex_string_inj assms(3-5) by metis
  then show "\<not> (IsOK packet (sm_CallID m) \<and> IsOK packet (sm_CallID m'))"
    using call_id_line_unique by (auto simp: IsOK_def)
  have "fst (later_ping pid seq k) \<noteq> fst (later_ping pid seq l)" using later_ping_distinct assms(6-8) by blast
  then show "\<not> (IsPong packet (fst (later_ping pid seq k)) \<and> IsPong packet (fst (later_ping pid seq l)))"
    using prefix_at_space [of packet, OF _ _ token_no_space token_no_space] by (auto simp: later_ping_Ping IsPong_def Let_def)
  show "IsPong (fst (later_ping pid seq k) @ '' d6:result4:ponge'') (fst (later_ping pid seq k))"
    using pong_accepted [of pid "seq + of_nat k"] by (simp add: later_ping_Ping agw_result_def)
  show "\<not> IsPong (snd (later_ping pid seq k)) (fst (later_ping pid seq k))"
    using ping_is_no_pong [of pid "seq + of_nat k"] by (simp add: later_ping_Ping)
qed

theorem answers_identify_their_request_witness:
  "\<not> IsPong ''0_7_1 d6:result4:ponge'' ''0_7_2'' \<and> IsPong ''0_7_1 d6:result4:ponge'' ''0_7_1''"
proof -
  have o: "\<exists>m. Options ''u'' ''h'' 1 1 (Inr [x]) (Inr []) (Inr []) = Inr m" for x
    by (simp add: Options_def token_def Let_def)
  obtain m m' where "Options ''u'' ''h'' 1 1 (Inr [1]) (Inr []) (Inr []) = Inr m"
    "Options ''u'' ''h'' 1 1 (Inr [2]) (Inr []) (Inr []) = Inr m'" using o [of 1] o [of 2] by blast
  note t = answers_identify_their_request [OF this, of 0 1 "''0_7_1 d6:result4:ponge''" 7 0]
  have "fst (later_ping 7 0 0) = ''0_7_1''" "fst (later_ping 7 0 1) = ''0_7_2''"
    by (simp_all add: later_ping_eq Let_def show_int_def show_nat.simps digit_char_def char_of_def bit_0)
  with t show ?thesis by simp
qed

text \<open>\<open>Query\<close> writes its random identifier into the first two bytes.\<close>

lemma Query_header:
  assumes "Query (Inr raw) = Inr (rid, q)" and "length raw = 2"
  shows "take 2 q = raw \<and> length q = 30 \<and> q ! 2 = CHR 0x00 \<and> Uint16 raw = rid"
proof -
  obtain a b where raw: "raw = [a, b]" using assms(2) by (cases raw; cases "tl raw") auto
  have q: "rid = Uint16 raw" "q = PutUint16 rid @ [CHR 0x00, CHR 0x00] @ PutUint16 1 @ replicate 6 (CHR 0x00) @ version_bind @
       PutUint16 typeTXT @ PutUint16 classCHAOS"
    using assms(1) by (auto simp: Query_def Let_def)
  have n: "unat rid = 256 * of_char a + of_char b"
    using unat_Uint16 [of raw] by (simp add: q(1) raw)
  have "PutUint16 rid = raw" using nat_of_char_less_256 [of b] by (simp add: PutUint16_def n raw)
  then show ?thesis by (simp add: q(2)) (simp add: q(1) raw PutUint16_def version_bind_def)
qed

text \<open>C35. What the DNS probe takes for an answer: exactly the packets of at least a DNS header that begin with the
  two random bytes of the query and have the response bit set. So no query, the probe's own or another's,
  is taken for an answer, and a header that repeats the identifier with the response bit is one. Queries
  that drew the same two bytes are not told apart.\<close>

theorem dns_answers_are_responses:
  assumes "Query (Inr raw) = Inr (rid, q)" and "length raw = 2"
  shows "(Answered packet rid \<longleftrightarrow> 12 \<le> length packet \<and> take 2 packet = take 2 q \<and> bit (of_char (packet ! 2) :: nat) 7) \<and>
     (\<forall>raw' rid' q'. Query raw' = Inr (rid', q') \<longrightarrow> \<not> Answered q' rid)"
proof
  have hdr: "take 2 q = raw" "Uint16 raw = rid" using Query_header [OF assms] by simp_all
  have u: "Uint16 x = Uint16 raw \<longleftrightarrow> x = raw" if "length x = 2" for x
    using Uint16_inj [OF that assms(2)] by auto
  show "Answered packet rid \<longleftrightarrow> 12 \<le> length packet \<and> take 2 packet = take 2 q \<and> bit (of_char (packet ! 2) :: nat) 7"
    using u [of "take 2 packet"] by (auto simp: Answered_def hdr(1) hdr(2) [symmetric] top_bit)
  show "\<forall>raw' rid' q'. Query raw' = Inr (rid', q') \<longrightarrow> \<not> Answered q' rid"
    by (auto simp: Query_def Answered_def PutUint16_def Let_def split: sum.splits)
qed

theorem dns_answers_are_responses_witness:
  "\<exists>q. Query (Inr ''ab'') = Inr (24930, q) \<and> Answered (''ab'' @ [CHR 0x80] @ replicate 9 (CHR 0x00)) 24930 \<and> \<not> Answered q 24930"
proof -
  have "Uint16 ''ab'' = 24930" by (simp add: Uint16_def)
  then obtain q where q: "Query (Inr ''ab'') = Inr (24930, q)" by (simp add: Query_def Let_def)
  have "take 2 q = ''ab''" using Query_header [OF q] by simp
  then show ?thesis
    using q dns_answers_are_responses [OF q, of "''ab'' @ [CHR 0x80] @ replicate 9 (CHR 0x00)"] by (auto simp: bit_iff_odd)
qed

definition sample_ok :: string where
  "sample_ok = ''SIP/2.0 200 OK'' @ crlf @ ''CSeq: 1'' @ crlf @ ''call-id : ab'' @ crlf @ crlf"

lemma sample_ok_IsOK: "IsOK sample_ok ''ab''"
proof -
  have "Fields (TrimSpace (fst (Cut sample_ok nl))) = [''SIP/2.0'', ''200'', ''OK'']" by code_simp
  moreover have "ParseInt64 ''200'' = Some 200"
    by (simp add: ParseInt64_def parse_nat_def is_digit_def digits_val_def digit_val_def)
  moreover have "call_id_line ''ab'' (split_byte nl sample_ok)" by code_simp
  ultimately show ?thesis by (simp add: IsOK_def status_ok_def Let_def EqualFold_def)
qed

end
