(* ===== verification/Metrics.thy ===== *)
theory Metrics
  imports RemoteWrite GoFloat "HOL-Library.AList"
begin

text \<open>
  The metrics registry, \<open>internal/metrics/metrics.go\<close>: its fields, the operations that change them, the escaping
  of label values and the page that \<open>Handler\<close> writes. A counter map is a function that is zero where the Go map
  has no entry; the map of the receivers, which \<open>Handler\<close> walks through, is an association list. The float
  \<open>uncoveredSeconds\<close> is kept as the duration it is computed from.
\<close>

record registry =
  mr_states :: "string \<Rightarrow> availability option"
  mr_up :: "string \<Rightarrow> uint64"
  mr_down :: "string \<Rightarrow> uint64"
  mr_last :: "string \<Rightarrow> int option"
  mr_dbusConnected :: bool
  mr_dbusDisconnects :: uint64
  mr_dbusLastChangeMS :: int
  mr_dbusDisconnectedAt :: go_time
  mr_identityHostname :: string
  mr_identityInstance :: string
  mr_identityListen :: string
  mr_remoteWrite :: "(string \<times> rw_stats) list"
  mr_remoteWriteDropped :: "string \<Rightarrow> uint64"
  mr_recoveryAttempts :: uint64
  mr_recoverySlotStartMS :: int
  mr_recoverySlotEndMS :: int
  mr_uncovered :: duration
  mr_walEnabled :: bool
  mr_walWritable :: bool
  mr_walPending :: nat

definition Metrics_New :: registry where
  "Metrics_New = \<lparr>mr_states = Map.empty, mr_up = (\<lambda>_. 0), mr_down = (\<lambda>_. 0), mr_last = Map.empty,
     mr_dbusConnected = False, mr_dbusDisconnects = 0, mr_dbusLastChangeMS = 0, mr_dbusDisconnectedAt = zero_time,
     mr_identityHostname = [], mr_identityInstance = [], mr_identityListen = [], mr_remoteWrite = [],
     mr_remoteWriteDropped = (\<lambda>_. 0), mr_recoveryAttempts = 0, mr_recoverySlotStartMS = 0, mr_recoverySlotEndMS = 0,
     mr_uncovered = 0, mr_walEnabled = False, mr_walWritable = False, mr_walPending = 0\<rparr>"

definition SetIdentity :: "string \<Rightarrow> string \<Rightarrow> string \<Rightarrow> registry \<Rightarrow> registry" where
  "SetIdentity hostname instance' listen r =
     r\<lparr>mr_identityHostname := hostname, mr_identityInstance := instance', mr_identityListen := listen\<rparr>"

definition SetWALStatus :: "bool \<Rightarrow> nat \<Rightarrow> registry \<Rightarrow> registry" where
  "SetWALStatus writable pending r = r\<lparr>mr_walEnabled := True, mr_walWritable := writable, mr_walPending := pending\<rparr>"

definition SetState :: "string \<Rightarrow> availability \<Rightarrow> registry \<Rightarrow> registry" where
  "SetState service state r = r\<lparr>mr_states := (mr_states r)(service \<mapsto> state)\<rparr>"

definition Event :: "event \<Rightarrow> registry \<Rightarrow> registry" where
  "Event e r =
     r\<lparr>mr_states := (mr_states r)(ev_Service e \<mapsto> ev_State e),
       mr_last := (mr_last r)(ev_Service e \<mapsto> ev_EventTimeUnixMS e),
       mr_up := (if ev_State e = StateUp then (mr_up r)(ev_Service e := mr_up r (ev_Service e) + 1) else mr_up r),
       mr_down := (if ev_State e = StateDown then (mr_down r)(ev_Service e := mr_down r (ev_Service e) + 1) else mr_down r)\<rparr>"

definition SetDBusConnected :: "bool \<Rightarrow> go_time \<Rightarrow> registry \<Rightarrow> registry" where
  "SetDBusConnected isConnected t r =
     (if mr_dbusConnected r = isConnected then r
      else
        let r1 = r\<lparr>mr_dbusConnected := isConnected, mr_dbusLastChangeMS := UnixMilli t\<rparr> in
        if isConnected then r1\<lparr>mr_dbusDisconnectedAt := zero_time\<rparr>
        else r1\<lparr>mr_dbusDisconnects := mr_dbusDisconnects r1 + 1, mr_dbusDisconnectedAt := t\<rparr>)"

definition SetRemoteWriteStats :: "string \<Rightarrow> rw_stats \<Rightarrow> registry \<Rightarrow> registry" where
  "SetRemoteWriteStats target stats r = r\<lparr>mr_remoteWrite := AList.update target stats (mr_remoteWrite r)\<rparr>"

definition AddDroppedEvents :: "string \<Rightarrow> int \<Rightarrow> registry \<Rightarrow> registry" where
  "AddDroppedEvents target n r =
     (if n \<le> 0 then r
      else r\<lparr>mr_remoteWriteDropped := (mr_remoteWriteDropped r)(target := mr_remoteWriteDropped r target + of_int n)\<rparr>)"

definition RecordRecovery :: "go_time \<Rightarrow> go_time \<Rightarrow> go_time \<Rightarrow> registry \<Rightarrow> registry" where
  "RecordRecovery observedFrom slotStart slotEnd r =
     r\<lparr>mr_recoveryAttempts := mr_recoveryAttempts r + 1, mr_recoverySlotStartMS := UnixMilli slotStart,
       mr_recoverySlotEndMS := UnixMilli slotEnd,
       mr_uncovered := (if observedFrom < slotStart then Sub slotStart observedFrom else 0)\<rparr>"

definition backslash :: char where "backslash = CHR 0x5C"
definition dquote :: char where "dquote = CHR 0x22"

definition promLabel :: "string \<Rightarrow> string" where
  "promLabel v =
     [dquote] @ ReplaceAll (ReplaceAll (ReplaceAll v backslash [backslash, backslash]) dquote [backslash, dquote]) nl
        [backslash, CHR ''n''] @ [dquote]"

section \<open>The page\<close>

text \<open>
  The page is a sequence of families: name, help text, type and samples, each with its label part and its
  value. \<open>goQuote\<close> is the verb \<open>%q\<close> on ASCII text; the identifiers of receivers it is used for are
  hexadecimal digits.
\<close>

type_synonym family = "string \<times> string \<times> string \<times> (string \<times> string) list"

definition quote_char :: "char \<Rightarrow> string" where
  "quote_char c =
     (if c = dquote \<or> c = backslash then [backslash, c]
      else if c = CHR 0x07 then [backslash, CHR ''a''] else if c = CHR 0x08 then [backslash, CHR ''b'']
      else if c = CHR 0x0C then [backslash, CHR ''f''] else if c = nl then [backslash, CHR ''n'']
      else if c = CHR 0x0D then [backslash, CHR ''r''] else if c = CHR 0x09 then [backslash, CHR ''t'']
      else if c = CHR 0x0B then [backslash, CHR ''v'']
      else if (of_char c :: nat) < 32 \<or> c = CHR 0x7F
      then backslash # CHR ''x'' # [digit_char (of_char c div 16), (''0123456789abcdef'' ! (of_char c mod 16))]
      else [c])"

definition goQuote :: "string \<Rightarrow> string" where
  "goQuote s = [dquote] @ concat (map quote_char s) @ [dquote]"

definition show_word :: "uint64 \<Rightarrow> string" where
  "show_word w = show_nat (unat w)"

definition show_flag :: "bool \<Rightarrow> string" where
  "show_flag b = (if b then ''1'' else ''0'')"

text \<open>\<open>float64(ms)/1000\<close> with \<open>%g\<close>.\<close>

definition show_ms :: "int \<Rightarrow> string" where
  "show_ms ms = format_g (f64_div (f64_of_int ms) (f64_of_int 1000))"

definition target_label :: "string \<Rightarrow> string" where
  "target_label t = ''{target='' @ goQuote t @ ''}''"

definition target_samples :: "(rw_stats \<Rightarrow> uint64) \<Rightarrow> registry \<Rightarrow> (string \<times> string) list" where
  "target_samples f r =
     map (\<lambda>t. (target_label t, show_word (case map_of (mr_remoteWrite r) t of Some st \<Rightarrow> f st | None \<Rightarrow> 0)))
       (sort (map fst (mr_remoteWrite r)))"

definition identity_family :: "registry \<Rightarrow> family" where
  "identity_family r =
     (''systemd_transition_exporter_identity_info'',
      ''Host identity used to detect two exporters writing the same Remote Write series.'', ''gauge'',
      [(''{hostname='' @ promLabel (mr_identityHostname r) @ '',instance='' @ promLabel (mr_identityInstance r) @
        '',listen='' @ promLabel (mr_identityListen r) @ ''}'', ''1'')])"

definition wal_families :: "registry \<Rightarrow> family list" where
  "wal_families r =
     (if \<not> mr_walEnabled r then []
      else
        [(''systemd_transition_exporter_wal_writable'',
          ''Whether the event WAL can currently accept a write (1 writable, 0 disk full or over quota).'', ''gauge'',
          [([], show_flag (mr_walWritable r))]),
         (''systemd_transition_exporter_wal_pending_events'',
          ''Transition events held in memory because the WAL could not store them.'', ''gauge'',
          [([], show_nat (mr_walPending r))])])"

definition disconnected_seconds :: "go_time \<Rightarrow> registry \<Rightarrow> float64" where
  "disconnected_seconds now r =
     (if \<not> mr_dbusConnected r \<and> \<not> IsZero (mr_dbusDisconnectedAt r) then Seconds (Sub now (mr_dbusDisconnectedAt r)) else Fin 0 0)"

definition dbus_families :: "go_time \<Rightarrow> registry \<Rightarrow> family list" where
  "dbus_families now r =
     [(''systemd_transition_exporter_dbus_connected'',
       ''Whether the exporter is currently connected to the system D-Bus (1 connected, 0 disconnected).'', ''gauge'',
       [([], show_flag (mr_dbusConnected r))]),
      (''systemd_transition_exporter_dbus_disconnects_total'',
       ''Total number of system D-Bus disconnections observed by the exporter.'', ''counter'',
       [([], show_word (mr_dbusDisconnects r))]),
      (''systemd_transition_exporter_dbus_last_change_timestamp_seconds'',
       ''Unix timestamp of the last system D-Bus connection state change.'', ''gauge'',
       [([], show_ms (mr_dbusLastChangeMS r))]),
      (''systemd_transition_exporter_dbus_disconnected_seconds'',
       ''Duration in seconds of the current system D-Bus disconnection, or 0 when connected.'', ''gauge'',
       [([], format_g (disconnected_seconds now r))])]"

definition remote_write_families :: "registry \<Rightarrow> family list" where
  "remote_write_families r =
     [(''systemd_transition_exporter_remote_write_successful_requests_total'',
       ''Total number of successful Remote Write HTTP requests.'', ''counter'', target_samples SuccessfulRequests r),
      (''systemd_transition_exporter_remote_write_failed_requests_total'',
       ''Total number of failed Remote Write HTTP requests or rejected requests.'', ''counter'', target_samples FailedRequests r),
      (''systemd_transition_exporter_remote_write_retries_total'',
       ''Total number of Remote Write retry attempts.'', ''counter'', target_samples Retries r),
      (''systemd_transition_exporter_remote_write_samples_sent_total'',
       ''Total number of samples accepted by the Remote Write endpoint in successful requests.'', ''counter'',
       target_samples SentSamples r),
      (''systemd_transition_exporter_remote_write_dropped_events_total'',
       ''Total number of transition events dropped after a permanent Remote Write rejection.'', ''counter'',
       map (\<lambda>t. (target_label t, show_word (mr_remoteWriteDropped r t))) (sort (map fst (mr_remoteWrite r))))]"

definition recovery_families :: "registry \<Rightarrow> family list" where
  "recovery_families r =
     [(''systemd_transition_exporter_recovery_attempts_total'',
       ''Total number of aligned journal recovery slots attempted.'', ''counter'', [([], show_word (mr_recoveryAttempts r))]),
      (''systemd_transition_exporter_recovery_slot_start_timestamp_seconds'',
       ''Start of the last local-time recovery slot as a Unix timestamp.'', ''gauge'', [([], show_ms (mr_recoverySlotStartMS r))]),
      (''systemd_transition_exporter_recovery_slot_end_timestamp_seconds'',
       ''End of the last journal recovery query as a Unix timestamp.'', ''gauge'', [([], show_ms (mr_recoverySlotEndMS r))]),
      (''systemd_transition_exporter_recovery_uncovered_seconds'',
       ''Portion of the last requested observation gap before the current recovery slot that was intentionally not recovered.'',
       ''gauge'', [([], format_g (Seconds (mr_uncovered r)))])]"

definition families :: "go_time \<Rightarrow> registry \<Rightarrow> family list" where
  "families now r = identity_family r # wal_families r @ dbus_families now r @ remote_write_families r @ recovery_families r"

definition metric_line :: "string \<Rightarrow> string \<times> string \<Rightarrow> string" where
  "metric_line name x = name @ fst x @ '' '' @ snd x @ [nl]"

definition render_family :: "family \<Rightarrow> string" where
  "render_family f =
     (case f of (name, help, typ, samples) \<Rightarrow>
        ''# HELP '' @ name @ '' '' @ help @ [nl] @ ''# TYPE '' @ name @ '' '' @ typ @ [nl] @ concat (map (metric_line name) samples))"

definition Handler :: "go_time \<Rightarrow> registry \<Rightarrow> string" where
  "Handler now r = concat (map render_family (families now r))"

section \<open>Label values can be read back\<close>

text \<open>How the text format reads a quoted label value.\<close>

fun unquote_body :: "string \<Rightarrow> string option" where
  "unquote_body [] = None"
| "unquote_body (c # s) =
     (if c = dquote then (if s = [] then Some [] else None)
      else if c = nl then None
      else if c = backslash
      then (case s of [] \<Rightarrow> None
            | d # s' \<Rightarrow>
              (if d = backslash then map_option (Cons backslash) (unquote_body s')
               else if d = dquote then map_option (Cons dquote) (unquote_body s')
               else if d = CHR ''n'' then map_option (Cons nl) (unquote_body s') else None))
      else map_option (Cons c) (unquote_body s))"

definition unquote :: "string \<Rightarrow> string option" where
  "unquote s = (case s of c # r \<Rightarrow> if c = dquote then unquote_body r else None | [] \<Rightarrow> None)"

definition escape_char :: "char \<Rightarrow> string" where
  "escape_char c = (if c = backslash then [backslash, backslash] else if c = dquote then [backslash, dquote]
     else if c = nl then [backslash, CHR ''n''] else [c])"

lemma escape_byte_distinct: "backslash \<noteq> dquote" "backslash \<noteq> nl" "dquote \<noteq> nl" "CHR ''n'' \<noteq> backslash" "CHR ''n'' \<noteq> dquote"
    "CHR ''n'' \<noteq> nl"
  by (simp_all add: backslash_def dquote_def nl_def)

lemma ReplaceAll_append: "ReplaceAll (a @ b) c t = ReplaceAll a c t @ ReplaceAll b c t"
  by (simp add: ReplaceAll_def)

lemma promLabel_escape: "promLabel v = [dquote] @ concat (map escape_char v) @ [dquote]"
proof -
  have "ReplaceAll (ReplaceAll (ReplaceAll v backslash [backslash, backslash]) dquote [backslash, dquote]) nl
      [backslash, CHR ''n''] = concat (map escape_char v)"
  proof (induction v)
    case (Cons c v)
    have "c # v = [c] @ v" by simp
    then show ?case using Cons escape_byte_distinct
      by (auto simp: ReplaceAll_append ReplaceAll_def escape_char_def)
  qed (simp add: ReplaceAll_def)
  then show ?thesis by (simp add: promLabel_def)
qed

text \<open>Escaped label values are unambiguous: a parser of the text format that reads a label value as
  \<open>promLabel\<close> prints it gets the value back, whatever bytes it holds.\<close>

theorem promLabel_roundtrip: "unquote (promLabel v) = Some v"
proof -
  have "unquote_body (concat (map escape_char v) @ [dquote]) = Some v"
    using escape_byte_distinct by (induction v) (auto simp: escape_char_def)
  then show ?thesis by (simp add: promLabel_escape unquote_def)
qed

section \<open>Counters\<close>

text \<open>The transition counters count the events of each service and direction, modulo their width.\<close>

lemma Event_fold_counts:
  "mr_up (fold Event es r) s = mr_up r s + of_nat (length (filter (\<lambda>e. ev_Service e = s \<and> ev_State e = StateUp) es))"
  "mr_down (fold Event es r) s = mr_down r s + of_nat (length (filter (\<lambda>e. ev_Service e = s \<and> ev_State e = StateDown) es))"
  by (induction es arbitrary: r) (auto simp: Event_def)

end
