(* ===== verification/LocalAddr.thy ===== *)
theory LocalAddr
  imports GoNet Prelude
begin

text \<open>
  The check that a probed address belongs to this machine, \<open>internal/sip/local.go\<close>, with what it uses of Go's
  \<open>net\<close> and \<open>net/netip\<close>: \<open>ParseIP\<close> for both address families and the comparison of addresses.

  A \<open>net.IP\<close> is its list of bytes, four or sixteen of them; a nil one is \<open>None\<close>. The interfaces of the machine
  with their addresses are an argument. An error keeps what its text is printed from.
\<close>

type_synonym ip = "uint8 list"

section \<open>Parsing addresses\<close>

definition dot :: char where "dot = CHR ''.''"

text \<open>\<open>parseIPv4Fields\<close>: the byte before the current one, the octet so far with its digits, and the octets read.\<close>

fun v4_loop :: "string \<Rightarrow> char option \<Rightarrow> nat \<Rightarrow> nat \<Rightarrow> ip \<Rightarrow> ip option" where
  "v4_loop [] prev val digLen fields = (if length fields < 3 then None else Some (fields @ [of_nat val]))"
| "v4_loop (c # s) prev val digLen fields =
     (if is_digit c
      then if digLen = 1 \<and> val = 0 then None
           else let val' = val * 10 + digit_val c in
                if val' > 255 then None else v4_loop s (Some c) val' (digLen + 1) fields
      else if c = dot
      then if prev = None \<or> s = [] \<or> prev = Some dot then None
           else if length fields = 3 then None
           else v4_loop s (Some c) 0 0 (fields @ [of_nat val])
      else None)"

definition parseIPv4Fields :: "string \<Rightarrow> ip option" where
  "parseIPv4Fields s = v4_loop s None 0 0 []"

definition hex_val :: "char \<Rightarrow> nat option" where
  "hex_val c =
     (if is_digit c then Some (digit_val c)
      else if CHR ''a'' \<le> c \<and> c \<le> CHR ''f'' then Some (of_char c - 87)
      else if CHR ''A'' \<le> c \<and> c \<le> CHR ''F'' then Some (of_char c - 55)
      else None)"

text \<open>A group of hexadecimal digits: its value, their number and what follows; \<open>None\<close> when it is too long.\<close>

fun hex_group :: "string \<Rightarrow> nat \<Rightarrow> nat \<Rightarrow> (nat \<times> nat \<times> string) option" where
  "hex_group [] acc off = Some (acc, off, [])"
| "hex_group (c # s) acc off =
     (case hex_val c of
        None \<Rightarrow> Some (acc, off, c # s)
      | Some d \<Rightarrow> if off > 3 then None else if acc * 16 + d > 65535 then None else hex_group s (acc * 16 + d) (off + 1))"

text \<open>The loop of \<open>parseIPv6\<close>: the bytes read, the position of the \<open>::\<close> among them if there was one, and the rest.\<close>

function v6_loop :: "ip \<Rightarrow> nat option \<Rightarrow> string \<Rightarrow> (ip \<times> nat option) option" where
  "v6_loop acc ell s =
     (if length acc \<ge> 16 then (if s = [] then Some (acc, ell) else None)
      else case hex_group s 0 0 of
          None \<Rightarrow> None
        | Some (v, off, rest) \<Rightarrow>
          if off = 0 then None
          else if rest \<noteq> [] \<and> hd rest = dot
          then if ell = None \<and> length acc \<noteq> 12 then None
               else if length acc + 4 > 16 then None
               else (case parseIPv4Fields s of None \<Rightarrow> None | Some b \<Rightarrow> Some (acc @ b, ell))
          else
            let acc' = acc @ [of_nat (v div 256), of_nat v] in
            if rest = [] then Some (acc', ell)
            else if hd rest \<noteq> colon then None
            else if tl rest = [] then None
            else if hd (tl rest) = colon
            then if ell \<noteq> None then None
                 else if tl (tl rest) = [] then Some (acc', Some (length acc'))
                 else v6_loop acc' (Some (length acc')) (tl (tl rest))
            else v6_loop acc' ell (tl rest))"
  by pat_completeness auto
termination by (relation "measure (\<lambda>(acc, _). 16 - length acc)") auto

declare v6_loop.simps [simp del]

text \<open>What follows the loop: a \<open>::\<close> stands for at least one group of zeros.\<close>

definition v6_expand :: "ip \<times> nat option \<Rightarrow> ip option" where
  "v6_expand r =
     (case r of (acc, ell) \<Rightarrow>
        if length acc < 16
        then (case ell of None \<Rightarrow> None | Some e \<Rightarrow> Some (take e acc @ replicate (16 - length acc) 0 @ drop e acc))
        else if ell \<noteq> None then None else Some acc)"

text \<open>An address with a zone is no result of \<open>ParseIP\<close>, and an empty zone is an error.\<close>

definition parseIPv6 :: "string \<Rightarrow> ip option" where
  "parseIPv6 s =
     (if CHR ''%'' \<in> set s then None
      else if take 2 s = [colon, colon]
      then if drop 2 s = [] then Some (replicate 16 0)
           else Option.bind (v6_loop [] (Some 0) (drop 2 s)) v6_expand
      else Option.bind (v6_loop [] None s) v6_expand)"

definition v4InV6Prefix :: ip where
  "v4InV6Prefix = replicate 10 0 @ [255, 255]"

text \<open>The first dot, colon or percent sign decides on the family.\<close>

definition ParseIP :: "string \<Rightarrow> ip option" where
  "ParseIP s =
     (case find (\<lambda>c. c = dot \<or> c = colon \<or> c = CHR ''%'') s of
        None \<Rightarrow> None
      | Some c \<Rightarrow>
        if c = dot then map_option (\<lambda>b. v4InV6Prefix @ b) (parseIPv4Fields s)
        else if c = colon then parseIPv6 s
        else None)"

section \<open>Local addresses\<close>

definition IP_Equal :: "ip \<Rightarrow> ip \<Rightarrow> bool" where
  "IP_Equal a x =
     (if length a = length x then a = x
      else if length a = 4 \<and> length x = 16 then take 12 x = v4InV6Prefix \<and> a = drop 12 x
      else if length a = 16 \<and> length x = 4 then take 12 a = v4InV6Prefix \<and> drop 12 a = x
      else False)"

datatype net_addr = IPNet "ip option" | IPAddr "ip option" | OtherAddr

fun addrIP :: "net_addr \<Rightarrow> ip option" where
  "addrIP (IPNet a) = a"
| "addrIP (IPAddr a) = a"
| "addrIP OtherAddr = None"

datatype local_error =
    ListInterfaces string | InterfaceAddrs string string
  | LocalAddress string addr_error | NotAnIP string | NotAssigned ip

text \<open>An interface is its name and the outcome of \<open>Addrs\<close>.\<close>

fun interface_ips :: "(string \<times> (string + net_addr list)) list \<Rightarrow> local_error + ip list" where
  "interface_ips [] = Inr []"
| "interface_ips ((name, addrs) # rest) =
     (case addrs of
        Inl err \<Rightarrow> Inl (InterfaceAddrs name err)
      | Inr as \<Rightarrow>
        (case interface_ips rest of Inl err \<Rightarrow> Inl err | Inr ips \<Rightarrow> Inr (List.map_filter addrIP as @ ips)))"

definition LocalIPs :: "string + (string \<times> (string + net_addr list)) list \<Rightarrow> local_error + ip list" where
  "LocalIPs ifaces = (case ifaces of Inl err \<Rightarrow> Inl (ListInterfaces err) | Inr is \<Rightarrow> interface_ips is)"

definition RequireLocal :: "string \<Rightarrow> ip list \<Rightarrow> local_error option" where
  "RequireLocal addr locals =
     (case SplitHostPort addr of
        Inl err \<Rightarrow> Some (LocalAddress addr err)
      | Inr (host, _) \<Rightarrow>
        (case ParseIP host of
           None \<Rightarrow> Some (NotAnIP host)
         | Some ip1 \<Rightarrow> if list_ex (\<lambda>l. IP_Equal l ip1) locals then None else Some (NotAssigned ip1)))"

section \<open>Dotted quads\<close>

lemma v4_digits:
  "list_all is_digit ds \<Longrightarrow> 0 < val \<Longrightarrow> val * 10 ^ length ds + digits_val ds \<le> 255 \<Longrightarrow>
   v4_loop (ds @ rest) prev val k fields =
     v4_loop rest (if ds = [] then prev else Some (last ds)) (val * 10 ^ length ds + digits_val ds) (k + length ds) fields"
proof (induction ds arbitrary: val prev k)
  case Nil
  then show ?case by (simp add: digits_val_def)
next
  case (Cons c ds)
  let ?v = "val * 10 + digit_val c"
  have sum: "?v * 10 ^ length ds + digits_val ds = val * 10 ^ length (c # ds) + digits_val (c # ds)"
    by (simp add: digits_val_Cons algebra_simps)
  have "?v \<le> ?v * 10 ^ length ds + digits_val ds" by (simp add: trans_le_add1)
  also have "\<dots> \<le> 255" unfolding sum by (rule Cons.prems(3))
  finally have "?v \<le> 255" .
  then show ?case
    using Cons.IH [of ?v "Some c" "k + 1"] Cons.prems sum by (simp add: Let_def)
qed

lemma zero_digit: "is_digit c \<Longrightarrow> digit_val c = 0 \<Longrightarrow> c = CHR ''0''"
proof -
  assume "is_digit c" "digit_val c = 0"
  then have "of_char c = (48 :: nat)" by (simp add: is_digit_def digit_val_def)
  also have "(48 :: nat) = of_char CHR ''0''" by simp
  finally show ?thesis by (simp only: of_char_eq_iff)
qed

lemma v4_octet:
  assumes "n \<le> 255"
  shows "\<exists>p k. is_digit p \<and> v4_loop (show_nat n @ rest) prev 0 0 fields = v4_loop rest (Some p) n k fields"
proof (cases "n = 0")
  case True
  have "show_nat 0 = [digit_char 0]" by (subst show_nat.simps) simp
  with True show ?thesis by (intro exI [of _ "digit_char 0"] exI [of _ 1]) (simp add: Let_def)
next
  case False
  obtain c ds where s: "show_nat n = c # ds" by (cases "show_nat n") auto
  have d: "is_digit c" "list_all is_digit ds" using show_nat_digits [of n] s by simp_all
  have v: "digit_val c * 10 ^ length ds + digits_val ds = n" using digits_val_show [of n] s by (simp add: digits_val_Cons)
  have "digit_val c \<noteq> 0" using show_nat_leading [OF False] zero_digit [OF d(1)] s by auto
  moreover have "digit_val c \<le> 255" using d(1) unfolding digit_val_def is_digit_def by linarith
  ultimately have "v4_loop (show_nat n @ rest) prev 0 0 fields =
      v4_loop rest (if ds = [] then Some c else Some (last ds)) n (1 + length ds) fields"
    using v4_digits [OF d(2), of "digit_val c" rest "Some c" 1 fields] v assms d(1) by (simp add: s Let_def)
  moreover have "is_digit (last ds)" if "ds \<noteq> []" using d(2) that by (simp add: list_all_iff)
  ultimately show ?thesis using d(1) by (cases "ds = []") auto
qed

lemma v4_dot:
  "is_digit p \<Longrightarrow> s \<noteq> [] \<Longrightarrow> length fields < 3 \<Longrightarrow> v4_loop (dot # s) (Some p) n k fields = v4_loop s (Some dot) 0 0 (fields @ [of_nat n])"
  by (auto simp: dot_def)

text \<open>The text form of an IPv4 address.\<close>

definition dotted :: "uint8 \<Rightarrow> uint8 \<Rightarrow> uint8 \<Rightarrow> uint8 \<Rightarrow> string" where
  "dotted a b c d = show_nat (unat a) @ dot # show_nat (unat b) @ dot # show_nat (unat c) @ dot # show_nat (unat d)"

lemma octet_le: "unat (a :: uint8) \<le> 255"
proof -
  have "unat a < 256" using unsigned_less [of a] by simp
  then show ?thesis by simp
qed

lemma v4_step:
  assumes "length fields < 3" and "s \<noteq> []"
  shows "v4_loop (show_nat (unat a) @ dot # s) prev 0 0 fields = v4_loop s (Some dot) 0 0 (fields @ [a])"
  using v4_octet [OF octet_le [of a], of "dot # s" prev fields] v4_dot [OF _ assms(2,1)] by auto

lemma parse_dotted: "parseIPv4Fields (dotted a b c d) = Some [a, b, c, d]"
  using v4_octet [OF octet_le [of d], of "[]" "Some dot" "[a, b, c]"]
  by (auto simp: parseIPv4Fields_def dotted_def v4_step)

lemma digit_other: "is_digit c \<Longrightarrow> c \<noteq> dot \<and> c \<noteq> colon \<and> c \<noteq> CHR ''%'' \<and> c \<noteq> lbracket \<and> c \<noteq> rbracket"
  by (auto simp: is_digit_def dot_def colon_def lbracket_def rbracket_def)

lemma find_skip: "list_all (\<lambda>c. \<not> P c) xs \<Longrightarrow> find P (xs @ ys) = find P ys"
  by (induction xs) simp_all

lemma ParseIP_dotted: "ParseIP (dotted a b c d) = Some (v4InV6Prefix @ [a, b, c, d])"
proof -
  have "list_all (\<lambda>c. \<not> (c = dot \<or> c = colon \<or> c = CHR ''%'')) (show_nat (unat a))"
    using show_nat_digits [of "unat a"] digit_other by (auto simp: list_all_iff)
  then have "find (\<lambda>c. c = dot \<or> c = colon \<or> c = CHR ''%'') (dotted a b c d) = Some dot"
    by (simp add: dotted_def find_skip)
  then show ?thesis by (simp add: ParseIP_def parse_dotted)
qed

lemma plain_dotted: "plain_host (dotted a b c d)"
proof -
  have "x \<noteq> lbracket \<and> x \<noteq> rbracket" if "x \<in> set (show_nat n)" for x n
    using show_nat_digits [of n] that digit_other by (auto simp: list_all_iff)
  then show ?thesis by (auto simp: plain_host_def dotted_def dot_def lbracket_def rbracket_def)
qed

section \<open>The two forms of an address\<close>

text \<open>The sixteen-byte form of an address, which \<open>Equal\<close> compares without building it.\<close>

definition To16 :: "ip \<Rightarrow> ip option" where
  "To16 a = (if length a = 4 then Some (v4InV6Prefix @ a) else if length a = 16 then Some a else None)"

lemma len_prefix: "length v4InV6Prefix = 12"
  by (simp add: v4InV6Prefix_def)

lemma IP_Equal_To16:
  assumes "length a = 16"
  shows "IP_Equal l a \<longleftrightarrow> To16 l = Some a"
proof (cases "length l = 4")
  case True
  have "take 12 a = v4InV6Prefix \<and> l = drop 12 a \<longleftrightarrow> v4InV6Prefix @ l = a"
    by (metis append_eq_conv_conj len_prefix)
  with True assms show ?thesis by (simp add: IP_Equal_def To16_def)
qed (use assms in \<open>auto simp: IP_Equal_def To16_def\<close>)

section \<open>Properties\<close>

text \<open>C33. Only an address of this machine can be probed. For an IPv4 address in its usual form with any port, the
  check passes exactly when the address, in its four-byte or in its sixteen-byte form, is assigned to an
  interface; otherwise its error names the address. The byte-wise comparison that makes no copies agrees
  with comparing the sixteen-byte forms.\<close>

theorem RequireLocal_exactly_the_assigned:
  assumes "plain_port port"
  shows "RequireLocal (JoinHostPort (dotted a b c d) port) locals =
     (if [a, b, c, d] \<in> set locals \<or> v4InV6Prefix @ [a, b, c, d] \<in> set locals then None
      else Some (NotAssigned (v4InV6Prefix @ [a, b, c, d])))"
proof -
  have eq: "IP_Equal l (v4InV6Prefix @ [a, b, c, d]) \<longleftrightarrow> l = [a, b, c, d] \<or> l = v4InV6Prefix @ [a, b, c, d]" for l
    by (subst IP_Equal_To16) (auto simp: To16_def v4InV6Prefix_def)
  show ?thesis
    by (auto simp: RequireLocal_def SplitHostPort_join [OF plain_dotted assms] ParseIP_dotted eq list_ex_iff)
qed

theorem RequireLocal_exactly_the_assigned_witness:
  "RequireLocal (JoinHostPort (dotted 10 12 12 10) ''5060'') [v4InV6Prefix @ [10, 12, 12, 10]] = None \<and>
   RequireLocal (JoinHostPort (dotted 10 12 12 10) ''5060'') [[10, 12, 12, 11], [127, 0, 0, 1]]
     = Some (NotAssigned (v4InV6Prefix @ [10, 12, 12, 10]))"
proof -
  have "plain_port ''5060''" by (simp add: plain_port_def colon_def lbracket_def rbracket_def)
  from RequireLocal_exactly_the_assigned [OF this] show ?thesis by (simp add: v4InV6Prefix_def)
qed

text \<open>The hexadecimal form: zeros that are left out, and an embedded IPv4 address.\<close>

lemmas parse_ip_eval = ParseIP_def parseIPv6_def v6_loop.simps dot_def colon_def hex_val_def is_digit_def digit_val_def
  v6_expand_def parseIPv4Fields_def less_eq_char_def v4InV6Prefix_def Let_def

lemma ParseIP_samples:
  "ParseIP ''2001:db8::1'' = Some ([0x20, 0x01, 0x0d, 0xb8] @ replicate 10 0 @ [0, 1])"
  "ParseIP ''::ffff:10.12.12.10'' = ParseIP ''10.12.12.10''"
  "ParseIP ''1::2::3'' = None" "ParseIP ''01.2.3.4'' = None" "ParseIP ''fe80::1%eth0'' = None" "ParseIP ''cscf.example'' = None"
  by (simp_all add: parse_ip_eval)

end
