(* ===== verification/Identity.thy ===== *)
theory Identity
  imports GoNet
begin

text \<open>
  The identity of the exporter, \<open>internal/identity/identity.go\<close>: the names of the host, the comparison of the
  configured instance with them, and the warnings. Reading the host name and \<open>/etc/hostname\<close> are outcomes
  given as arguments, \<open>None\<close> for an error. A label map is its entries with distinct names.
\<close>

definition instanceLabel :: string where "instanceLabel = ''instance''"

definition TrimSuffix_dot :: "string \<Rightarrow> string" where
  "TrimSuffix_dot s = (if s \<noteq> [] \<and> last s = CHR ''.'' then butlast s else s)"

definition hostname_spaces :: string where
  "hostname_spaces = [CHR 0x20, CHR 0x09, CHR 0x0A, CHR 0x0D]"

definition normalizeHostname :: "string \<Rightarrow> string" where
  "normalizeHostname s = takeWhile (\<lambda>c. c \<notin> set hostname_spaces) (TrimSuffix_dot (ToLower (TrimSpace s)))"

definition appendUnique :: "string list \<Rightarrow> string \<Rightarrow> string list" where
  "appendUnique names name = (if name \<in> set names then names else names @ [name])"

text \<open>A host name is added with its first label, unless it has none before a dot.\<close>

definition appendHostname :: "string list \<Rightarrow> string \<Rightarrow> string list" where
  "appendHostname names raw =
     (let host = normalizeHostname raw in
      if host = [] \<or> host = ''localhost'' then names
      else
        let names1 = appendUnique names host in
        case IndexByte host CHR ''.'' of
          Some i \<Rightarrow> if i > 0 then appendUnique names1 (take i host) else names1
        | None \<Rightarrow> names1)"

definition LocalHostnames :: "string option \<Rightarrow> string option \<Rightarrow> string list" where
  "LocalHostnames hostname etcHostname =
     (let names = (case hostname of None \<Rightarrow> [] | Some h \<Rightarrow> appendHostname [] h)
      in case etcHostname of None \<Rightarrow> names | Some b \<Rightarrow> appendHostname names b)"

definition PrimaryHostname :: "string list \<Rightarrow> string" where
  "PrimaryHostname names = (case names of [] \<Rightarrow> ''unknown'' | n # _ \<Rightarrow> n)"

definition same_host :: "string \<Rightarrow> string \<Rightarrow> bool" where
  "same_host want got \<longleftrightarrow> want = got \<or> HasPrefix want (got @ ''.'') \<or> HasPrefix got (want @ ''.'')"

definition MatchesHost :: "string \<Rightarrow> string list \<Rightarrow> bool" where
  "MatchesHost inst hostnames \<longleftrightarrow>
     (let want = normalizeHostname inst in
      want \<noteq> [] \<and> list_ex (\<lambda>host. let got = normalizeHostname host in got \<noteq> [] \<and> same_host want got) hostnames)"

definition quote :: "string \<Rightarrow> string" where
  "quote s = [CHR 0x22] @ s @ [CHR 0x22]"

fun join :: "string \<Rightarrow> string list \<Rightarrow> string" where
  "join sep [] = []"
| "join sep [x] = x"
| "join sep (x # y # xs) = x @ sep @ join sep (y # xs)"

definition Warnings :: "(string \<times> string) list \<Rightarrow> string list \<Rightarrow> string list" where
  "Warnings labels hostnames =
     (let inst = TrimSpace (case map_of labels instanceLabel of None \<Rightarrow> [] | Some v \<Rightarrow> v) in
      if inst = []
      then [''remote_write identity: label instance is not set; two exporters with the remaining labels write the same systemd_service_state series'']
      else if MatchesHost inst hostnames then []
      else [''remote_write identity: configured instance='' @ quote inst @ '' does not match this host ('' @
            join '', '' hostnames @ ''); a second exporter with the same labels will overwrite systemd_service_state''])"

definition FormatLabels :: "(string \<times> string) list \<Rightarrow> string" where
  "FormatLabels labels =
     (if labels = [] then ''(none)''
      else join '' '' (map (\<lambda>name. name @ ''='' @ quote (case map_of labels name of None \<Rightarrow> [] | Some v \<Rightarrow> v))
             (sort (map fst labels))))"

section \<open>The local names\<close>

lemma appendUnique_distinct: "distinct names \<Longrightarrow> distinct (appendUnique names n)"
  by (simp add: appendUnique_def)

lemma appendUnique_set: "set (appendUnique names n) = insert n (set names)"
  by (auto simp: appendUnique_def)

lemma appendHostname_names:
  assumes "distinct names" and "[] \<notin> set names"
  shows "distinct (appendHostname names raw)" and "[] \<notin> set (appendHostname names raw)"
  using assms by (auto simp: appendHostname_def appendUnique_distinct appendUnique_set Let_def split: option.split)

text \<open>The local names are distinct and not empty, and a host name that counts is one of them.\<close>

lemma LocalHostnames_wellformed:
  "distinct (LocalHostnames h b) \<and> [] \<notin> set (LocalHostnames h b)"
  using appendHostname_names [of "[]"] appendHostname_names [of "appendHostname [] (the h)"]
  by (cases h; cases b) (simp_all add: LocalHostnames_def Let_def)

lemma MatchesHost_own_name:
  "h \<in> set names \<Longrightarrow> normalizeHostname h \<noteq> [] \<Longrightarrow> normalizeHostname inst = normalizeHostname h \<Longrightarrow> MatchesHost inst names"
  by (auto simp: MatchesHost_def list_ex_iff same_host_def Let_def)

text \<open>A matching instance gives no warning; otherwise there is exactly one.\<close>

lemma Warnings_cases:
  "Warnings labels hostnames = [] \<longleftrightarrow> (\<exists>v. map_of labels instanceLabel = Some v \<and> TrimSpace v \<noteq> [] \<and> MatchesHost (TrimSpace v) hostnames)"
  "length (Warnings labels hostnames) \<le> 1"
proof -
  have "TrimSpace [] = []" by (simp add: TrimSpace_def)
  then show "Warnings labels hostnames = [] \<longleftrightarrow>
      (\<exists>v. map_of labels instanceLabel = Some v \<and> TrimSpace v \<noteq> [] \<and> MatchesHost (TrimSpace v) hostnames)"
    by (simp add: Warnings_def Let_def split: option.split)
  show "length (Warnings labels hostnames) \<le> 1" by (simp add: Warnings_def Let_def)
qed

end
