(* ===== verification/Exporter.thy ===== *)
theory Exporter
  imports Engine Wal Backfill Delivery Config Systemd Probes Metrics LocalAddr Identity
begin

text \<open>
  The program itself, \<open>cmd/systemd-transition-exporter/main.go\<close>: the start-up sequence that rebuilds the
  engine from the write-ahead log, handles a reboot and recovers the current slot, and the handlers that
  the monitor, the probes and the reconnect logic call while it runs.

  The state is the record \<open>exporter\<close> of the parts that \<open>main\<close>'s closures share. A handler returns \<open>None\<close> when
  it panics (an assignment to the nil map of a damaged state file), and otherwise the error it returns and
  the new state; a \<open>log.Fatal\<close> of the start-up is \<open>Inl\<close>. The clock a handler reads for the log's rate limit
  is one value per call. The HTTP routes are in \<open>Monitoring\<close>; flags and log lines are left out.
\<close>

section \<open>State\<close>

record exporter =
  ex_cfg :: config
  ex_engine :: engine
  ex_wal :: "wal option"
  ex_reg :: registry
  ex_targets :: "sender option worker list"
  ex_sip :: prober
  ex_dns :: prober
  ex_agw :: prober

datatype exporter_error =
    XWal wal_error | XRecover string | XFill string | XBootID string | XBootTime string | XLocalIPs local_error
  | XProbe string local_error | XConfig config_error | XListenPort listen_error | XListen string | XTarget string rw_error

section \<open>Configuration of the probes\<close>

definition probe_kind :: "service \<Rightarrow> string" where
  "probe_kind svc = (if sv_DNS svc \<noteq> [] then ''dns'' else if sv_AGW svc \<noteq> [] then ''agw'' else ''sip'')"

definition probe_uri :: "service \<Rightarrow> string" where
  "probe_uri svc = (if sv_DNS svc \<noteq> [] then sv_DNS svc else if sv_AGW svc \<noteq> [] then sv_AGW svc else sv_SIP svc)"

definition service_probe :: "service \<Rightarrow> probe" where
  "service_probe svc = \<lparr>pb_Service = sv_Name svc, pb_URI = probe_uri svc, pb_Addr = sv_Addr svc, pb_Interval = sv_Interval svc\<rparr>"

text \<open>
  The loop over the services. The addresses of the machine are read once, when the first target is met;
  reading the same interfaces again gives the same list.
\<close>

fun configure_probes ::
  "string + (string \<times> (string + net_addr list)) list \<Rightarrow> service list \<Rightarrow>
   exporter_error + (probe list \<times> probe list \<times> probe list)" where
  "configure_probes ifaces [] = Inr ([], [], [])"
| "configure_probes ifaces (svc # rest) =
     (if probe_uri svc = [] then configure_probes ifaces rest
      else case LocalIPs ifaces of
          Inl err \<Rightarrow> Inl (XLocalIPs err)
        | Inr localIPs \<Rightarrow>
          (case RequireLocal (sv_Addr svc) localIPs of
             Some err \<Rightarrow> Inl (XProbe (sv_Name svc) err)
           | None \<Rightarrow>
             (case configure_probes ifaces rest of
                Inl err \<Rightarrow> Inl err
              | Inr (sips, dnss, agws) \<Rightarrow>
                Inr (if probe_kind svc = ''sip'' then (service_probe svc # sips, dnss, agws)
                     else if probe_kind svc = ''dns'' then (sips, service_probe svc # dnss, agws)
                     else (sips, dnss, service_probe svc # agws)))))"

definition delayed_services :: "probe list \<times> probe list \<times> probe list \<Rightarrow> string list" where
  "delayed_services ps = (case ps of (sips, dnss, agws) \<Rightarrow> map pb_Service sips @ map pb_Service dnss @ map pb_Service agws)"

section \<open>Persisting\<close>

definition publishWAL :: "exporter \<Rightarrow> exporter" where
  "publishWAL ex =
     (case ex_wal ex of None \<Rightarrow> ex
      | Some w \<Rightarrow> ex\<lparr>ex_reg := SetWALStatus (Writable w) (Pending w) (ex_reg ex)\<rparr>)"

definition appendEvent :: "event \<Rightarrow> go_time \<Rightarrow> exporter \<Rightarrow> exporter_error option \<times> exporter" where
  "appendEvent ev now ex =
     (case ex_wal ex of None \<Rightarrow> (None, ex)
      | Some w \<Rightarrow> (case Append ev now w of (err, w') \<Rightarrow> (map_option XWal err, publishWAL (ex\<lparr>ex_wal := Some w'\<rparr>))))"

definition saveState :: "service_state \<Rightarrow> go_time \<Rightarrow> exporter \<Rightarrow> (exporter_error option \<times> exporter) option" where
  "saveState st now ex =
     (case ex_wal ex of None \<Rightarrow> Some (None, ex)
      | Some w \<Rightarrow>
        (case SaveState st now w of None \<Rightarrow> None
         | Some (err, w') \<Rightarrow> Some (map_option XWal err, publishWAL (ex\<lparr>ex_wal := Some w'\<rparr>))))"

text \<open>\<open>if state, ok := eng.State(service); ok { saveState(state) }\<close>, as three callers have it.\<close>

definition save_service :: "string \<Rightarrow> go_time \<Rightarrow> exporter \<Rightarrow> (exporter_error option \<times> exporter) option" where
  "save_service service now ex =
     (case Engine_State (ex_engine ex) service of None \<Rightarrow> Some (None, ex) | Some st \<Rightarrow> saveState st now ex)"

definition persistEvent :: "event \<Rightarrow> bool \<Rightarrow> go_time \<Rightarrow> exporter \<Rightarrow> exporter_error option \<times> exporter" where
  "persistEvent ev enq now ex =
     (case appendEvent ev now ex of
        (Some err, ex1) \<Rightarrow> (Some err, ex1)
      | (None, ex1) \<Rightarrow>
        (None, if enq then ex1\<lparr>ex_targets := map (\<lambda>w. snd (EnqueueEvent ev w)) (ex_targets ex1)\<rparr> else ex1))"

text \<open>The loop that persists the events of one call and counts them.\<close>

fun persist_events :: "event list \<Rightarrow> bool \<Rightarrow> go_time \<Rightarrow> exporter \<Rightarrow> exporter_error option \<times> exporter" where
  "persist_events [] enq now ex = (None, ex)"
| "persist_events (ev # evs) enq now ex =
     (case persistEvent ev enq now ex of
        (Some err, ex1) \<Rightarrow> (Some err, ex1)
      | (None, ex1) \<Rightarrow> persist_events evs enq now (ex1\<lparr>ex_reg := Event ev (ex_reg ex1)\<rparr>))"

section \<open>Handlers\<close>

definition publishReady :: "string \<Rightarrow> go_time \<Rightarrow> event_source \<Rightarrow> go_time \<Rightarrow> exporter \<Rightarrow> exporter option" where
  "publishReady service at' source now ex =
     (case ConfirmReady (ex_engine ex) service at' source of (e1, r) \<Rightarrow>
        let ex1 = ex\<lparr>ex_engine := e1\<rparr> in
        case r of None \<Rightarrow> Some ex1
        | Some ev \<Rightarrow>
          (case persistEvent ev True now ex1 of
             (Some _, ex2) \<Rightarrow> Some ex2
           | (None, ex2) \<Rightarrow>
             let ex3 = ex2\<lparr>ex_reg := Event ev (ex_reg ex2)\<rparr> in
             (case save_service service now ex3 of
                None \<Rightarrow> None
              | Some (_, ex4) \<Rightarrow> Some (ex4\<lparr>ex_reg := SetState service StateUp (ex_reg ex4)\<rparr>))))"

definition start_probes :: "string \<Rightarrow> exporter \<Rightarrow> exporter" where
  "start_probes service ex =
     ex\<lparr>ex_sip := Start service (ex_sip ex), ex_dns := dns_Start service (ex_dns ex), ex_agw := agw_Start service (ex_agw ex)\<rparr>"

definition stop_probes :: "string \<Rightarrow> exporter \<Rightarrow> exporter" where
  "stop_probes service ex =
     ex\<lparr>ex_sip := Stop service (ex_sip ex), ex_dns := dns_Stop service (ex_dns ex), ex_agw := agw_Stop service (ex_agw ex)\<rparr>"

text \<open>The state \<open>onSnapshot\<close> saves: the engine's, or one made from the snapshot if it has none.\<close>

definition snapshot_state :: "unit_snapshot \<Rightarrow> engine \<Rightarrow> service_state" where
  "snapshot_state s e =
     (case Engine_State e (us_Service s) of
        Some st \<Rightarrow> st
      | None \<Rightarrow> zero_service_state\<lparr>st_Service := us_Service s, st_Availability := AvailabilityFromActiveState (us_ActiveState s),
           st_ActiveState := us_ActiveState s, st_SubState := us_SubState s, st_BootID := us_BootID s\<rparr>)"

definition onSnapshot :: "unit_snapshot \<Rightarrow> go_time \<Rightarrow> exporter \<Rightarrow> (exporter_error option \<times> exporter) option" where
  "onSnapshot s now ex =
     (case Apply (ex_engine ex) s of (e1, evs) \<Rightarrow>
        (case persist_events evs True now (ex\<lparr>ex_engine := e1\<rparr>) of
           (Some err, ex1) \<Rightarrow> Some (Some err, ex1)
         | (None, ex1) \<Rightarrow>
           let st = snapshot_state s (ex_engine ex1) in
           (case saveState st now ex1 of
              None \<Rightarrow> None
            | Some (Some err, ex2) \<Rightarrow> Some (Some err, ex2)
            | Some (None, ex2) \<Rightarrow>
              let ex3 = ex2\<lparr>ex_reg := SetState (us_Service s) (st_Availability st) (ex_reg ex2)\<rparr> in
              Some (None, if st_AwaitingSIP st then start_probes (us_Service s) ex3 else stop_probes (us_Service s) ex3))))"

text \<open>
  The loop that imports recovered transitions, of the start-up and of \<open>onRecovery\<close>: the engine decides,
  each event it emits is persisted without being enqueued and counted, and the state of its service is
  saved before the next one. The events imported so far are of use only when the loop ends without error.
\<close>

fun import_emitted :: "event list \<Rightarrow> go_time \<Rightarrow> exporter \<Rightarrow> (exporter_error option \<times> exporter) option" where
  "import_emitted [] now ex = Some (None, ex)"
| "import_emitted (ev # evs) now ex =
     (case persistEvent ev False now ex of
        (Some err, ex1) \<Rightarrow> Some (Some err, ex1)
      | (None, ex1) \<Rightarrow>
        (case save_service (ev_Service ev) now (ex1\<lparr>ex_reg := Event ev (ex_reg ex1)\<rparr>) of
           None \<Rightarrow> None
         | Some (Some err, ex2) \<Rightarrow> Some (Some err, ex2)
         | Some (None, ex2) \<Rightarrow> import_emitted evs now ex2))"

fun import_events ::
  "event list \<Rightarrow> go_time \<Rightarrow> exporter \<Rightarrow> ((exporter_error option \<times> event list) \<times> exporter) option" where
  "import_events [] now ex = Some ((None, []), ex)"
| "import_events (c # cs) now ex =
     (case ApplyRecovery (ex_engine ex) c of (e1, evs) \<Rightarrow>
        (case import_emitted evs now (ex\<lparr>ex_engine := e1\<rparr>) of
           None \<Rightarrow> None
         | Some (Some err, ex1) \<Rightarrow> Some ((Some err, []), ex1)
         | Some (None, ex1) \<Rightarrow>
           (case import_events cs now ex1 of None \<Rightarrow> None
            | Some ((err, evs2), ex2) \<Rightarrow> Some ((err, evs @ evs2), ex2))))"

definition engineStates :: "exporter \<Rightarrow> string \<Rightarrow> availability option" where
  "engineStates ex service =
     (if service \<in> set (Units (ex_cfg ex)) then map_option st_Availability (Engine_State (ex_engine ex) service) else None)"

record recovery_env =
  rv_journalctl :: journalctl
  rv_loc :: location
  rv_now :: go_time

definition onRecovery ::
  "recovery_env \<Rightarrow> go_time \<Rightarrow> go_time \<Rightarrow> exporter \<Rightarrow> (exporter_error option \<times> exporter) option" where
  "onRecovery env from to ex =
     (let rw = cf_RemoteWrite (ex_cfg ex); units = Units (ex_cfg ex) in
      case RecoveryWindow (rv_loc env) to (rc_RecoveryWindow rw) of
        None \<Rightarrow> Some (None, ex)
      | Some (ws, we) \<Rightarrow>
        let ex1 = ex\<lparr>ex_reg := RecordRecovery from ws we (ex_reg ex)\<rparr> in
        (case Recover (rv_journalctl env) (rv_loc env) units ws we of
           Inl err \<Rightarrow> Some (Some (XRecover err), ex1)
         | Inr events \<Rightarrow>
           (case import_events events (rv_now env) ex1 of
              None \<Rightarrow> None
            | Some ((Some err, _), ex2) \<Rightarrow> Some (Some err, ex2)
            | Some ((None, recovered), ex2) \<Rightarrow>
              if ex_targets ex2 = [] then Some (None, ex2)
              else
                (case BuildStateFill (rv_journalctl env) (rv_loc env) units ws we events (rc_RecoveryFillInterval rw)
                        (engineStates ex2) of
                   Inl err \<Rightarrow> Some (Some (XFill err), ex2)
                 | Inr fill \<Rightarrow>
                   Some (None, ex2\<lparr>ex_targets := map (\<lambda>w. snd (EnqueueRecovery fill recovered w)) (ex_targets ex2)\<rparr>)))))"

section \<open>Start-up\<close>

definition restore_states :: "exporter \<Rightarrow> exporter" where
  "restore_states ex =
     (case ex_wal ex of None \<Rightarrow> ex
      | Some w \<Rightarrow>
        fold (\<lambda>st x. x\<lparr>ex_engine := RestoreState (ex_engine x) st,
                        ex_reg := SetState (st_Service st) (st_Availability st) (ex_reg x)\<rparr>)
          (States w) (publishWAL ex))"

definition replay_events :: "event list \<Rightarrow> exporter \<Rightarrow> exporter" where
  "replay_events evs ex =
     fold (\<lambda>ev x. x\<lparr>ex_engine := Replay (ex_engine x) ev, ex_reg := Event ev (ex_reg x)\<rparr>) evs ex"

text \<open>The exporter before any event: an empty engine with the probed services held back.\<close>

definition fresh_exporter :: "config \<Rightarrow> probe list \<times> probe list \<times> probe list \<Rightarrow> wal option \<Rightarrow> string \<Rightarrow> string \<Rightarrow> exporter" where
  "fresh_exporter cfg ps w hostname instance' =
     (case ps of (sips, dnss, agws) \<Rightarrow>
      \<lparr>ex_cfg = cfg, ex_engine = DelayUpUntilReady Engine_New (delayed_services ps), ex_wal = w,
       ex_reg = SetIdentity hostname instance' (sc_Listen (cf_Server cfg)) Metrics_New, ex_targets = [],
       ex_sip = Prober_New sips, ex_dns = dns_New dnss, ex_agw = agw_New agws\<rparr>)"

text \<open>
  The part that reads the log back: the saved states first, then the durable events. An error while
  reading the log is only reported, and the events read before it are replayed.
\<close>

definition rebuild :: "io_error option \<Rightarrow> exporter \<Rightarrow> exporter \<times> event list" where
  "rebuild readErr ex =
     (let ex1 = restore_states ex in
      case ex_wal ex1 of None \<Rightarrow> (ex1, [])
      | Some w \<Rightarrow> let evs = fst (ReadAll (w_log w) readErr) in (replay_events evs ex1, evs))"

definition boot_changed :: "string list \<Rightarrow> string \<Rightarrow> engine \<Rightarrow> bool" where
  "boot_changed units bootID e \<longleftrightarrow>
     list_ex (\<lambda>service. case Engine_State e service of None \<Rightarrow> False
        | Some st \<Rightarrow> st_BootID st \<noteq> [] \<and> st_BootID st \<noteq> bootID) units"

fun save_units :: "string list \<Rightarrow> go_time \<Rightarrow> exporter \<Rightarrow> (exporter_error option \<times> exporter) option" where
  "save_units [] now ex = Some (None, ex)"
| "save_units (u # us) now ex =
     (case save_service u now ex of None \<Rightarrow> None
      | Some (Some err, ex1) \<Rightarrow> Some (Some err, ex1)
      | Some (None, ex1) \<Rightarrow> save_units us now ex1)"

text \<open>The reboot handling; \<open>order\<close> is the order in which \<open>ApplyReboot\<close> visits its map.\<close>

definition handle_reboot ::
  "string \<Rightarrow> string + go_time \<Rightarrow> go_time \<Rightarrow> string list \<Rightarrow> go_time \<Rightarrow> exporter \<Rightarrow> (exporter_error option \<times> exporter) option" where
  "handle_reboot bootID bootTime slotStart order now ex =
     (if \<not> boot_changed (Units (ex_cfg ex)) bootID (ex_engine ex) then Some (None, ex)
      else case bootTime of
          Inl err \<Rightarrow> Some (Some (XBootTime err), ex)
        | Inr t \<Rightarrow>
          let e0 = (if t < slotStart then AdoptBootID (ex_engine ex) bootID else ex_engine ex) in
          (case ApplyReboot e0 order bootID t of (e1, evs) \<Rightarrow>
             (case persist_events evs False now (ex\<lparr>ex_engine := e1\<rparr>) of
                (Some err, ex1) \<Rightarrow> Some (Some err, ex1)
              | (None, ex1) \<Rightarrow>
                if ex_wal ex1 = None then Some (None, ex1) else save_units (Units (ex_cfg ex1)) now ex1)))"

text \<open>Where the observation gap of the start-up begins: the newest durable event, or a fixed interval back.\<close>

definition startup_observed_from :: "go_time \<Rightarrow> duration \<Rightarrow> event list \<Rightarrow> go_time" where
  "startup_observed_from startupTo interval evs =
     (case evs of [] \<Rightarrow> startupTo - interval
      | ev # rest \<Rightarrow> fold (\<lambda>x m. max m (ev_EventTimeUnixMS x)) rest (ev_EventTimeUnixMS ev) * 1000000)"

text \<open>The recovery of the current slot at start-up: the recovered events, the fill and the slot start.\<close>

definition startup_recovery ::
  "recovery_env \<Rightarrow> go_time \<Rightarrow> go_time \<Rightarrow> (string \<Rightarrow> availability option) \<Rightarrow> exporter \<Rightarrow>
   ((exporter_error option \<times> event list \<times> state_sample list \<times> go_time) \<times> exporter) option" where
  "startup_recovery env observedFrom startupTo startupStates ex =
     (let rw = cf_RemoteWrite (ex_cfg ex); units = Units (ex_cfg ex) in
      case RecoveryWindow (rv_loc env) startupTo (rc_RecoveryWindow rw) of
        None \<Rightarrow> Some ((None, [], [], zero_time), ex)
      | Some (ws, we) \<Rightarrow>
        let ex1 = ex\<lparr>ex_reg := RecordRecovery observedFrom ws we (ex_reg ex)\<rparr> in
        (case Recover (rv_journalctl env) (rv_loc env) units ws we of
           Inl err \<Rightarrow> Some ((None, [], [], ws), ex1)
         | Inr events \<Rightarrow>
           (case import_events events (rv_now env) ex1 of
              None \<Rightarrow> None
            | Some ((Some err, _), ex2) \<Rightarrow> Some ((Some err, [], [], ws), ex2)
            | Some ((None, recovered), ex2) \<Rightarrow>
              (case BuildStateFill (rv_journalctl env) (rv_loc env) units ws we events (rc_RecoveryFillInterval rw) startupStates of
                 Inl err \<Rightarrow> Some ((None, recovered, [], ws), ex2)
               | Inr fill \<Rightarrow> Some ((None, recovered, fill, ws), ex2)))))"

text \<open>The events handed to the workers: the whole log when there is one.\<close>

definition delivery_startup_events :: "event list \<Rightarrow> io_error option \<Rightarrow> exporter \<Rightarrow> event list" where
  "delivery_startup_events recovered readErr ex =
     (case ex_wal ex of None \<Rightarrow> recovered | Some w \<Rightarrow> fst (ReadAll (w_log w) readErr))"

definition target_rw_config :: "remote_write_config \<Rightarrow> remote_write_target \<Rightarrow> rw_config" where
  "target_rw_config rw t = \<lparr>rw_Enabled = True, rw_URL = rt_URL t, rw_BatchSize = rc_BatchSize rw,
     rw_FlushInterval = rc_FlushInterval rw, rw_RetryInterval = rc_RetryInterval rw, rw_Timeout = rc_Timeout rw,
     rw_Checkpoint = rt_Checkpoint t, rw_StateInterval = rc_StateInterval rw, rw_Labels = rc_Labels rw\<rparr>"

definition target_worker_config ::
  "config \<Rightarrow> remote_write_target \<Rightarrow> event list \<Rightarrow> state_sample list \<Rightarrow> go_time \<Rightarrow> worker_config" where
  "target_worker_config cfg t evs fill slot =
     (let rw = cf_RemoteWrite cfg in
      \<lparr>wc_TargetID = rt_ID t, wc_BatchSize = rc_BatchSize rw, wc_FlushInterval = rc_FlushInterval rw,
       wc_StateInterval = rc_StateInterval rw, wc_RecoveryWindow = rc_RecoveryWindow rw, wc_Services = Units cfg,
       wc_StartupEvents = evs, wc_StartupFill = fill, wc_StartupSlot = slot\<rparr>)"

text \<open>One receiver, over a sender that was created for it.\<close>

definition add_target ::
  "remote_write_target \<Rightarrow> sender option \<Rightarrow> event list \<Rightarrow> state_sample list \<Rightarrow> go_time \<Rightarrow> exporter \<Rightarrow> exporter" where
  "add_target t so evs fill slot ex =
     ex\<lparr>ex_targets := ex_targets ex @ [Worker_New (target_worker_config (ex_cfg ex) t evs fill slot) so],
        ex_reg := (case so of None \<Rightarrow> ex_reg ex | Some s \<Rightarrow> SetRemoteWriteStats (rt_ID t) (Stats s) (ex_reg ex))\<rparr>"

text \<open>
  The loop over the receivers. The environment of one holds its checkpoint files, the first call of the
  migration that fails, the error of reading the checkpoint, and the outcomes its sender will meet.
\<close>

record target_env =
  te_files :: mig_files
  te_fault :: "(mig_step \<times> string) option"
  te_readErr :: "string option"
  te_sender :: sender

definition start_target ::
  "remote_write_target \<Rightarrow> target_env \<Rightarrow> event list \<Rightarrow> state_sample list \<Rightarrow> go_time \<Rightarrow> exporter \<Rightarrow> exporter_error + exporter" where
  "start_target t env evs fill slot ex =
     (case MigrateCheckpoint (rt_LegacyCheckpoint t) (rt_Checkpoint t) (te_fault env) (te_files env) of
        (Some err, _) \<Rightarrow> Inl (XTarget (rt_ID t) err)
      | (None, files) \<Rightarrow>
        (case Sender_New (target_rw_config (cf_RemoteWrite (ex_cfg ex)) t) (te_readErr env)
                ((te_sender env)\<lparr>sd_file := mg_destination files\<rparr>) of
           Inl err \<Rightarrow> Inl (XTarget (rt_ID t) err)
         | Inr so \<Rightarrow> Inr (add_target t so evs fill slot ex)))"

fun start_targets ::
  "remote_write_target list \<Rightarrow> (remote_write_target \<Rightarrow> target_env) \<Rightarrow> event list \<Rightarrow> state_sample list \<Rightarrow> go_time \<Rightarrow> exporter \<Rightarrow>
   exporter_error + exporter" where
  "start_targets [] env evs fill slot ex = Inr ex"
| "start_targets (t # ts) env evs fill slot ex =
     (case start_target t (env t) evs fill slot ex of
        Inl err \<Rightarrow> Inl err
      | Inr ex1 \<Rightarrow> start_targets ts env evs fill slot ex1)"

text \<open>
  What the start-up meets: the interfaces and host names, the outcomes of listening, of opening the log and
  of reading it twice, the clock, the boot and the uptime, the order in which the reboot visits the services,
  the bus, the journal and the receivers.
\<close>

record startup_env =
  su_ifaces :: "string + (string \<times> (string + net_addr list)) list"
  su_hostname :: "string option"
  su_etcHostname :: "string option"
  su_listenErr :: "string option"
  su_disk :: disk
  su_logFile :: "string option"
  su_mkdirErr :: "io_error option"
  su_repairErrs :: "io_error option \<times> io_error option \<times> io_error option"
  su_openErr :: "io_error option"
  su_stateErr :: "io_error option"
  su_replayErr :: "io_error option"
  su_scanErr :: "io_error option"
  su_startupTo :: go_time
  su_clock :: go_time
  su_bootRead :: "string + string"
  su_uptime :: "string + string"
  su_uptimeAt :: go_time
  su_outside :: "float64 \<Rightarrow> int"
  su_rebootOrder :: "string list"
  su_states :: "string option \<times> (string \<Rightarrow> load_outcome) \<times> (string \<Rightarrow> go_time \<times> call_outcome)"
  su_recovery :: recovery_env
  su_targets :: "remote_write_target \<Rightarrow> target_env"

text \<open>The log, when it is enabled.\<close>

definition open_log :: "config \<Rightarrow> startup_env \<Rightarrow> exporter_error + wal option" where
  "open_log cfg env =
     (if wl_Enabled (cf_WAL cfg)
      then (case Open (su_disk env) (wl_Fsync (cf_WAL cfg)) (su_logFile env) (su_mkdirErr env) (su_repairErrs env)
                   (su_openErr env) (su_stateErr env) of Inl err \<Rightarrow> Inl (XWal err) | Inr w \<Rightarrow> Inr (Some w))
      else Inr None)"

definition startup_states :: "config \<Rightarrow> startup_env \<Rightarrow> string \<Rightarrow> availability option" where
  "startup_states cfg env =
     (case su_states env of (connectErr, load, reply) \<Rightarrow>
        (case CurrentStates connectErr load reply (Units cfg) of Inl _ \<Rightarrow> Map.empty | Inr m \<Rightarrow> m))"

text \<open>The part of \<open>main\<close> after the log is open: rebuild, reboot, recovery of the slot, receivers.\<close>

definition start_pipeline :: "startup_env \<Rightarrow> exporter \<Rightarrow> (exporter_error + exporter) option" where
  "start_pipeline env ex0 =
     (let cfg = ex_cfg ex0; rw = cf_RemoteWrite cfg; startupTo = su_startupTo env in
      case rebuild (su_replayErr env) ex0 of (ex1, durableEvents) \<Rightarrow>
      (case BootID (su_bootRead env) of
         Inl e \<Rightarrow> Some (Inl (XBootID e))
       | Inr bootID \<Rightarrow>
         (case handle_reboot bootID (BootTime (su_outside env) (su_uptime env) (su_uptimeAt env)) (SlotStart (rv_loc (su_recovery env)) startupTo (rc_RecoveryWindow rw))
                 (su_rebootOrder env) (su_clock env) ex1 of
            None \<Rightarrow> None
          | Some (Some err, _) \<Rightarrow> Some (Inl err)
          | Some (None, ex2) \<Rightarrow>
            (case startup_recovery (su_recovery env)
                    (startup_observed_from startupTo (sy_StartupRecoveryInterval (cf_Systemd cfg)) durableEvents)
                    startupTo (startup_states cfg env) ex2 of
               None \<Rightarrow> None
             | Some ((Some err, _), _) \<Rightarrow> Some (Inl err)
             | Some ((None, recovered, fill, slot), ex3) \<Rightarrow>
               Some (start_targets (rc_Targets rw) (su_targets env) (delivery_startup_events recovered (su_scanErr env) ex3)
                       fill slot ex3)))))"

text \<open>\<open>main\<close> up to the point where the monitor starts; \<open>listenPort\<close> is the command line flag, 0 when absent.\<close>

definition main_start ::
  "(string \<Rightarrow> string + config) \<Rightarrow> string + string \<Rightarrow> int \<Rightarrow> startup_env \<Rightarrow> (exporter_error + exporter) option" where
  "main_start yaml configFile listenPort env =
     (case Load yaml configFile of
        Inl err \<Rightarrow> Some (Inl (XConfig err))
      | Inr cfg0 \<Rightarrow>
        (case (if listenPort \<noteq> 0 then WithListenPort (sc_Listen (cf_Server cfg0)) listenPort else Inr (sc_Listen (cf_Server cfg0))) of
           Inl err \<Rightarrow> Some (Inl (XListenPort err))
         | Inr listen \<Rightarrow>
           let cfg = cfg0\<lparr>cf_Server := (cf_Server cfg0)\<lparr>sc_Listen := listen\<rparr>\<rparr> in
           (case configure_probes (su_ifaces env) (cf_Services cfg) of
              Inl err \<Rightarrow> Some (Inl err)
            | Inr ps \<Rightarrow>
              (case su_listenErr env of
                 Some e \<Rightarrow> Some (Inl (XListen e))
               | None \<Rightarrow>
                 (case open_log cfg env of
                    Inl err \<Rightarrow> Some (Inl err)
                  | Inr w \<Rightarrow>
                    let hostnames = LocalHostnames (su_hostname env) (su_etcHostname env);
                        inst = (case map_of (rc_Labels (cf_RemoteWrite cfg)) ''instance'' of None \<Rightarrow> [] | Some v \<Rightarrow> v)
                    in start_pipeline env (fresh_exporter cfg ps w (PrimaryHostname hostnames) inst))))))"

text \<open>The callback that reports the state of the connection.\<close>

definition onConnectionState :: "bool \<Rightarrow> go_time \<Rightarrow> exporter \<Rightarrow> exporter" where
  "onConnectionState isConnected t ex = ex\<lparr>ex_reg := SetDBusConnected isConnected t (ex_reg ex)\<rparr>"

section \<open>Every transition is logged\<close>

text \<open>The calls the handlers make while the exporter runs, and what they ask of the engine.\<close>

datatype exporter_op =
    XSnapshot unit_snapshot go_time
  | XReady string go_time event_source go_time
  | XRecovery recovery_env go_time go_time

fun exporter_step :: "exporter_op \<Rightarrow> exporter \<Rightarrow> exporter option" where
  "exporter_step (XSnapshot s now) ex = map_option snd (onSnapshot s now ex)"
| "exporter_step (XReady service at' source now) ex = publishReady service at' source now ex"
| "exporter_step (XRecovery env from to) ex = map_option snd (onRecovery env from to ex)"

fun exporter_run :: "exporter_op list \<Rightarrow> exporter \<Rightarrow> exporter option" where
  "exporter_run [] ex = Some ex"
| "exporter_run (x # xs) ex = (case exporter_step x ex of None \<Rightarrow> None | Some ex1 \<Rightarrow> exporter_run xs ex1)"

fun engine_calls :: "config \<Rightarrow> exporter_op \<Rightarrow> engine_op list" where
  "engine_calls cfg (XSnapshot s now) = [OpApply s]"
| "engine_calls cfg (XReady service at' source now) = [OpConfirm service at' source]"
| "engine_calls cfg (XRecovery env from to) =
     (case RecoveryWindow (rv_loc env) to (rc_RecoveryWindow (cf_RemoteWrite cfg)) of None \<Rightarrow> []
      | Some (ws, we) \<Rightarrow>
        (case Recover (rv_journalctl env) (rv_loc env) (Units cfg) ws we of Inl _ \<Rightarrow> []
         | Inr events \<Rightarrow> map OpRecovery events))"

text \<open>The saved state of a service, and the states an engine holds.\<close>

definition saved :: "exporter \<Rightarrow> string \<Rightarrow> service_state option" where
  "saved ex k = (case ex_wal ex of None \<Rightarrow> None | Some w \<Rightarrow> (case w_states w of None \<Rightarrow> None | Some m \<Rightarrow> map_of m k))"

definition state_in :: "engine set \<Rightarrow> string \<Rightarrow> service_state option \<Rightarrow> bool" where
  "state_in E k so \<longleftrightarrow> (\<exists>st e i. so = Some st \<and> st_Service st = k \<and> e \<in> E \<and> eng_states e i = Some st)"

text \<open>The engines a sequence of calls passes through.\<close>

definition passes :: "engine \<Rightarrow> engine_op list \<Rightarrow> engine set" where
  "passes e xs = {fst (run_ops engine_step e ys) | ys zs. xs = ys @ zs}"

text \<open>
  What holds between the exporter before and after a handler that made the given calls: the engine made
  them, the log took responsibility for exactly the events they emitted, in order, a saved state is the
  one before or one the engine had on the way, and files that are in step with the log stay so.
\<close>

definition logs :: "engine_op list \<Rightarrow> exporter \<Rightarrow> exporter \<Rightarrow> bool" where
  "logs xs ex ex' \<longleftrightarrow> ex_cfg ex' = ex_cfg ex \<and>
     (\<forall>k. saved ex' k = saved ex k \<or> state_in (passes (ex_engine ex) xs) k (saved ex' k)) \<and>
     (\<exists>w w' evs. ex_wal ex = Some w \<and> ex_wal ex' = Some w' \<and> durable w' \<and> (synced w \<longrightarrow> synced w') \<and>
        run_ops engine_step (ex_engine ex) xs = (ex_engine ex', evs) \<and> accepted w' = accepted w @ log_of evs)"

definition logging :: "exporter \<Rightarrow> bool" where
  "logging ex \<longleftrightarrow> (\<exists>w. ex_wal ex = Some w \<and> durable w)"

lemma run_ops_append:
  "run_ops step e (xs @ ys) =
     (case run_ops step e xs of (e1, evs1) \<Rightarrow> case run_ops step e1 ys of (e2, evs2) \<Rightarrow> (e2, evs1 @ evs2))"
  by (induction xs arbitrary: e) (auto simp: Let_def split: prod.splits)

lemma passes_append:
  assumes "run_ops step e xs = (e1, evs)" and "step = engine_step"
  shows "passes e xs \<subseteq> passes e (xs @ ys)" and "passes e1 ys \<subseteq> passes e (xs @ ys)"
proof -
  show "passes e xs \<subseteq> passes e (xs @ ys)" unfolding passes_def by auto
  have "fst (run_ops engine_step e (xs @ zs)) = fst (run_ops engine_step e1 zs)" for zs
    using assms by (simp add: run_ops_append split: prod.split)
  then show "passes e1 ys \<subseteq> passes e (xs @ ys)" unfolding passes_def by auto (metis append.assoc)
qed

lemma state_in_mono: "state_in E k so \<Longrightarrow> E \<subseteq> F \<Longrightarrow> state_in F k so"
  by (auto simp: state_in_def)

lemma logs_trans:
  assumes "logs xs ex ex1" and "logs ys ex1 ex2"
  shows "logs (xs @ ys) ex ex2"
proof -
  obtain evs where run: "run_ops engine_step (ex_engine ex) xs = (ex_engine ex1, evs)"
    using assms(1) by (auto simp: logs_def)
  note p = passes_append [OF run refl, of ys]
  have "saved ex2 k = saved ex k \<or> state_in (passes (ex_engine ex) (xs @ ys)) k (saved ex2 k)" for k
    using assms state_in_mono [OF _ p(1)] state_in_mono [OF _ p(2)] unfolding logs_def by metis
  then show ?thesis using assms by (auto simp: logs_def run_ops_append)
qed

lemma logs_logging: "logs xs ex ex' \<Longrightarrow> logging ex'"
  by (auto simp: logs_def logging_def)

text \<open>The exporter up to the parts that logging does not touch.\<close>

definition same_core :: "exporter \<Rightarrow> exporter \<Rightarrow> bool" where
  "same_core ex ex' \<longleftrightarrow> ex_cfg ex' = ex_cfg ex \<and> ex_engine ex' = ex_engine ex \<and> ex_wal ex' = ex_wal ex"

lemma saved_core: "ex_wal ex' = ex_wal ex \<Longrightarrow> saved ex' = saved ex"
  by (simp add: saved_def fun_eq_iff)

lemma logs_core: "logs xs ex ex1 \<Longrightarrow> same_core ex1 ex2 \<Longrightarrow> logs xs ex ex2"
  by (auto simp: logs_def same_core_def saved_core [of ex2 ex1])

lemma logs_none: "logging ex \<Longrightarrow> same_core ex ex' \<Longrightarrow> logs [] ex ex'"
  by (auto simp: logs_def same_core_def logging_def saved_core [of ex' ex])

lemma publishWAL_core [simp]:
  "ex_wal (publishWAL ex) = ex_wal ex" "ex_engine (publishWAL ex) = ex_engine ex" "ex_cfg (publishWAL ex) = ex_cfg ex"
  "ex_targets (publishWAL ex) = ex_targets ex"
  by (simp_all add: publishWAL_def split: option.split)

text \<open>What persisting a list of events does to the log and leaves alone.\<close>

definition appends :: "event list \<Rightarrow> exporter \<Rightarrow> exporter \<Rightarrow> bool" where
  "appends evs ex ex' \<longleftrightarrow> ex_cfg ex' = ex_cfg ex \<and> ex_engine ex' = ex_engine ex \<and>
     (\<forall>k. saved ex' k = saved ex k \<or> state_in {ex_engine ex} k (saved ex' k)) \<and>
     (\<exists>w w'. ex_wal ex = Some w \<and> ex_wal ex' = Some w' \<and> durable w' \<and> (synced w \<longrightarrow> synced w') \<and>
        accepted w' = accepted w @ log_of evs)"

lemma appends_trans:
  assumes "appends as ex ex1" and "appends bs ex1 ex2"
  shows "appends (as @ bs) ex ex2"
proof -
  have "saved ex2 k = saved ex k \<or> state_in {ex_engine ex} k (saved ex2 k)" for k
    using assms unfolding appends_def by metis
  then show ?thesis using assms by (auto simp: appends_def)
qed

lemma appends_core: "appends evs ex ex1 \<Longrightarrow> same_core ex1 ex2 \<Longrightarrow> appends evs ex ex2"
  by (auto simp: appends_def same_core_def saved_core [of ex2 ex1])

lemma appends_logging: "appends evs ex ex' \<Longrightarrow> logging ex'"
  by (auto simp: appends_def logging_def)

lemma appendEvent_logs:
  assumes "logging ex"
  shows "\<exists>ex'. appendEvent ev now ex = (None, ex') \<and> appends [ev] ex ex' \<and> ex_targets ex' = ex_targets ex"
proof -
  obtain w where w: "ex_wal ex = Some w" "durable w" using assms by (auto simp: logging_def)
  from Append_durable [OF w(2), of ev now] obtain w' where
    a: "Append ev now w = (None, w')" "durable w'" "accepted w' = accepted w @ record_line ev" "w_states w' = w_states w" by blast
  have "synced w \<longrightarrow> synced w'" using Append_synced [of w ev now] a(1) by auto
  with w a show ?thesis by (simp add: appendEvent_def appends_def saved_def)
qed

lemma saveState_logs:
  assumes "logging ex" and "eng_states (ex_engine ex) k = Some st"
  shows "\<exists>ex'. saveState st now ex = Some (None, ex') \<and> appends [] ex ex' \<and> ex_targets ex' = ex_targets ex"
proof -
  obtain w where w: "ex_wal ex = Some w" "durable w" using assms(1) by (auto simp: logging_def)
  from SaveState_durable [OF w(2), of st now] obtain w' m where
    s: "SaveState st now w = Some (None, w')" "durable w'" "accepted w' = accepted w"
      "w_states w = Some m" "w_states w' = Some (AList.update (st_Service st) st m)" by blast
  have "synced w \<longrightarrow> synced w'" using SaveState_synced [of w m st now] s(1,4) by auto
  with w s assms(2) show ?thesis
    by (auto simp: saveState_def appends_def saved_def state_in_def update_conv')
qed

lemma appends_refl: "logging ex \<Longrightarrow> appends [] ex ex"
  by (auto simp: appends_def logging_def)

lemma save_service_logs:
  "logging ex \<Longrightarrow> \<exists>ex'. save_service service now ex = Some (None, ex') \<and> appends [] ex ex' \<and> ex_targets ex' = ex_targets ex"
  using saveState_logs appends_refl
  by (cases "Engine_State (ex_engine ex) service") (auto simp: save_service_def Engine_State_def)

lemma persistEvent_logs:
  assumes "logging ex"
  shows "\<exists>ex'. persistEvent ev enq now ex = (None, ex') \<and> appends [ev] ex ex' \<and>
     ex_targets ex' = (if enq then map (\<lambda>w. snd (EnqueueEvent ev w)) (ex_targets ex) else ex_targets ex)"
proof -
  obtain ex1 where a: "appendEvent ev now ex = (None, ex1)" "appends [ev] ex ex1" "ex_targets ex1 = ex_targets ex"
    using appendEvent_logs [OF assms] by blast
  show ?thesis
    using a appends_core [OF a(2), of "ex1\<lparr>ex_targets := map (\<lambda>w. snd (EnqueueEvent ev w)) (ex_targets ex1)\<rparr>"]
    by (simp add: persistEvent_def same_core_def)
qed

lemma persist_events_logs:
  "logging ex \<Longrightarrow> \<exists>ex'. persist_events evs enq now ex = (None, ex') \<and> appends evs ex ex' \<and>
     ex_targets ex' = (if enq then map (fold (\<lambda>ev w. snd (EnqueueEvent ev w)) evs) (ex_targets ex) else ex_targets ex)"
proof (induction evs arbitrary: ex)
  case Nil
  then show ?case by (simp add: appends_refl)
next
  case (Cons ev evs)
  obtain ex1 where p: "persistEvent ev enq now ex = (None, ex1)" "appends [ev] ex ex1"
      "ex_targets ex1 = (if enq then map (\<lambda>w. snd (EnqueueEvent ev w)) (ex_targets ex) else ex_targets ex)"
    using persistEvent_logs [OF Cons.prems] by blast
  let ?ex2 = "ex1\<lparr>ex_reg := Event ev (ex_reg ex1)\<rparr>"
  have a: "appends [ev] ex ?ex2" by (rule appends_core [OF p(2)]) (simp add: same_core_def)
  obtain ex3 where q: "persist_events evs enq now ?ex2 = (None, ex3)" "appends evs ?ex2 ex3"
      "ex_targets ex3 = (if enq then map (fold (\<lambda>ev w. snd (EnqueueEvent ev w)) evs) (ex_targets ?ex2) else ex_targets ?ex2)"
    using Cons.IH [OF appends_logging [OF a]] by blast
  show ?case using p q appends_trans [OF a q(2)] by auto
qed

text \<open>A handler that makes one engine call and persists what it emits.\<close>

lemma engine_call_logs:
  assumes "engine_step (ex_engine ex) x = (e1, evs)" and "appends evs (ex\<lparr>ex_engine := e1\<rparr>) ex'"
  shows "logs [x] ex ex'"
proof -
  have "e1 = fst (run_ops engine_step (ex_engine ex) [x])" using assms(1) by simp
  then have "{e1} \<subseteq> passes (ex_engine ex) [x]" unfolding passes_def by blast
  moreover have "saved (ex\<lparr>ex_engine := e1\<rparr>) = saved ex" by (rule saved_core) simp
  ultimately have "saved ex' k = saved ex k \<or> state_in (passes (ex_engine ex) [x]) k (saved ex' k)" for k
    using assms(2) state_in_mono [of "{e1}"] by (auto simp: appends_def)
  then show ?thesis using assms by (auto simp: logs_def appends_def)
qed

lemma Apply_known: "Apply e s = (e', evs) \<Longrightarrow> eng_states e' (us_Service s) \<noteq> None"
  by (erule Apply_cases) auto

lemma onSnapshot_logs:
  assumes "logging ex"
  shows "\<exists>ex'. onSnapshot s now ex = Some (None, ex') \<and> logs [OpApply s] ex ex' \<and>
     ex_targets ex' = map (fold (\<lambda>ev w. snd (EnqueueEvent ev w)) (snd (Apply (ex_engine ex) s))) (ex_targets ex)"
proof -
  obtain e1 evs where ap: "Apply (ex_engine ex) s = (e1, evs)" by (cases "Apply (ex_engine ex) s")
  have l: "logging (ex\<lparr>ex_engine := e1\<rparr>)" using assms by (simp add: logging_def)
  obtain ex1 where p: "persist_events evs True now (ex\<lparr>ex_engine := e1\<rparr>) = (None, ex1)" "appends evs (ex\<lparr>ex_engine := e1\<rparr>) ex1"
      "ex_targets ex1 = map (fold (\<lambda>ev w. snd (EnqueueEvent ev w)) evs) (ex_targets ex)"
    using persist_events_logs [OF l, of evs True now] by auto
  let ?st = "snapshot_state s (ex_engine ex1)"
  have "ex_engine ex1 = e1" using p(2) by (simp add: appends_def)
  then have "eng_states (ex_engine ex1) (us_Service s) = Some ?st"
    using Apply_known [OF ap] by (auto simp: snapshot_state_def Engine_State_def)
  then obtain ex2 where sv: "saveState ?st now ex1 = Some (None, ex2)" "appends [] ex1 ex2" "ex_targets ex2 = ex_targets ex1"
    using saveState_logs [OF appends_logging [OF p(2)]] by blast
  have a: "appends evs (ex\<lparr>ex_engine := e1\<rparr>) ex2" using appends_trans [OF p(2) sv(2)] by simp
  let ?ex3 = "ex2\<lparr>ex_reg := SetState (us_Service s) (st_Availability ?st) (ex_reg ex2)\<rparr>"
  let ?ex' = "if st_AwaitingSIP ?st then start_probes (us_Service s) ?ex3 else stop_probes (us_Service s) ?ex3"
  have core: "same_core ex2 ?ex'" "ex_targets ?ex' = ex_targets ex2"
    by (simp_all add: same_core_def start_probes_def stop_probes_def)
  have "onSnapshot s now ex = Some (None, ?ex')" by (simp add: onSnapshot_def ap p(1) sv(1) Let_def)
  moreover have "logs [OpApply s] ex ?ex'"
    by (rule engine_call_logs [of ex "OpApply s" e1 evs]) (use ap appends_core [OF a core(1)] in simp_all)
  ultimately show ?thesis using core(2) sv(3) p(3) ap by auto
qed

lemma publishReady_logs:
  assumes "logging ex"
  shows "\<exists>ex'. publishReady service at' source now ex = Some ex' \<and> logs [OpConfirm service at' source] ex ex'"
proof -
  obtain e1 r where c: "ConfirmReady (ex_engine ex) service at' source = (e1, r)"
    by (cases "ConfirmReady (ex_engine ex) service at' source")
  let ?ex1 = "ex\<lparr>ex_engine := e1\<rparr>"
  have l: "logging ?ex1" using assms by (simp add: logging_def)
  show ?thesis
  proof (cases r)
    case None
    have "appends [] ?ex1 ?ex1" using l by (rule appends_refl)
    then have "logs [OpConfirm service at' source] ex ?ex1" by (rule engine_call_logs [rotated]) (simp add: c None)
    then show ?thesis by (simp add: publishReady_def c None Let_def)
  next
    case (Some ev)
    obtain ex2 where p: "persistEvent ev True now ?ex1 = (None, ex2)" "appends [ev] ?ex1 ex2"
      using persistEvent_logs [OF l] by blast
    let ?ex3 = "ex2\<lparr>ex_reg := Event ev (ex_reg ex2)\<rparr>"
    have a3: "appends [ev] ?ex1 ?ex3" by (rule appends_core [OF p(2)]) (simp add: same_core_def)
    obtain ex4 where sv: "save_service service now ?ex3 = Some (None, ex4)" "appends [] ?ex3 ex4"
      using save_service_logs [OF appends_logging [OF a3]] by blast
    let ?ex' = "ex4\<lparr>ex_reg := SetState service StateUp (ex_reg ex4)\<rparr>"
    have "appends [ev] ?ex1 ?ex'"
      by (rule appends_core [OF appends_trans [OF a3 sv(2), simplified]]) (simp add: same_core_def)
    then have "logs [OpConfirm service at' source] ex ?ex'" by (rule engine_call_logs [rotated]) (simp add: c Some)
    moreover have "publishReady service at' source now ex = Some ?ex'"
      unfolding publishReady_def c prod.case Let_def Some option.case p(1) sv(1) ..
    ultimately show ?thesis by blast
  qed
qed

lemma import_emitted_logs:
  "logging ex \<Longrightarrow> \<exists>ex'. import_emitted evs now ex = Some (None, ex') \<and> appends evs ex ex' \<and> ex_targets ex' = ex_targets ex"
proof (induction evs arbitrary: ex)
  case Nil
  then show ?case by (simp add: appends_refl)
next
  case (Cons ev evs)
  obtain ex1 where p: "persistEvent ev False now ex = (None, ex1)" "appends [ev] ex ex1" "ex_targets ex1 = ex_targets ex"
    using persistEvent_logs [OF Cons.prems, of ev False now] by auto
  let ?ex2 = "ex1\<lparr>ex_reg := Event ev (ex_reg ex1)\<rparr>"
  have a: "appends [ev] ex ?ex2" by (rule appends_core [OF p(2)]) (simp add: same_core_def)
  obtain ex3 where s: "save_service (ev_Service ev) now ?ex2 = Some (None, ex3)" "appends [] ?ex2 ex3" "ex_targets ex3 = ex_targets ex1"
    using save_service_logs [OF appends_logging [OF a]] by fastforce
  have a3: "appends [ev] ex ex3" using appends_trans [OF a s(2)] by simp
  obtain ex4 where r: "import_emitted evs now ex3 = Some (None, ex4)" "appends evs ex3 ex4" "ex_targets ex4 = ex_targets ex3"
    using Cons.IH [OF appends_logging [OF a3]] by blast
  show ?case using p s r appends_trans [OF a3 r(2)] by simp
qed

lemma import_events_logs:
  "logging ex \<Longrightarrow> \<exists>evs ex'. import_events cs now ex = Some ((None, evs), ex') \<and> logs (map OpRecovery cs) ex ex' \<and>
     evs = snd (run_ops engine_step (ex_engine ex) (map OpRecovery cs)) \<and> ex_targets ex' = ex_targets ex"
proof (induction cs arbitrary: ex)
  case Nil
  then show ?case using logs_none [of ex ex] by (simp add: same_core_def)
next
  case (Cons c cs)
  obtain e1 evs where ap: "ApplyRecovery (ex_engine ex) c = (e1, evs)" by (cases "ApplyRecovery (ex_engine ex) c")
  let ?ex0 = "ex\<lparr>ex_engine := e1\<rparr>"
  have l: "logging ?ex0" using Cons.prems by (simp add: logging_def)
  obtain ex1 where p: "import_emitted evs now ?ex0 = Some (None, ex1)" "appends evs ?ex0 ex1" "ex_targets ex1 = ex_targets ex"
    using import_emitted_logs [OF l, of evs now] by auto
  have one: "logs [OpRecovery c] ex ex1" by (rule engine_call_logs [OF _ p(2)]) (simp add: ap)
  have e1: "ex_engine ex1 = e1" using p(2) by (simp add: appends_def)
  obtain evs2 ex3 where r: "import_events cs now ex1 = Some ((None, evs2), ex3)" "logs (map OpRecovery cs) ex1 ex3"
      "evs2 = snd (run_ops engine_step (ex_engine ex1) (map OpRecovery cs))" "ex_targets ex3 = ex_targets ex1"
    using Cons.IH [OF logs_logging [OF one]] by blast
  have "import_events (c # cs) now ex = Some ((None, evs @ evs2), ex3)" by (simp add: ap p(1) r(1))
  moreover have "evs @ evs2 = snd (run_ops engine_step (ex_engine ex) (map OpRecovery (c # cs)))"
    using r(3) e1 by (simp add: ap Let_def split: prod.split)
  ultimately show ?case
    using logs_trans [OF one r(2)] p(3) r(4) by simp
qed

lemma onRecovery_logs:
  assumes "logging ex"
  shows "\<exists>err ex'. onRecovery env from to ex = Some (err, ex') \<and> logs (engine_calls (ex_cfg ex) (XRecovery env from to)) ex ex'"
proof (cases "RecoveryWindow (rv_loc env) to (rc_RecoveryWindow (cf_RemoteWrite (ex_cfg ex)))")
  case None
  then show ?thesis using logs_none [OF assms, of ex] by (simp add: onRecovery_def same_core_def Let_def)
next
  case (Some win)
  obtain ws we where win: "win = (ws, we)" by (cases win)
  let ?ex1 = "ex\<lparr>ex_reg := RecordRecovery from ws we (ex_reg ex)\<rparr>"
  have core: "same_core ex ?ex1" by (simp add: same_core_def)
  note l1 = logs_none [OF assms core]
  show ?thesis
  proof (cases "Recover (rv_journalctl env) (rv_loc env) (Units (ex_cfg ex)) ws we")
    case (Inl err)
    then show ?thesis using l1 by (simp add: onRecovery_def Some win Let_def)
  next
    case (Inr events)
    obtain evs ex2 where im: "import_events events (rv_now env) ?ex1 = Some ((None, evs), ex2)"
        "logs (map OpRecovery events) ?ex1 ex2"
      using import_events_logs [OF logs_logging [OF l1]] by blast
    have l: "logs (map OpRecovery events) ex ex2" using logs_trans [OF l1 im(2)] by simp
    have core2: "same_core ex2 (ex2\<lparr>ex_targets := ts\<rparr>)" for ts by (simp add: same_core_def)
    show ?thesis
      using im(1) l logs_core [OF l core2]
      by (auto simp: onRecovery_def Some win Inr Let_def split: sum.split)
  qed
qed

text \<open>The start-up imports like a gap recovery, and a failure of the fill or of the journal does not stop it.\<close>

lemma startup_recovery_logs:
  assumes "logging ex"
  shows "\<exists>r ex'. startup_recovery env observedFrom to states ex = Some ((None, r), ex') \<and>
     logs (engine_calls (ex_cfg ex) (XRecovery env from to)) ex ex'"
proof (cases "RecoveryWindow (rv_loc env) to (rc_RecoveryWindow (cf_RemoteWrite (ex_cfg ex)))")
  case None
  then show ?thesis using logs_none [OF assms, of ex] by (simp add: startup_recovery_def same_core_def Let_def)
next
  case (Some win)
  obtain ws we where win: "win = (ws, we)" by (cases win)
  let ?ex1 = "ex\<lparr>ex_reg := RecordRecovery observedFrom ws we (ex_reg ex)\<rparr>"
  have core: "same_core ex ?ex1" by (simp add: same_core_def)
  note l1 = logs_none [OF assms core]
  show ?thesis
  proof (cases "Recover (rv_journalctl env) (rv_loc env) (Units (ex_cfg ex)) ws we")
    case (Inl err)
    then show ?thesis using l1 by (simp add: startup_recovery_def Some win Let_def)
  next
    case (Inr events)
    obtain evs ex2 where im: "import_events events (rv_now env) ?ex1 = Some ((None, evs), ex2)"
        "logs (map OpRecovery events) ?ex1 ex2"
      using import_events_logs [OF logs_logging [OF l1]] by blast
    have "logs (map OpRecovery events) ex ex2" using logs_trans [OF l1 im(2)] by simp
    then show ?thesis using im(1) by (auto simp: startup_recovery_def Some win Inr Let_def split: sum.split)
  qed
qed

lemma start_targets_core: "start_targets ts env evs fill slot ex = Inr ex' \<Longrightarrow> same_core ex ex'"
proof (induction ts arbitrary: ex)
  case (Cons t ts)
  obtain ex1 where s: "start_target t (env t) evs fill slot ex = Inr ex1" "start_targets ts env evs fill slot ex1 = Inr ex'"
    using Cons.prems by (auto split: sum.splits)
  have "same_core ex ex1" using s(1) by (auto simp: start_target_def add_target_def same_core_def split: prod.splits option.splits sum.splits)
  then show ?case using Cons.IH [OF s(2)] by (simp add: same_core_def)
qed (simp add: same_core_def)

text \<open>A receiver whose files and configuration let it start.\<close>

definition target_starts :: "config \<Rightarrow> remote_write_target \<Rightarrow> target_env \<Rightarrow> bool" where
  "target_starts cfg t env \<longleftrightarrow>
     (case MigrateCheckpoint (rt_LegacyCheckpoint t) (rt_Checkpoint t) (te_fault env) (te_files env) of
        (err, files) \<Rightarrow> err = None \<and>
          (\<exists>so. Sender_New (target_rw_config (cf_RemoteWrite cfg) t) (te_readErr env)
             ((te_sender env)\<lparr>sd_file := mg_destination files\<rparr>) = Inr so))"

lemma start_targets_all:
  "list_all (\<lambda>t. target_starts (ex_cfg ex) t (env t)) ts \<Longrightarrow> \<exists>ex'. start_targets ts env evs fill slot ex = Inr ex'"
proof (induction ts arbitrary: ex)
  case (Cons t ts)
  then obtain ex1 where "start_target t (env t) evs fill slot ex = Inr ex1" "ex_cfg ex1 = ex_cfg ex"
    by (auto simp: start_target_def target_starts_def add_target_def split: prod.splits)
  then show ?case using Cons.IH [of ex1] Cons.prems by simp
qed simp

lemma exporter_step_logs:
  assumes "logging ex"
  shows "\<exists>ex'. exporter_step x ex = Some ex' \<and> logs (engine_calls (ex_cfg ex) x) ex ex'"
proof (cases x)
  case (XSnapshot s now)
  then show ?thesis using onSnapshot_logs [OF assms, of s now] by auto
next
  case (XReady service at' source now)
  then show ?thesis using publishReady_logs [OF assms] by simp
next
  case (XRecovery env a b)
  then show ?thesis using onRecovery_logs [OF assms, of env a b] by (auto simp del: engine_calls.simps)
qed

lemma exporter_run_logs:
  "logging ex \<Longrightarrow> \<exists>ex'. exporter_run ops ex = Some ex' \<and> logs (concat (map (engine_calls (ex_cfg ex)) ops)) ex ex'"
proof (induction ops arbitrary: ex)
  case Nil
  then show ?case using logs_none [of ex ex] by (simp add: same_core_def)
next
  case (Cons x ops)
  obtain ex1 where s: "exporter_step x ex = Some ex1" "logs (engine_calls (ex_cfg ex) x) ex ex1"
    using exporter_step_logs [OF Cons.prems] by blast
  obtain ex2 where r: "exporter_run ops ex1 = Some ex2" "logs (concat (map (engine_calls (ex_cfg ex1)) ops)) ex1 ex2"
    using Cons.IH [OF logs_logging [OF s(2)]] by blast
  have "ex_cfg ex1 = ex_cfg ex" using s(2) by (simp add: logs_def)
  then show ?case using s(1) r logs_trans [OF s(2)] by simp
qed

section \<open>Properties\<close>

text \<open>C5. Every transition is logged: with a disk that at worst is full, any sequence of snapshots, probe
  answers and gap recoveries runs to the end without an error of the log and without a panic; the engine
  makes exactly the calls these imply, and the log file with the events waiting in memory grows by exactly
  the records of the events the engine emitted, in order.\<close>

theorem exporter_logs_every_transition:
  assumes "ex_wal ex = Some w" and "faults_in no_space w" and "trunc_ok w" and "w_states w \<noteq> None"
  shows "\<exists>ex' w' evs. exporter_run ops ex = Some ex' \<and> ex_wal ex' = Some w' \<and>
     run_ops engine_step (ex_engine ex) (concat (map (engine_calls (ex_cfg ex)) ops)) = (ex_engine ex', evs) \<and>
     accepted w' = accepted w @ log_of evs"
proof -
  have "logging ex" using assms by (simp add: logging_def durable_def)
  from exporter_run_logs [OF this] show ?thesis using assms(1) by (fastforce simp: logs_def)
qed

definition sample_exporter :: exporter where
  "sample_exporter = fresh_exporter sample_decoded ([], [], []) (Some full_wal) ''h'' ''i''"

theorem exporter_logs_every_transition_witness:
  "\<exists>ex' w' evs. exporter_run [XSnapshot (sample_snapshot ''active'' 1000 0) 5, XSnapshot (sample_snapshot ''inactive'' 1000 9000) 6]
       sample_exporter = Some ex' \<and> ex_wal ex' = Some w' \<and> accepted w' = log_of evs"
proof -
  have w: "ex_wal sample_exporter = Some full_wal" by (simp add: sample_exporter_def fresh_exporter_def)
  have d: "faults_in no_space full_wal" "trunc_ok full_wal" "w_states full_wal \<noteq> None" "accepted full_wal = []"
    by (simp_all add: faults_in_def no_space_def trunc_ok_def accepted_def sample_wal_defs Let_def)
  from exporter_logs_every_transition [OF w d(1-3)] show ?thesis unfolding d(4) by fastforce
qed

end
