(* ===== verification/Restart.thy ===== *)
theory Restart
  imports Exporter
begin

text \<open>
  Restarts of the exporter: a process that handles calls for a while and ends, and a start-up that opens
  the files it left behind, restores the saved states and replays the log.

  The invariant \<open>resumable\<close> ties the engine to the two files. The handlers keep it, a restart keeps it and
  brings the engine back to the same progress, so that sequence numbers go on where they stopped over any
  number of restarts.
\<close>

section \<open>Values that survive encoding\<close>

text \<open>
  A life within one boot, whose identifier is \<open>b\<close>: the inputs of the engine hold texts that JSON reproduces and
  this boot identifier or none.
\<close>

definition own_event :: "string \<Rightarrow> event \<Rightarrow> bool" where
  "own_event b ev \<longleftrightarrow> wf_event ev \<and> (ev_BootID ev = [] \<or> ev_BootID ev = b)"

definition own_state :: "string \<Rightarrow> service_state \<Rightarrow> bool" where
  "own_state b st \<longleftrightarrow> wf_state st \<and> (st_BootID st = [] \<or> st_BootID st = b)"

lemma own_events_wf: "list_all (own_event b) evs \<Longrightarrow> list_all wf_event evs"
  by (simp add: list_all_iff own_event_def)

fun plain_call :: "string \<Rightarrow> engine_op \<Rightarrow> bool" where
  "plain_call b (OpApply s) \<longleftrightarrow> ascii (us_Service s) \<and> ascii (us_ActiveState s) \<and> ascii (us_SubState s) \<and> ascii (us_BootID s) \<and>
     us_BootID s = b"
| "plain_call b (OpRecovery ev) \<longleftrightarrow> own_event b ev"
| "plain_call b (OpAdopt bootID) \<longleftrightarrow> ascii bootID \<and> bootID = b"
| "plain_call b (OpConfirm service at' source) \<longleftrightarrow> ascii service"
| "plain_call b _ \<longleftrightarrow> True"

definition engine_wf :: "string \<Rightarrow> engine \<Rightarrow> bool" where
  "engine_wf b e \<longleftrightarrow> (\<forall>k st. eng_states e k = Some st \<longrightarrow> own_state b st)"

lemma engine_wf_lookup: "engine_wf b e \<Longrightarrow> own_state b (state_or_zero e k)"
  by (auto simp: engine_wf_def own_state_def state_or_zero_def wf_state_def zero_service_state_def split: option.split)

lemma engine_wf_upd:
  "engine_wf b e \<Longrightarrow> own_state b st \<Longrightarrow> engine_wf b (e\<lparr>eng_seq := q, eng_states := (eng_states e)(k \<mapsto> st)\<rparr>)"
  by (auto simp: engine_wf_def)

lemma candidate_loop_shape:
  "candidate_loop s d cs seq cur p [] = (seq', p', evs) \<Longrightarrow> ev \<in> set evs \<Longrightarrow> \<exists>q c. ev = systemd_event s q c"
proof (induction cs arbitrary: seq cur p seq' p' evs)
  case (Cons c cs)
  show ?case
    using Cons.prems Cons.IH
    by (fastforce simp: candidate_loop_acc [of _ _ _ _ _ _ "[_]"] split: if_splits prod.splits)
qed simp

lemma time_ok_range: "time_ok t \<Longrightarrow> - (2 ^ 63) \<le> t \<and> t < 2 ^ 63"
  by (simp add: time_ok_def)

lemma Apply_wf:
  assumes "Apply e s = (e', evs)" and "plain_call b (OpApply s)" and "engine_wf b e"
    and "\<forall>ev \<in> set evs. time_ok (ev_EventTimeUnixMS ev)"
  shows "engine_wf b e' \<and> list_all (own_event b) evs"
  using assms(1)
proof (cases rule: Apply_cases)
  case first
  then show ?thesis
    using assms(2,3) engine_wf_lookup [OF assms(3), of "us_Service s"]
    by (auto simp: engine_wf_def own_state_def wf_state_def observed_state_def)
next
  case (later old seq p)
  have "own_event b ev" if "ev \<in> set evs" for ev
    using candidate_loop_shape [OF later(3) that] that assms(2,4) time_ok_range
    by (auto simp: own_event_def wf_event_def systemd_event_def)
  moreover have "own_state b old" using assms(3) later(1) by (simp add: engine_wf_def)
  moreover have "time_ok (ev_EventTimeUnixMS (last evs))" if "evs \<noteq> []" using that assms(4) by simp
  ultimately show ?thesis
    using assms(2,3) later(4) time_ok_range
    by (auto simp: engine_wf_def own_state_def wf_state_def observed_state_def note_last_event_def list_all_iff)
qed

lemma ConfirmReady_wf:
  assumes "ConfirmReady e service at' source = (e', r)" and "ascii service" and "engine_wf b e"
    and "\<And>ev. r = Some ev \<Longrightarrow> time_ok (ev_EventTimeUnixMS ev)"
  shows "engine_wf b e' \<and> (\<forall>ev. r = Some ev \<longrightarrow> own_event b ev)"
proof (cases "\<exists>st. eng_states e service = Some st \<and> st_AwaitingSIP st")
  case False
  then have "e' = e \<and> r = None" using assms(1) by (auto simp: ConfirmReady_def split: option.splits)
  then show ?thesis using assms(3) by simp
next
  case True
  then obtain st where st: "eng_states e service = Some st" "st_AwaitingSIP st" by blast
  define ts where "ts = (if UnixMilli at' \<le> st_LastEventTimeUnixMS st then wrap64 (st_LastEventTimeUnixMS st + 1) else UnixMilli at')"
  have res: "e' = e\<lparr>eng_seq := eng_seq e + 1, eng_states := (eng_states e)(service \<mapsto>
        st\<lparr>st_AwaitingSIP := False, st_Availability := StateUp, st_LastEventTimeUnixMS := ts, st_LastSequence := eng_seq e + 1\<rparr>)\<rparr>"
    "r = Some \<lparr>ev_Sequence = eng_seq e + 1, ev_Service = service, ev_State = StateUp, ev_EventTimeUnixMS = ts,
        ev_EventTimeMonotonicUS = 0, ev_BootID = st_BootID st, ev_Source = source,
        ev_SystemdActiveState = st_ActiveState st, ev_SystemdSubState = st_SubState st\<rparr>"
    using assms(1) st by (simp_all add: ConfirmReady_def Let_def ts_def)
  have own: "own_state b st" using assms(3) st(1) by (simp add: engine_wf_def)
  have "time_ok ts" using assms(4) [OF res(2)] by simp
  from time_ok_range [OF this] own assms(2) show ?thesis
    unfolding res using engine_wf_upd [OF assms(3)] by (simp add: own_state_def wf_state_def own_event_def wf_event_def)
qed

lemma engine_step_wf:
  assumes "engine_step e x = (e', evs)" and "track_op x" and "plain_call b x" and "engine_wf b e"
    and "\<forall>ev \<in> set evs. time_ok (ev_EventTimeUnixMS ev)"
  shows "engine_wf b e' \<and> list_all (own_event b) evs"
proof (cases x)
  case (OpApply s)
  then show ?thesis using assms Apply_wf [of e s e' evs b] by auto
next
  case (OpConfirm service at' source)
  obtain r where c: "ConfirmReady e service at' source = (e', r)" "evs = (case r of None \<Rightarrow> [] | Some ev \<Rightarrow> [ev])"
    using assms(1) OpConfirm by (auto split: prod.splits)
  then show ?thesis
    using ConfirmReady_wf [OF c(1), of b] assms(3,4,5) OpConfirm by (cases r) simp_all
next
  case (OpRecovery ev)
  let ?st = "state_or_zero e (ev_Service ev)"
  have own: "own_event b ev" "own_state b ?st" using assms(3,4) OpRecovery engine_wf_lookup by simp_all
  show ?thesis
  proof (cases "st_Service ?st \<noteq> [] \<and> ev_EventTimeUnixMS ev \<le> st_LastEventTimeUnixMS ?st")
    case True
    then show ?thesis using assms(1,4) OpRecovery by (auto simp: ApplyRecovery_def Let_def)
  next
    case False
    then show ?thesis
      using assms(1) OpRecovery own engine_wf_upd [OF assms(4)]
      by (auto simp: ApplyRecovery_def Let_def own_state_def wf_state_def own_event_def wf_event_def)
  qed
next
  case (OpAdopt i)
  then have "e' = AdoptBootID e b" "evs = []" "ascii b" using assms(1,3) by auto
  then show ?thesis using assms(4) by (auto simp: AdoptBootID_def engine_wf_def own_state_def wf_state_def)
qed (use assms in \<open>auto simp: engine_wf_def DelayUpUntilReady_def\<close>)

section \<open>The engine in step with a log\<close>

text \<open>
  The calls a bounded life makes: no reboot, texts that JSON reproduces, and times below \<open>2^62\<close>
  milliseconds. With \<open>n\<close> calls made the log has at most \<open>2 * n\<close> events, none later than \<open>2^62 + n\<close>.
\<close>

fun call_times :: "engine_op \<Rightarrow> bool" where
  "call_times (OpConfirm service at' source) \<longleftrightarrow> UnixMilli at' \<le> 2 ^ 62"
| "call_times (OpRecovery ev) \<longleftrightarrow> ev_EventTimeUnixMS ev \<le> 2 ^ 62"
| "call_times _ \<longleftrightarrow> True"

definition call_ok :: "string \<Rightarrow> engine_op \<Rightarrow> bool" where
  "call_ok b x \<longleftrightarrow> track_op x \<and> plain_call b x \<and> call_times x"

definition times_upto :: "nat \<Rightarrow> event list \<Rightarrow> bool" where
  "times_upto n evs \<longleftrightarrow> (\<forall>ev \<in> set evs. 0 \<le> ev_EventTimeUnixMS ev \<and> ev_EventTimeUnixMS ev \<le> 2 ^ 62 + int n)"

definition in_step :: "string \<Rightarrow> nat \<Rightarrow> engine \<Rightarrow> event list \<Rightarrow> bool" where
  "in_step b n e evs \<longleftrightarrow> engine_inv e \<and> engine_wf b e \<and> list_all (own_event b) evs \<and> numbered_from 0 evs \<and>
     length evs \<le> 2 * n \<and> times_upto n evs \<and> times_from (\<lambda>_. 0) evs \<and>
     eng_seq e = of_nat (length evs) \<and> (\<forall>k. last_info e k = newest k evs (0, 0))"

lemma newest_append [simp]: "newest k (xs @ ys) d = newest k ys (newest k xs d)"
  by (induction xs arbitrary: d) simp_all

lemma newest_cases: "newest k evs d = d \<or> (\<exists>ev \<in> set evs. ev_Service ev = k \<and> newest k evs d = (ev_EventTimeUnixMS ev, ev_Sequence ev))"
proof (induction evs arbitrary: d)
  case (Cons ev evs)
  show ?case using Cons.IH [of "if k = ev_Service ev then (ev_EventTimeUnixMS ev, ev_Sequence ev) else d"] by auto
qed simp

lemma newest_time: "fst (newest k evs (t, q)) = fst (newest k evs (t, q'))"
  by (induction evs arbitrary: t q q') simp_all

lemma times_from_append:
  "times_from f (xs @ ys) \<longleftrightarrow> times_from f xs \<and> times_from (\<lambda>k. fst (newest k xs (f k, 0))) ys"
proof (induction xs arbitrary: f)
  case (Cons x xs)
  have "fst (newest k xs ((f(ev_Service x := ev_EventTimeUnixMS x)) k, 0)) = fst (newest k (x # xs) (f k, 0))" for k
    using newest_time [of k xs "ev_EventTimeUnixMS x" 0 "ev_Sequence x"] by auto
  then show ?case unfolding append_Cons times_from.simps(2) Cons.IH by presburger
qed simp

lemma newest_upto:
  assumes "times_upto n evs"
  shows "0 \<le> fst (newest k evs (0, 0)) \<and> fst (newest k evs (0, 0)) \<le> 2 ^ 62 + int n"
  using newest_cases [of k evs "(0, 0)"] assms by (auto simp: times_upto_def)

lemma in_step_headroom: "in_step b n e evs \<Longrightarrow> n < 2 ^ 61 \<Longrightarrow> headroom e"
proof -
  assume s: "in_step b n e evs" and n: "n < 2 ^ 61"
  have "time_ok (fst (newest k evs (0, 0)))" for k
    using newest_upto [of n evs k] s n by (simp add: in_step_def time_ok_def)
  then show ?thesis using s by (simp add: in_step_def headroom_def)
qed

text \<open>What one call emits is bounded.\<close>

lemma candidate_loop_length: "candidate_loop s d cs seq cur p [] = (seq', p', evs) \<Longrightarrow> length evs \<le> length cs"
  using candidate_loop_subseq [of s d cs seq cur p seq' p' evs] by (metis length_map list_emb_length)

lemma snapshot_candidates_length: "length (snapshot_candidates old s) \<le> 2"
  by (simp add: snapshot_candidates_def)

lemma ms_of_us_upto: "ms_of_us us \<le> 2 ^ 62"
proof -
  have "uint us < 2 ^ 64" using uint_lt2p [of us] by simp
  then show ?thesis by simp
qed

lemma Apply_bounds:
  assumes "Apply e s = (e', evs)"
  shows "length evs \<le> 2 \<and> (\<forall>ev \<in> set evs. 0 \<le> ev_EventTimeUnixMS ev \<and> ev_EventTimeUnixMS ev \<le> 2 ^ 62)"
  using assms
proof (cases rule: Apply_cases)
  case (later old seq p)
  have "0 \<le> ev_EventTimeUnixMS ev \<and> ev_EventTimeUnixMS ev \<le> 2 ^ 62" if ev: "ev \<in> set evs" for ev
  proof -
    obtain q c where "ev = systemd_event s q c" using candidate_loop_shape [OF later(3) ev] by blast
    then show ?thesis using ms_of_us_upto [of "cand_unixUS c"] by (simp add: systemd_event_def div_int_pos_iff)
  qed
  then show ?thesis using candidate_loop_length [OF later(3)] snapshot_candidates_length [of old s] by simp
qed simp

lemma call_bounds:
  assumes "engine_step e x = (e', new)" and "call_ok b x" and "\<forall>k. 0 \<le> fst (last_info e k) \<and> fst (last_info e k) \<le> 2 ^ 62 + int n"
    and "n < 2 ^ 61"
  shows "length new \<le> 2 \<and> times_upto (Suc n) new"
proof (cases x)
  case (OpApply s)
  then show ?thesis using Apply_bounds assms(1) by (fastforce simp: times_upto_def)
next
  case (OpConfirm service at' source)
  have b: "0 \<le> fst (last_info e service)" "fst (last_info e service) \<le> 2 ^ 62 + int n" using assms(3) by simp_all
  then have "wrap64 (fst (last_info e service) + 1) = fst (last_info e service) + 1"
    using assms(4) by (intro wrap64_id) simp_all
  then show ?thesis
    using assms(1,2) OpConfirm b
    by (auto simp: ConfirmReady_def Let_def last_info_def times_upto_def call_ok_def split: option.splits if_splits)
next
  case (OpRecovery ev)
  then show ?thesis using assms(1,2) by (auto simp: ApplyRecovery_def Let_def times_upto_def call_ok_def split: if_splits)
qed (use assms(1,2) in \<open>auto simp: times_upto_def call_ok_def\<close>)

lemma times_upto_mono: "times_upto n evs \<Longrightarrow> n \<le> m \<Longrightarrow> times_upto m evs"
  by (fastforce simp: times_upto_def)

lemma in_step_call:
  assumes s: "in_step b n e evs" and x: "call_ok b x" and n: "n < 2 ^ 61" and step: "engine_step e x = (e', new)"
  shows "in_step b (Suc n) e' (evs @ new)"
proof -
  have info: "last_info e k = newest k evs (0, 0)" for k using s by (simp add: in_step_def)
  have op: "track_op x" "plain_call b x" and inv: "engine_inv e" and wf: "engine_wf b e"
    using s x by (simp_all add: in_step_def call_ok_def)
  have b: "length new \<le> 2" "times_upto (Suc n) new"
    using call_bounds [OF step x _ n] newest_upto [of n evs] s by (simp_all add: info in_step_def)
  have seq: "unat (eng_seq e) = length evs" using s n by (simp add: in_step_def unat_of_nat)
  have ok: "\<forall>ev \<in> set new. time_ok (ev_EventTimeUnixMS ev)"
    using b(2) n by (fastforce simp: times_upto_def time_ok_def)
  have fit: "unat (eng_seq e) + length new < 2 ^ 64" using s b(1) n unfolding seq by (simp add: in_step_def)
  note ord = engine_step_in_order [OF op(1) inv in_step_headroom [OF s n] step]
  note num = engine_step_numbered [OF track_op_live [OF op(1)] step]
  have "times_from (\<lambda>k. fst (newest k evs (0, 0))) new" using ord by (simp add: emits_in_order_def info)
  moreover have "last_info e' k = newest k (evs @ new) (0, 0)" for k using ord by (simp add: emits_in_order_def info)
  moreover have "numbered_from (of_nat (length evs)) new" "eng_seq e' = of_nat (length (evs @ new))"
    using num s by (simp_all add: in_step_def)
  ultimately show ?thesis
    using s b times_upto_mono [of n evs "Suc n"] engine_step_inv [OF inv track_op_ok [OF op(1)] step fit]
      engine_step_wf [OF step op wf ok]
    by (auto simp: in_step_def times_from_append times_upto_def)
qed

lemma in_step_run:
  assumes "in_step b n e evs" and "list_all (call_ok b) xs" and "n + length xs \<le> 2 ^ 61" and "run_ops engine_step e xs = (e', new)"
  shows "in_step b (n + length xs) e' (evs @ new)"
  using assms
proof (induction xs arbitrary: n e evs new)
  case (Cons x xs)
  obtain e1 new1 new2 where s: "engine_step e x = (e1, new1)" "run_ops engine_step e1 xs = (e', new2)" "new = new1 @ new2"
    using Cons.prems(4) by (auto split: prod.splits)
  have "in_step b (Suc n) e1 (evs @ new1)" using in_step_call [OF Cons.prems(1) _ _ s(1)] Cons.prems(2,3) by simp
  from Cons.IH [OF this _ _ s(2)] show ?case using Cons.prems(2,3) s(3) by simp
qed simp

lemma in_step_passes:
  assumes "in_step b n e evs" and "list_all (call_ok b) xs" and "n + length xs \<le> 2 ^ 61" and "run_ops engine_step e xs = (e', new)"
    and "e1 \<in> passes e xs"
  shows "\<exists>m pre. prefix pre (evs @ new) \<and> in_step b m e1 pre"
proof -
  obtain ys zs where p: "xs = ys @ zs" "e1 = fst (run_ops engine_step e ys)" using assms(5) by (auto simp: passes_def)
  obtain new1 where r: "run_ops engine_step e ys = (e1, new1)" using p(2) by (cases "run_ops engine_step e ys") simp
  have "in_step b (n + length ys) e1 (evs @ new1)" using in_step_run [OF assms(1) _ _ r] assms(2,3) p(1) by simp
  moreover have "prefix (evs @ new1) (evs @ new)"
    using assms(4) r by (auto simp: p(1) run_ops_append split: prod.splits)
  ultimately show ?thesis by blast
qed

section \<open>Replaying over restored b states\<close>

text \<open>A state that the log is not behind: it was saved when the log was a prefix of what it is now.\<close>

definition behind :: "event list \<Rightarrow> string \<Rightarrow> int \<times> uint64 \<Rightarrow> bool" where
  "behind evs k info \<longleftrightarrow> (\<exists>pre. prefix pre evs \<and> info = newest k pre (0, 0))"

lemma times_from_bound:
  "times_from f (as @ ev # bs) \<Longrightarrow> f (ev_Service ev) \<le> ev_EventTimeUnixMS ev \<and>
     (\<forall>x \<in> set as. ev_Service x = ev_Service ev \<longrightarrow> ev_EventTimeUnixMS x \<le> ev_EventTimeUnixMS ev)"
proof (induction as arbitrary: f)
  case (Cons a as)
  then have "times_from (f(ev_Service a := ev_EventTimeUnixMS a)) (as @ ev # bs)" by simp
  from Cons.IH [OF this] Cons.prems show ?case by (auto split: if_splits)
qed simp

lemma newest_absent: "\<forall>ev \<in> set evs. ev_Service ev \<noteq> k \<Longrightarrow> newest k evs d = d"
  using newest_cases [of k evs d] by blast

lemma Replay_other: "ev_Service ev \<noteq> k \<Longrightarrow> last_info (Replay r ev) k = last_info r k"
  by (auto simp: Replay_def last_info_def Let_def state_or_zero_def split: if_splits)

lemma Replay_all_absent: "\<forall>ev \<in> set evs. ev_Service ev \<noteq> k \<Longrightarrow> last_info (Replay_all r evs) k = last_info r k"
  by (induction evs arbitrary: r) (simp_all add: Replay_other)

lemma Replay_all_time_le:
  "fst (last_info r k) \<le> T \<Longrightarrow> \<forall>ev \<in> set evs. ev_Service ev = k \<longrightarrow> ev_EventTimeUnixMS ev \<le> T \<Longrightarrow>
   fst (last_info (Replay_all r evs) k) \<le> T"
proof (induction evs arbitrary: r)
  case (Cons ev evs)
  have "fst (last_info (Replay r ev) k) \<le> T"
    using Cons.prems Replay_other [of ev k r]
    by (cases "ev_Service ev = k")
      (auto simp: Replay_def last_info_def Let_def state_or_zero_def zero_service_state_def split: option.splits if_splits)
  then show ?case using Cons by simp
qed simp

lemma Replay_all_behind:
  assumes "times_from (\<lambda>_. 0) evs" and "behind evs k (last_info r k)"
  shows "last_info (Replay_all r evs) k = newest k evs (0, 0)"
proof (cases "\<exists>ev \<in> set evs. ev_Service ev = k")
  case False
  obtain pre where "prefix pre evs" "last_info r k = newest k pre (0, 0)" using assms(2) by (auto simp: behind_def)
  then have "last_info r k = (0, 0)" using False newest_absent [of pre k] set_mono_prefix by fastforce
  then show ?thesis using False Replay_all_absent [of evs k r] newest_absent [of evs k] by simp
next
  case True
  then obtain as ev bs where evs: "evs = as @ ev # bs" "ev_Service ev = k" "\<forall>x \<in> set bs. ev_Service x \<noteq> k"
    using split_list_last_prop [of evs "\<lambda>ev. ev_Service ev = k"] by blast
  obtain pre where pre: "prefix pre evs" "last_info r k = newest k pre (0, 0)" using assms(2) by (auto simp: behind_def)
  note b = times_from_bound [OF assms(1) [unfolded evs(1)]]
  have all: "x \<in> set evs \<Longrightarrow> ev_Service x = k \<Longrightarrow> ev_EventTimeUnixMS x \<le> ev_EventTimeUnixMS ev" for x
    using b evs by auto
  have "fst (last_info r k) \<le> ev_EventTimeUnixMS ev"
    using newest_cases [of k pre "(0, 0)"] all b set_mono_prefix [OF pre(1)] unfolding pre(2) by auto
  then have "fst (last_info (Replay_all r as) k) \<le> ev_EventTimeUnixMS ev"
    using b evs(2) by (intro Replay_all_time_le) auto
  then have "last_info (Replay (Replay_all r as) ev) k = (ev_EventTimeUnixMS ev, ev_Sequence ev)"
    using Replay_last_info [of "Replay_all r as" ev k] evs(2) by simp
  then show ?thesis using Replay_all_absent [OF evs(3)] newest_absent [OF evs(3)] by (simp add: evs(1,2))
qed

lemma Replay_all_seq:
  "eng_seq r \<le> M \<Longrightarrow> \<forall>ev \<in> set evs. ev_Sequence ev \<le> M \<Longrightarrow> eng_seq (Replay_all r evs) \<le> M"
  "eng_seq r \<le> eng_seq (Replay_all r evs)"
  "ev \<in> set evs \<Longrightarrow> ev_Sequence ev \<le> eng_seq (Replay_all r evs)"
proof -
  show mono: "eng_seq r \<le> eng_seq (Replay_all r evs)" for r evs
  proof (induction evs arbitrary: r)
    case (Cons ev evs)
    have "eng_seq r \<le> eng_seq (Replay r ev)" by (simp add: Replay_seq)
    also have "\<dots> \<le> eng_seq (Replay_all (Replay r ev) evs)" by (rule Cons.IH)
    finally show ?case by simp
  qed simp
  show "eng_seq r \<le> M \<Longrightarrow> \<forall>ev \<in> set evs. ev_Sequence ev \<le> M \<Longrightarrow> eng_seq (Replay_all r evs) \<le> M"
    by (induction evs arbitrary: r) (simp_all add: Replay_seq)
  show "ev \<in> set evs \<Longrightarrow> ev_Sequence ev \<le> eng_seq (Replay_all r evs)"
  proof (induction evs arbitrary: r)
    case (Cons x evs)
    have "ev_Sequence x \<le> eng_seq (Replay_all (Replay r x) evs)"
      using mono [of "Replay r x" evs] by (simp add: Replay_seq)
    then show ?case using Cons by auto
  qed simp
qed

lemma numbered_last: "numbered_from n evs \<Longrightarrow> evs \<noteq> [] \<Longrightarrow> ev_Sequence (last evs) = n + of_nat (length evs)"
  by (cases evs rule: rev_cases) (auto simp: algebra_simps)

lemma Replay_all_numbered:
  assumes "numbered_from 0 evs" and "length evs < 2 ^ 64" and "eng_seq r \<le> of_nat (length evs)"
  shows "eng_seq (Replay_all r evs) = of_nat (length evs)"
proof (rule antisym)
  show "eng_seq (Replay_all r evs) \<le> of_nat (length evs)"
    using assms numbered_from_le [OF assms(1)] by (intro Replay_all_seq) simp_all
  show "of_nat (length evs) \<le> eng_seq (Replay_all r evs)"
    using numbered_last [OF assms(1)] Replay_all_seq(3) [of "last evs" evs r] by (cases "evs = []") simp_all
qed

lemma Replay_wf: "engine_wf b e \<Longrightarrow> own_event b ev \<Longrightarrow> engine_wf b (Replay e ev)"
  using engine_wf_lookup [of b "e\<lparr>eng_seq := q\<rparr>" "ev_Service ev" for q]
  by (auto simp: Replay_def Let_def engine_wf_def own_state_def wf_state_def own_event_def wf_event_def state_or_zero_def)

text \<open>An engine whose states were all saved while the log grew to \<open>evs\<close>.\<close>

definition restored :: "string \<Rightarrow> event list \<Rightarrow> engine \<Rightarrow> bool" where
  "restored b evs e \<longleftrightarrow> engine_inv e \<and> engine_wf b e \<and> eng_seq e \<le> of_nat (length evs) \<and> (\<forall>k. behind evs k (last_info e k))"

lemma Replay_all_restored:
  assumes "in_step b n e0 evs" and "n \<le> 2 ^ 61" and "restored b evs r"
  shows "in_step b n (Replay_all r evs) evs"
proof -
  have wf: "list_all (own_event b) evs" and times: "times_from (\<lambda>_. 0) evs" and num: "numbered_from 0 evs" "length evs < 2 ^ 64"
    using assms(1,2) by (simp_all add: in_step_def)
  have "engine_inv r \<Longrightarrow> engine_inv (Replay_all r xs)" for r xs
    by (induction xs arbitrary: r) (simp_all add: Replay_inv)
  moreover have "engine_wf b r \<Longrightarrow> engine_wf b (Replay_all r evs)" using wf
    by (induction evs arbitrary: r) (simp_all add: Replay_wf)
  moreover have "last_info (Replay_all r evs) k = newest k evs (0, 0)" for k
    using Replay_all_behind [OF times] assms(3) by (simp add: restored_def)
  ultimately show ?thesis
    using assms(1,3) Replay_all_numbered [OF num] by (simp add: in_step_def restored_def)
qed

text \<open>A saved state that may be restored b.\<close>

definition good_state :: "string \<Rightarrow> event list \<Rightarrow> service_state \<Rightarrow> bool" where
  "good_state b evs st \<longleftrightarrow> own_state b st \<and> (st_AwaitingSIP st \<longrightarrow> st_Availability st = StateDown) \<and>
     behind evs (st_Service st) (st_LastEventTimeUnixMS st, st_LastSequence st)"

lemma behind_seq:
  assumes "numbered_from 0 evs" and "length evs < 2 ^ 64" and "behind evs k info"
  shows "snd info \<le> of_nat (length evs)"
proof -
  obtain pre where pre: "prefix pre evs" "info = newest k pre (0, 0)" using assms(3) by (auto simp: behind_def)
  then show ?thesis
    using newest_cases [of k pre "(0, 0)"] numbered_from_le [OF assms(1)] assms(2) set_mono_prefix [OF pre(1)] by auto
qed

lemma RestoreState_fields:
  "eng_states (RestoreState e st) = (if st_Service st = [] then eng_states e else (eng_states e)(st_Service st \<mapsto> st))"
  "eng_seq (RestoreState e st) = (if st_Service st = [] then eng_seq e else max (eng_seq e) (st_LastSequence st))"
  by (simp_all add: RestoreState_def Let_def max_def)

lemma RestoreState_restored:
  assumes "numbered_from 0 evs" and "length evs < 2 ^ 64" and "restored b evs e" and "good_state b evs st"
  shows "restored b evs (RestoreState e st)"
proof -
  have q: "st_LastSequence st \<le> of_nat (length evs)"
    using behind_seq [OF assms(1,2)] assms(4) by (auto simp: good_state_def)
  have "engine_inv (RestoreState e st)"
    using engine_step_inv [of e "OpRestore st"] assms(3,4) unsigned_less [of "eng_seq e"]
    by (simp add: restored_def good_state_def)
  then show ?thesis
    using assms(3,4) q
    by (simp add: restored_def good_state_def RestoreState_fields engine_wf_def last_info_def state_or_zero_def)
qed

section \<open>Handlers and restarts\<close>

text \<open>After \<open>n\<close> calls of the engine: the files hold the log and saved states that were good at some time.\<close>

definition resumable :: "string \<Rightarrow> nat \<Rightarrow> exporter \<Rightarrow> event list \<Rightarrow> bool" where
  "resumable b n ex evs \<longleftrightarrow> (\<exists>w. ex_wal ex = Some w \<and> synced w \<and> w_log w = log_of evs) \<and> in_step b n (ex_engine ex) evs \<and>
     (\<forall>k st. saved ex k = Some st \<longrightarrow> st_Service st = k \<and> good_state b evs st)"

lemma behind_mono: "behind evs k info \<Longrightarrow> behind (evs @ new) k info"
  unfolding behind_def using prefix_prefix by blast

lemma only_mono: "only (\<lambda>_. False) q \<Longrightarrow> only P q"
  by (auto simp: list_all_iff split: option.splits)

lemma only_write_mono: "only (write_in (\<lambda>_. False)) q \<Longrightarrow> only (write_in P) q"
  by (auto simp: list_all_iff split: option.splits)

lemma synced_durable: "synced w \<Longrightarrow> durable w"
  unfolding synced_def durable_def faults_in_def Let_def by (blast intro: only_mono only_write_mono)

lemma resumable_logging: "resumable b n ex evs \<Longrightarrow> logging ex"
  using synced_durable by (auto simp: resumable_def logging_def)

lemma passed_state_good:
  assumes "in_step b n e evs" and "list_all (call_ok b) xs" and "n + length xs \<le> 2 ^ 61" and "run_ops engine_step e xs = (e', new)"
    and "state_in (passes e xs) k (Some st)"
  shows "st_Service st = k \<and> good_state b (evs @ new) st"
proof -
  obtain e1 i where e1: "e1 \<in> passes e xs" "eng_states e1 i = Some st" "st_Service st = k"
    using assms(5) by (auto simp: state_in_def)
  obtain m pre where pre: "prefix pre (evs @ new)" "in_step b m e1 pre"
    using in_step_passes [OF assms(1-4) e1(1)] by blast
  have st: "state_inv (eng_seq e1) i st" "own_state b st" using pre(2) e1(2) by (auto simp: in_step_def engine_inv_def engine_wf_def)
  have "(st_LastEventTimeUnixMS st, st_LastSequence st) = newest i pre (0, 0)"
    using pre(2) e1(2) unfolding in_step_def last_info_def by (metis state_or_zero_Some)
  then show ?thesis using st e1(3) pre(1) by (auto simp: good_state_def state_inv_def behind_def)
qed

lemma logs_resumable:
  assumes "resumable b n ex evs" and "logs xs ex ex'" and "list_all (call_ok b) xs" and "n + length xs \<le> 2 ^ 61"
  shows "\<exists>new. run_ops engine_step (ex_engine ex) xs = (ex_engine ex', new) \<and> resumable b (n + length xs) ex' (evs @ new)"
proof -
  obtain w w' new where l: "ex_wal ex = Some w" "ex_wal ex' = Some w'" "synced w \<longrightarrow> synced w'"
      "run_ops engine_step (ex_engine ex) xs = (ex_engine ex', new)" "accepted w' = accepted w @ log_of new"
    using assms(2) by (auto simp: logs_def)
  have r: "synced w" "w_log w = log_of evs" "in_step b n (ex_engine ex) evs" using assms(1) l(1) by (auto simp: resumable_def)
  have log: "w_log w' = log_of (evs @ new)" using l(3,5) r(1,2) by (simp add: synced_def accepted_def)
  have "st_Service st = k \<and> good_state b (evs @ new) st" if st: "saved ex' k = Some st" for k st
  proof (cases "saved ex' k = saved ex k")
    case True
    then have "st_Service st = k \<and> good_state b evs st" using assms(1) st by (simp add: resumable_def)
    then show ?thesis using behind_mono [of evs k] by (auto simp: good_state_def)
  next
    case False
    then have "state_in (passes (ex_engine ex) xs) k (Some st)" using assms(2) st by (metis logs_def)
    from passed_state_good [OF r(3) assms(3,4) l(4) this] show ?thesis .
  qed
  then show ?thesis using l r log in_step_run [OF r(3) assms(3,4) l(4)] by (auto simp: resumable_def)
qed

text \<open>Opening the files a synced log left behind gives a synced log with the same contents.\<close>

lemma Repair_log: "list_all wf_event evs \<Longrightarrow> Repair (Some (log_of evs)) None None None = ((empty_report, None), Some (log_of evs))"
  using readRecords_log [of evs "[]"] by (simp add: Repair_ok empty_report_def)

lemma ReadAll_log: "list_all wf_event evs \<Longrightarrow> fst (ReadAll (log_of evs) None) = evs"
  using readRecords_log [of evs "[]"] by (simp add: ReadAll_def)

lemma marshal_sorted: "marshal_states (sort_key fst m) = marshal_states m"
  by (simp add: marshal_states_def sort_key_id_if_sorted)

lemma Open_synced:
  assumes "synced w" and "w_log w = log_of evs" and "list_all wf_event evs" and "w_states w = Some m" and "wf_states m"
  shows "\<exists>w2. Open (w_disk w) fsync (Some (w_log w)) None (None, None, None) None None = Inr w2 \<and> synced w2 \<and>
     w_log w2 = log_of evs \<and> w_states w2 = Some (sort_key fst m)"
proof -
  have d: "distinct (map fst (sort_key fst m))" using assms(5) by (simp add: wf_states_def distinct_map)
  show ?thesis
  proof (cases "dk_state (w_disk w)")
    case None
    then have "m = []" using assms(1,4) by (auto simp: synced_def)
    then show ?thesis
      using assms None by (simp add: Open_def Repair_log Let_def synced_def faults_in_def trunc_ok_def)
  next
    case (Some s)
    then have "s = marshal_state_map (Some m) @ [nl]" using assms(1,4) by (auto simp: synced_def marshal_state_map_def)
    then have "unmarshal_states s = Some (Some (sort_key fst m))" using states_roundtrip [OF assms(5)] by simp
    then show ?thesis
      using assms Some d
      by (auto simp: Open_def Repair_log Let_def synced_def faults_in_def trunc_ok_def marshal_sorted)
  qed
qed

text \<open>The rebuilt engine and log.\<close>

lemma replay_events_engine: "ex_engine (replay_events evs ex) = Replay_all (ex_engine ex) evs"
  by (induction evs arbitrary: ex) (simp_all add: replay_events_def)

lemma replay_events_frame: "ex_wal (replay_events evs ex) = ex_wal ex \<and> ex_cfg (replay_events evs ex) = ex_cfg ex"
  by (induction evs arbitrary: ex) (simp_all add: replay_events_def)

abbreviation restore_one :: "service_state \<Rightarrow> exporter \<Rightarrow> exporter" where
  "restore_one st x \<equiv> x\<lparr>ex_engine := RestoreState (ex_engine x) st,
     ex_reg := SetState (st_Service st) (st_Availability st) (ex_reg x)\<rparr>"

lemma restore_fold_frame: "ex_wal (fold restore_one sts ex) = ex_wal ex \<and> ex_cfg (fold restore_one sts ex) = ex_cfg ex"
  by (induction sts arbitrary: ex) simp_all

lemma restore_fold:
  assumes "numbered_from 0 evs" and "length evs < 2 ^ 64"
  shows "list_all (good_state b evs) sts \<Longrightarrow> restored b evs (ex_engine ex) \<Longrightarrow> restored b evs (ex_engine (fold restore_one sts ex))"
  by (induction sts arbitrary: ex) (simp_all add: RestoreState_restored [OF assms])

lemma fresh_restored: "restored b evs (ex_engine (fresh_exporter cfg ps w hostname inst))"
proof -
  have "behind evs k (0, 0)" for k unfolding behind_def by (rule exI [of _ "[]"]) simp
  then show ?thesis
    by (simp add: fresh_exporter_def restored_def engine_inv_def engine_wf_def DelayUpUntilReady_def Engine_New_def
        last_info_def state_or_zero_def zero_service_state_def split: prod.split)
qed

lemma fresh_exporter_frame:
  "ex_wal (fresh_exporter cfg ps w hostname inst) = w" "ex_cfg (fresh_exporter cfg ps w hostname inst) = cfg"
  by (simp_all add: fresh_exporter_def split: prod.split)

text \<open>\<open>Open\<close> and the part of \<open>main\<close> that rebuilds the engine.\<close>

lemma rebuild_resumable:
  assumes r: "resumable b n ex evs" and n: "n \<le> 2 ^ 61" and w: "ex_wal ex = Some w"
  shows "\<exists>w2. Open (w_disk w) fsync (Some (w_log w)) None (None, None, None) None None = Inr w2 \<and>
     resumable b n (fst (rebuild None (fresh_exporter cfg ps (Some w2) hostname inst))) evs \<and>
     ex_cfg (fst (rebuild None (fresh_exporter cfg ps (Some w2) hostname inst))) = cfg"
proof -
  obtain m where m: "synced w" "w_log w = log_of evs" "w_states w = Some m" "distinct (map fst m)"
    using r w by (auto simp: resumable_def synced_def)
  have st: "in_step b n (ex_engine ex) evs" and sv: "\<And>k st. map_of m k = Some st \<Longrightarrow> st_Service st = k \<and> good_state b evs st"
    using r w m(3) by (auto simp: resumable_def saved_def)
  have wf: "list_all wf_event evs" "numbered_from 0 evs" "length evs < 2 ^ 64"
    using st n own_events_wf by (auto simp: in_step_def)
  have good: "st_Service st = k \<and> good_state b evs st" if "(k, st) \<in> set m" for k st
    using sv that m(4) by simp
  then have "wf_states m" using m(4) by (auto simp: wf_states_def good_state_def own_state_def wf_state_def list_all_iff)
  then obtain w2 where o: "Open (w_disk w) fsync (Some (w_log w)) None (None, None, None) None None = Inr w2"
      "synced w2" "w_log w2 = log_of evs" "w_states w2 = Some (sort_key fst m)"
    using Open_synced [OF m(1,2) wf(1) m(3)] by blast
  define x0 where "x0 = publishWAL (fresh_exporter cfg ps (Some w2) hostname inst)"
  define x1 where "x1 = fold restore_one (map snd (sort_key fst m)) x0"
  define ex2 where "ex2 = replay_events evs x1"
  have x1: "ex_wal x1 = Some w2" "ex_cfg x1 = cfg"
    by (simp_all add: x1_def restore_fold_frame x0_def fresh_exporter_frame)
  have "restore_states (fresh_exporter cfg ps (Some w2) hostname inst) = x1"
    by (simp add: restore_states_def fresh_exporter_frame States_def o(4) x1_def x0_def)
  then have rb: "fst (rebuild None (fresh_exporter cfg ps (Some w2) hostname inst)) = ex2"
    by (simp add: rebuild_def x1(1) o(3) ReadAll_log [OF wf(1)] ex2_def Let_def)
  have "restored b evs (ex_engine x0)" using fresh_restored by (simp add: x0_def)
  then have "restored b evs (ex_engine x1)"
    unfolding x1_def using good by (intro restore_fold [OF wf(2,3)]) (auto simp: list_all_iff)
  then have eng: "in_step b n (ex_engine ex2) evs"
    by (simp add: ex2_def replay_events_engine Replay_all_restored [OF st n])
  have "map_of (sort_key fst m) = map_of m"
    using m(4) by (intro map_of_inject_set [THEN iffD2]) (simp_all add: distinct_map)
  then have "saved ex2 k = map_of m k" for k by (simp add: saved_def ex2_def replay_events_frame x1(1) o(4))
  then show ?thesis
    using rb eng sv o x1 by (simp add: resumable_def ex2_def replay_events_frame)
qed

text \<open>In the same boot there is no reboot to handle.\<close>

lemma same_boot: "in_step b n e evs \<Longrightarrow> \<not> boot_changed us b e"
  by (auto simp: in_step_def engine_wf_def own_state_def boot_changed_def list_ex_iff Engine_State_def split: option.splits)

definition restart_calls :: "startup_env \<Rightarrow> config \<Rightarrow> engine_op list" where
  "restart_calls env cfg = engine_calls cfg (XRecovery (su_recovery env) 0 (su_startupTo env))"

text \<open>A start-up in boot \<open>b\<close> that can read its log and start its receivers.\<close>

definition env_ok :: "string \<Rightarrow> config \<Rightarrow> startup_env \<Rightarrow> bool" where
  "env_ok b cfg env \<longleftrightarrow> su_replayErr env = None \<and> BootID (su_bootRead env) = Inr b \<and>
     list_all (\<lambda>t. target_starts cfg t (su_targets env t)) (rc_Targets (cf_RemoteWrite cfg))"

lemma start_pipeline_resumable:
  assumes "resumable b n (fst (rebuild None ex0)) evs" and "ex_cfg (fst (rebuild None ex0)) = ex_cfg ex0" and "env_ok b (ex_cfg ex0) env"
    and "list_all (call_ok b) (restart_calls env (ex_cfg ex0))" and "n + length (restart_calls env (ex_cfg ex0)) \<le> 2 ^ 61"
  shows "\<exists>ex2 new. start_pipeline env ex0 = Some (Inr ex2) \<and> ex_cfg ex2 = ex_cfg ex0 \<and>
     new = snd (run_ops engine_step (ex_engine (fst (rebuild None ex0))) (restart_calls env (ex_cfg ex0))) \<and>
     resumable b (n + length (restart_calls env (ex_cfg ex0))) ex2 (evs @ new)"
proof -
  obtain ex1 devs where rb: "rebuild None ex0 = (ex1, devs)" by (cases "rebuild None ex0")
  have e: "su_replayErr env = None" "BootID (su_bootRead env) = Inr b" using assms(3) by (simp_all add: env_ok_def)
  have r1: "resumable b n ex1 evs" and c1: "ex_cfg ex1 = ex_cfg ex0" using assms(1,2) rb by simp_all
  have "\<not> boot_changed (Units (ex_cfg ex1)) b (ex_engine ex1)" using r1 same_boot by (auto simp: resumable_def)
  then have hr: "handle_reboot b bt ss order now ex1 = Some (None, ex1)" for bt ss order now by (simp add: handle_reboot_def)
  let ?of = "startup_observed_from (su_startupTo env) (sy_StartupRecoveryInterval (cf_Systemd (ex_cfg ex0))) devs"
  obtain rec fill slot ex3 where sr: "startup_recovery (su_recovery env) ?of (su_startupTo env) (startup_states (ex_cfg ex0) env) ex1
        = Some ((None, rec, fill, slot), ex3)"
      "logs (restart_calls env (ex_cfg ex0)) ex1 ex3"
    using startup_recovery_logs [OF resumable_logging [OF r1], of "su_recovery env" ?of "su_startupTo env" "startup_states (ex_cfg ex0) env" 0] c1
    by (force simp: restart_calls_def)
  have c3: "ex_cfg ex3 = ex_cfg ex0" using sr(2) c1 by (simp add: logs_def)
  obtain ex4 where st: "start_targets (rc_Targets (cf_RemoteWrite (ex_cfg ex0))) (su_targets env)
      (delivery_startup_events rec (su_scanErr env) ex3) fill slot ex3 = Inr ex4"
    using start_targets_all [of ex3 "su_targets env" "rc_Targets (cf_RemoteWrite (ex_cfg ex0))"] assms(3)
    unfolding env_ok_def c3 by blast
  note core = start_targets_core [OF st]
  have l: "logs (restart_calls env (ex_cfg ex0)) ex1 ex4" by (rule logs_core [OF sr(2) core])
  have "start_pipeline env ex0 = Some (Inr ex4)"
    by (simp add: start_pipeline_def Let_def rb e hr sr(1) st)
  moreover have "ex_cfg ex4 = ex_cfg ex0" using core c3 by (simp add: same_core_def)
  ultimately show ?thesis using logs_resumable [OF r1 l assms(4,5)] rb by auto
qed

section \<open>Lives\<close>

text \<open>
  A start-up over the files of a process that ended: the log is opened and \<open>start_pipeline\<close> runs, that is,
  everything \<open>main\<close> does after reading its configuration. The result includes the events it emitted.
\<close>

definition restart ::
  "probe list \<times> probe list \<times> probe list \<Rightarrow> string \<Rightarrow> string \<Rightarrow> startup_env \<Rightarrow> exporter \<Rightarrow> (event list \<times> exporter) option" where
  "restart ps hostname inst env0 ex =
     (case ex_wal ex of None \<Rightarrow> None
      | Some w \<Rightarrow>
        let cfg = ex_cfg ex;
            env = env0\<lparr>su_disk := w_disk w, su_logFile := Some (w_log w), su_mkdirErr := None,
                       su_repairErrs := (None, None, None), su_openErr := None, su_stateErr := None\<rparr>
        in case open_log cfg env of
             Inl _ \<Rightarrow> None
           | Inr w2 \<Rightarrow>
             let ex0 = fresh_exporter cfg ps w2 hostname inst in
             (case start_pipeline env ex0 of
                Some (Inr ex2) \<Rightarrow>
                  Some (snd (run_ops engine_step (ex_engine (fst (rebuild None ex0))) (restart_calls env cfg)), ex2)
              | _ \<Rightarrow> None))"

text \<open>
  Several lives of the exporter: each handles its calls and is followed by a restart. The result is the
  events all engines emitted on the way, and the exporter after the last restart.
\<close>

fun lives ::
  "probe list \<times> probe list \<times> probe list \<Rightarrow> string \<Rightarrow> string \<Rightarrow> (exporter_op list \<times> startup_env) list \<Rightarrow> exporter \<Rightarrow>
   (event list \<times> exporter) option" where
  "lives ps hostname inst [] ex = Some ([], ex)"
| "lives ps hostname inst ((ops, env) # runs) ex =
     (case exporter_run ops ex of None \<Rightarrow> None
      | Some ex1 \<Rightarrow>
        (case restart ps hostname inst env ex1 of None \<Rightarrow> None
         | Some (evs2, ex2) \<Rightarrow>
           (case lives ps hostname inst runs ex2 of None \<Rightarrow> None
            | Some (evs3, ex3) \<Rightarrow>
              Some (snd (run_ops engine_step (ex_engine ex) (concat (map (engine_calls (ex_cfg ex)) ops))) @ evs2 @ evs3, ex3))))"

text \<open>The calls of one life: those of its handlers and those of the start-up after it.\<close>

definition life_calls :: "config \<Rightarrow> exporter_op list \<times> startup_env \<Rightarrow> engine_op list" where
  "life_calls cfg life = concat (map (engine_calls cfg) (fst life)) @ restart_calls (snd life) cfg"

lemma restart_resumable:
  assumes r: "resumable b n ex evs" and "wl_Enabled (cf_WAL (ex_cfg ex))" and "env_ok b (ex_cfg ex) env"
    and "list_all (call_ok b) (restart_calls env (ex_cfg ex))" and "n + length (restart_calls env (ex_cfg ex)) \<le> 2 ^ 61"
  shows "\<exists>new ex2. restart ps hostname inst env ex = Some (new, ex2) \<and> ex_cfg ex2 = ex_cfg ex \<and>
     resumable b (n + length (restart_calls env (ex_cfg ex))) ex2 (evs @ new)"
proof -
  obtain w where w: "ex_wal ex = Some w" using r by (auto simp: resumable_def)
  let ?env = "env\<lparr>su_disk := w_disk w, su_logFile := Some (w_log w), su_mkdirErr := None,
                  su_repairErrs := (None, None, None), su_openErr := None, su_stateErr := None\<rparr>"
  have n: "n \<le> 2 ^ 61" using assms(5) by simp
  obtain w2 where o: "Open (w_disk w) (wl_Fsync (cf_WAL (ex_cfg ex))) (Some (w_log w)) None (None, None, None) None None = Inr w2"
      "resumable b n (fst (rebuild None (fresh_exporter (ex_cfg ex) ps (Some w2) hostname inst))) evs"
      "ex_cfg (fst (rebuild None (fresh_exporter (ex_cfg ex) ps (Some w2) hostname inst))) = ex_cfg ex"
    using rebuild_resumable [OF r n w] by blast
  have op: "open_log (ex_cfg ex) ?env = Inr (Some w2)" using assms(2) o(1) by (simp add: open_log_def)
  have calls: "restart_calls ?env = restart_calls env" by (simp add: restart_calls_def fun_eq_iff)
  have "env_ok b (ex_cfg ex) ?env" using assms(3) by (simp add: env_ok_def)
  with start_pipeline_resumable [of b n "fresh_exporter (ex_cfg ex) ps (Some w2) hostname inst" evs ?env] o(2,3) assms(4,5)
  show ?thesis by (auto simp: restart_def w op Let_def fresh_exporter_frame calls)
qed

lemma lives_resumable:
  assumes "resumable b n ex evs" and "wl_Enabled (cf_WAL (ex_cfg ex))" and "list_all (\<lambda>r. env_ok b (ex_cfg ex) (snd r)) runs"
    and "list_all (call_ok b) (concat (map (life_calls (ex_cfg ex)) runs))"
    and "n + length (concat (map (life_calls (ex_cfg ex)) runs)) \<le> 2 ^ 61"
  shows "\<exists>new ex'. lives ps hostname inst runs ex = Some (new, ex') \<and>
     resumable b (n + length (concat (map (life_calls (ex_cfg ex)) runs))) ex' (evs @ new)"
  using assms
proof (induction runs arbitrary: n ex evs)
  case (Cons life runs)
  obtain ops env where life: "life = (ops, env)" by (cases life)
  let ?xs = "concat (map (engine_calls (ex_cfg ex)) ops)" and ?ys = "restart_calls env (ex_cfg ex)"
  have lc: "life_calls (ex_cfg ex) life = ?xs @ ?ys" by (simp add: life life_calls_def)
  have ok: "list_all (call_ok b) ?xs" "n + length ?xs \<le> 2 ^ 61" "list_all (call_ok b) ?ys" "n + length ?xs + length ?ys \<le> 2 ^ 61"
    using Cons.prems(4,5) lc by simp_all
  obtain ex1 where r1: "exporter_run ops ex = Some ex1" "logs ?xs ex ex1"
    using exporter_run_logs [OF resumable_logging [OF Cons.prems(1)]] by blast
  obtain new1 where e1: "run_ops engine_step (ex_engine ex) ?xs = (ex_engine ex1, new1)" "resumable b (n + length ?xs) ex1 (evs @ new1)"
    using logs_resumable [OF Cons.prems(1) r1(2) ok(1,2)] by blast
  have c1: "ex_cfg ex1 = ex_cfg ex" using r1(2) by (simp add: logs_def)
  have env: "wl_Enabled (cf_WAL (ex_cfg ex1))" "env_ok b (ex_cfg ex1) env" using Cons.prems(2,3) by (simp_all add: c1 life)
  obtain new2 ex2 where r2: "restart ps hostname inst env ex1 = Some (new2, ex2)" "ex_cfg ex2 = ex_cfg ex1"
      "resumable b (n + length ?xs + length ?ys) ex2 ((evs @ new1) @ new2)"
    using restart_resumable [OF e1(2) env] ok(3,4) c1 by metis
  have cfg: "ex_cfg ex2 = ex_cfg ex" using r2(2) c1 by simp
  obtain new3 ex3 where r3: "lives ps hostname inst runs ex2 = Some (new3, ex3)"
      "resumable b (n + length ?xs + length ?ys + length (concat (map (life_calls (ex_cfg ex2)) runs))) ex3 (((evs @ new1) @ new2) @ new3)"
    using Cons.IH [OF r2(3)] Cons.prems by (auto simp: cfg lc)
  show ?case using r1(1) r2(1) r3 unfolding life by (simp add: e1(1) cfg lc [unfolded life] add.assoc)
qed simp

lemma first_start:
  assumes "synced w" and "w_log w = []" and "w_states w = Some []"
  shows "resumable b 0 (fresh_exporter cfg ps (Some w) hostname inst) []"
proof -
  have "restored b [] (ex_engine (fresh_exporter cfg ps (Some w) hostname inst))" by (rule fresh_restored)
  then have "in_step b 0 (ex_engine (fresh_exporter cfg ps (Some w) hostname inst)) []"
    by (simp add: restored_def in_step_def behind_def times_upto_def)
  then show ?thesis using assms by (simp add: resumable_def fresh_exporter_frame saved_def)
qed

section \<open>Properties\<close>

text \<open>C1. Restarts are invisible in the event sequence. From a first start with an empty log, on a
  disk that works throughout, over any number of lives of the exporter within one boot, with a restart after
  each, and any snapshots, probe answers and gap recoveries in them, handled one at a time, everything runs to the end: each restart opens the
  files, restores the states, replays the log, recovers the current slot from the journal and starts the
  receivers. The log then reads back as exactly the events that all the engines emitted, in order; their
  sequence numbers are 1, 2, 3, \<open>\<dots>\<close> without a gap or a repetition across the restarts; no service goes
  back in time; and the engine of the last restart has the counter and, for every service, the last event
  time and number that the log implies. The bounds on the calls keep the 64-bit counters and timestamps
  from wrapping.\<close>

theorem restarts_continue_the_sequence:
  assumes "synced w" and "w_log w = []" and "w_states w = Some []" and "wl_Enabled (cf_WAL cfg)"
    and "list_all (\<lambda>r. env_ok b cfg (snd r)) runs"
    and "list_all (call_ok b) (concat (map (life_calls cfg) runs))" and "length (concat (map (life_calls cfg) runs)) \<le> 2 ^ 61"
  shows "\<exists>evs ex' w'. lives ps hostname inst runs (fresh_exporter cfg ps (Some w) hostname inst) = Some (evs, ex') \<and>
     ex_wal ex' = Some w' \<and> fst (ReadAll (w_log w') None) = evs \<and>
     map (\<lambda>ev. unat (ev_Sequence ev)) evs = [1..<Suc (length evs)] \<and> times_from (\<lambda>_. 0) evs \<and>
     eng_seq (ex_engine ex') = of_nat (length evs) \<and> (\<forall>k. last_info (ex_engine ex') k = newest k evs (0, 0))"
proof -
  let ?ex = "fresh_exporter cfg ps (Some w) hostname inst" and ?n = "length (concat (map (life_calls cfg) runs))"
  obtain evs ex' where l: "lives ps hostname inst runs ?ex = Some (evs, ex')" "resumable b ?n ex' evs"
    using lives_resumable [where ps = ps and hostname = hostname and inst = inst,
        OF first_start [OF assms(1-3), of b cfg ps hostname inst], of runs] assms(4-7)
    by (auto simp: fresh_exporter_frame)
  then obtain w' where w': "ex_wal ex' = Some w'" "w_log w' = log_of evs" and s: "in_step b ?n (ex_engine ex') evs"
    by (auto simp: resumable_def)
  have num: "numbered_from 0 evs" "length evs < 2 ^ 64" "list_all wf_event evs"
    using s assms(7) own_events_wf by (auto simp: in_step_def)
  have "map (\<lambda>ev. unat (ev_Sequence ev)) evs = [1..<Suc (length evs)]"
    using numbered_from_unat [OF num(1)] num(2) by simp
  then show ?thesis using l(1) w' s ReadAll_log [OF num(3)] by (auto simp: in_step_def)
qed

lemma sample_wal_synced: "synced sample_wal" "w_log sample_wal = []" "w_states sample_wal = Some []"
  by (simp_all add: synced_def faults_in_def trunc_ok_def sample_wal_defs Let_def)

text \<open>A start-up in which the journal is not read, as the sample configuration has no recovery window.\<close>

definition sample_startup :: startup_env where
  "sample_startup = \<lparr>su_ifaces = Inr [], su_hostname = None, su_etcHostname = None, su_listenErr = None, su_disk = sample_disk,
     su_logFile = None, su_mkdirErr = None, su_repairErrs = (None, None, None), su_openErr = None, su_stateErr = None,
     su_replayErr = None, su_scanErr = None, su_startupTo = 0, su_clock = 0, su_bootRead = Inr ''boot1'', su_uptime = Inr ''1.00 1.00'',
     su_uptimeAt = 0, su_outside = (\<lambda>_. 0),
     su_rebootOrder = [], su_states = (Some ''no bus'', \<lambda>_. LoadPath ''/'', \<lambda>_. (0, CallFailed [])),
     su_recovery = \<lparr>rv_journalctl = sample_journal, rv_loc = \<lparr>loc_first = 0, loc_changes = []\<rparr>, rv_now = 0\<rparr>,
     su_targets = \<lambda>_. \<lparr>te_files = \<lparr>mg_source = None, mg_destination = None, mg_marker = None\<rparr>, te_fault = None, te_readErr = None,
        te_sender = sample_sender\<rparr>\<rparr>"

abbreviation boot1_snapshot :: "string \<Rightarrow> uint64 \<Rightarrow> uint64 \<Rightarrow> unit_snapshot" where
  "boot1_snapshot state enter exit \<equiv> (sample_snapshot state enter exit)\<lparr>us_BootID := ''boot1''\<rparr>"

abbreviation sample_lives :: "(exporter_op list \<times> startup_env) list" where
  "sample_lives \<equiv> [([XSnapshot (boot1_snapshot ''active'' 1000000 0) 5, XSnapshot (boot1_snapshot ''inactive'' 1000000 9000000) 6], sample_startup),
     ([XSnapshot (boot1_snapshot ''active'' 20000000 9000000) 7], sample_startup)]"

theorem restarts_continue_the_sequence_witness:
  "\<exists>evs ex' w'. lives ([], [], []) ''h'' ''i'' sample_lives (fresh_exporter sample_decoded ([], [], []) (Some sample_wal) ''h'' ''i'')
       = Some (evs, ex') \<and> ex_wal ex' = Some w' \<and> fst (ReadAll (w_log w') None) = evs \<and> evs \<noteq> [] \<and>
     map (\<lambda>ev. unat (ev_Sequence ev)) evs = [1..<Suc (length evs)]"
proof -
  let ?ex = "fresh_exporter sample_decoded ([], [], []) (Some sample_wal) ''h'' ''i''"
  have rc: "restart_calls sample_startup sample_decoded = []"
    by (simp add: restart_calls_def sample_startup_def RecoveryWindow_def sample_decoded_def)
  have "BootID (Inr ''boot1'') = Inr ''boot1''" by code_simp
  then have e: "list_all (\<lambda>r. env_ok ''boot1'' sample_decoded (snd r)) sample_lives" "wl_Enabled (cf_WAL sample_decoded)"
    by (simp_all add: env_ok_def sample_startup_def sample_decoded_def)
  have c: "list_all (call_ok ''boot1'') (concat (map (life_calls sample_decoded) sample_lives))"
    "length (concat (map (life_calls sample_decoded) sample_lives)) \<le> 2 ^ 61"
    by (simp_all add: life_calls_def rc call_ok_def sample_snapshot_def ascii_def)
  obtain evs ex' w' where l: "lives ([], [], []) ''h'' ''i'' sample_lives ?ex = Some (evs, ex')" "ex_wal ex' = Some w'"
      "fst (ReadAll (w_log w') None) = evs" "map (\<lambda>ev. unat (ev_Sequence ev)) evs = [1..<Suc (length evs)]"
    using restarts_continue_the_sequence [OF sample_wal_synced e(2,1) c, of "([], [], [])" "''h''" "''i''"] by blast
  have "snd (run_ops engine_step (ex_engine ?ex) (concat (map (engine_calls (ex_cfg ?ex)) (fst (hd sample_lives))))) \<noteq> []"
    by (simp add: fresh_exporter_def delayed_services_def engine_eval)
  then have "evs \<noteq> []" using l(1) by (auto split: option.splits)
  with l show ?thesis by blast
qed

text \<open>C40. A restart forgets that a unit waits for its probe. The saved state of such a unit is restored with the
  wait, but replaying the unit's last event, which has the time of the saved state, clears it. The first
  snapshot of the active unit then shows it as up, without an UP event and without starting the probe;
  had the state only been restored, it would still be down and waiting.\<close>

theorem restart_forgets_a_withheld_up:
  assumes "st_AwaitingSIP st" and "st_Service st = us_Service s" and "us_Service s \<noteq> []"
    and "ev_Service ev = us_Service s" and "ev_EventTimeUnixMS ev = st_LastEventTimeUnixMS st"
    and "st_BootID st = us_BootID s" and "ev_BootID ev = us_BootID s" and "us_ActiveState s = ''active''"
    and "us_ActiveEnterTimestampUS s = st_LastActiveEnterTimestampUS st"
    and "us_ActiveExitTimestampUS s = st_LastActiveExitTimestampUS st"
  shows "\<exists>e1 st1 e2 st2. Apply (Replay (RestoreState e st) ev) s = (e1, []) \<and> Engine_State e1 (us_Service s) = Some st1 \<and>
     st_Availability st1 = StateUp \<and> \<not> st_AwaitingSIP st1 \<and>
     Apply (RestoreState e st) s = (e2, []) \<and> Engine_State e2 (us_Service s) = Some st2 \<and>
     st_Availability st2 = StateDown \<and> st_AwaitingSIP st2"
  using assms
  by (simp add: RestoreState_def Replay_def Apply_def Engine_State_def state_or_zero_def snapshot_candidates_def Let_def
      observed_state_def note_last_event_def engine_availability_def)

definition waiting_engine :: engine where
  "waiting_engine = fst (run_ops engine_step Engine_New
     [OpDelay [''scscf.service''], OpApply (sample_snapshot ''active'' 1000 0), OpApply (sample_snapshot ''inactive'' 1000 5000),
      OpApply (sample_snapshot ''active'' 7000 5000)])"

theorem restart_forgets_a_withheld_up_witness:
  "\<exists>st ev e1 st1. Engine_State waiting_engine ''scscf.service'' = Some st \<and> st_AwaitingSIP st \<and> ev_State ev = StateDown \<and>
     Apply (Replay (RestoreState Engine_New st) ev) (sample_snapshot ''active'' 7000 5000) = (e1, []) \<and>
     Engine_State e1 ''scscf.service'' = Some st1 \<and> st_Availability st1 = StateUp \<and> \<not> st_AwaitingSIP st1"
proof -
  let ?s = "sample_snapshot ''active'' 7000 5000"
  obtain st where st: "Engine_State waiting_engine ''scscf.service'' = Some st"
    by (simp add: waiting_engine_def engine_eval Engine_State_def)
  define ev where "ev = systemd_event (sample_snapshot ''inactive'' 1000 5000) 1 \<lparr>cand_state = StateDown, cand_unixUS = 5000, cand_monoUS = 5000\<rparr>"
  have h: "st_AwaitingSIP st" "st_Service st = us_Service ?s" "us_Service ?s \<noteq> []" "ev_Service ev = us_Service ?s"
    "ev_EventTimeUnixMS ev = st_LastEventTimeUnixMS st" "st_BootID st = us_BootID ?s" "ev_BootID ev = us_BootID ?s"
    "us_ActiveState ?s = ''active''" "us_ActiveEnterTimestampUS ?s = st_LastActiveEnterTimestampUS st"
    "us_ActiveExitTimestampUS ?s = st_LastActiveExitTimestampUS st"
    using st by (auto simp: waiting_engine_def engine_eval Engine_State_def ev_def)
  have "ev_State ev = StateDown" "us_Service ?s = ''scscf.service''" by (simp_all add: ev_def engine_eval)
  with restart_forgets_a_withheld_up [OF h, of Engine_New] st h(1) show ?thesis by auto
qed

end
