(* ===== verification/Interleaving.thy ===== *)
theory Interleaving
  imports Restart
begin

text \<open>
  The handlers of \<open>main.go\<close> as they really run: the monitor calls \<open>onSnapshot\<close> and \<open>onRecovery\<close> from its goroutine,
  every probe calls \<open>publishReady\<close> from one of its own, each receiver has a worker and a ticker copies their
  counters. No lock spans a handler; only the single calls on the engine, the log, the registry, a queue and
  a prober are atomic, by the mutex or the channel of that part.

  A handler is therefore a list of instructions, one per such call, and a goroutine is what is left of its
  current handler. An instruction changes the shared \<open>exporter\<close> and gives the instructions that replace it, so
  values a handler keeps in local variables are arguments of the instructions that use them; \<open>Return\<close> drops
  the rest of the handler. A schedule says whose turn it is. One turn of a delivery worker is one step.
\<close>

section \<open>Handlers as instructions\<close>

datatype prober_kind = PSip | PDns | PAgw

datatype instr =
    IApply unit_snapshot go_time
  | IConfirm string go_time event_source go_time
  | IAppend event bool go_time
  | IWritable
  | IPending bool
  | ISetWAL bool nat
  | IEnqueue event nat
  | IRegEvent event
  | ISnapState unit_snapshot go_time
  | ISaveService string bool go_time
  | ISave service_state bool go_time
  | ISetState string availability
  | IStart prober_kind string
  | IStop prober_kind string
  | ICancel prober_kind uint64
  | IRecover recovery_env go_time go_time
  | IRecord go_time go_time go_time
  | IJournal recovery_env go_time go_time
  | IImport recovery_env go_time go_time "event list" "event list" "event list"
  | IStates recovery_env go_time go_time "event list" "event list" "string list" "string \<Rightarrow> availability option"
  | IFill recovery_env go_time go_time "event list" "event list" "string \<Rightarrow> availability option"
  | IEnqueueRecovery "state_sample list" "event list" nat

datatype outcome = Next "instr list" | Return "instr list"

text \<open>The body of the loops over emitted events: \<open>persist\<close> and \<open>reg.Event\<close>, and for an import the saved state.\<close>

definition live_instrs :: "go_time \<Rightarrow> event list \<Rightarrow> instr list" where
  "live_instrs now evs = concat (map (\<lambda>ev. [IAppend ev True now, IRegEvent ev]) evs)"

definition import_instrs :: "go_time \<Rightarrow> event list \<Rightarrow> instr list" where
  "import_instrs now evs = concat (map (\<lambda>ev. [IAppend ev False now, IRegEvent ev, ISaveService (ev_Service ev) True now]) evs)"

definition probe_instrs :: "service_state \<Rightarrow> string \<Rightarrow> instr list" where
  "probe_instrs st service =
     (if st_AwaitingSIP st then [IStart PSip service, IStart PDns service, IStart PAgw service]
      else [IStop PSip service, IStop PDns service, IStop PAgw service])"

fun start_prober :: "prober_kind \<Rightarrow> string \<Rightarrow> exporter \<Rightarrow> exporter" where
  "start_prober PSip service ex = ex\<lparr>ex_sip := Start service (ex_sip ex)\<rparr>"
| "start_prober PDns service ex = ex\<lparr>ex_dns := dns_Start service (ex_dns ex)\<rparr>"
| "start_prober PAgw service ex = ex\<lparr>ex_agw := agw_Start service (ex_agw ex)\<rparr>"

text \<open>The two halves of \<open>Stop\<close>: unregistering under the mutex, and the call of \<open>cancel\<close> after it.\<close>

fun stop_prober :: "prober_kind \<Rightarrow> string \<Rightarrow> exporter \<Rightarrow> uint64 option \<times> exporter" where
  "stop_prober PSip service ex = (case unregister service (ex_sip ex) of (current, p) \<Rightarrow> (current, ex\<lparr>ex_sip := p\<rparr>))"
| "stop_prober PDns service ex = (case dns_unregister service (ex_dns ex) of (current, p) \<Rightarrow> (current, ex\<lparr>ex_dns := p\<rparr>))"
| "stop_prober PAgw service ex = (case agw_unregister service (ex_agw ex) of (current, p) \<Rightarrow> (current, ex\<lparr>ex_agw := p\<rparr>))"

fun cancel_prober :: "prober_kind \<Rightarrow> uint64 \<Rightarrow> exporter \<Rightarrow> exporter" where
  "cancel_prober PSip rid ex = ex\<lparr>ex_sip := cancel_run rid (ex_sip ex)\<rparr>"
| "cancel_prober PDns rid ex = ex\<lparr>ex_dns := dns_cancel_run rid (ex_dns ex)\<rparr>"
| "cancel_prober PAgw rid ex = ex\<lparr>ex_agw := agw_cancel_run rid (ex_agw ex)\<rparr>"

text \<open>What follows a write to the log: \<open>publishWAL\<close>, and the return of an error the caller passes on.\<close>

definition after_write :: "wal_error option \<Rightarrow> bool \<Rightarrow> instr list \<Rightarrow> outcome" where
  "after_write err strict rest = (if err \<noteq> None \<and> strict then Return [IWritable] else Next (IWritable # rest))"

fun exec :: "instr \<Rightarrow> exporter \<Rightarrow> (exporter \<times> outcome) option" where
  "exec (IApply s now) ex = (case Apply (ex_engine ex) s of (e1, evs) \<Rightarrow> Some (ex\<lparr>ex_engine := e1\<rparr>, Next (live_instrs now evs)))"
| "exec (IConfirm service at' source now) ex =
     (case ConfirmReady (ex_engine ex) service at' source of
        (e1, None) \<Rightarrow> Some (ex\<lparr>ex_engine := e1\<rparr>, Return [])
      | (e1, Some ev) \<Rightarrow>
        Some (ex\<lparr>ex_engine := e1\<rparr>, Next (live_instrs now [ev] @ [ISaveService service False now, ISetState service StateUp])))"
| "exec (IAppend ev enq now) ex =
     (let queue = (if enq then [IEnqueue ev 0] else []) in
      case ex_wal ex of None \<Rightarrow> Some (ex, Next queue)
      | Some w \<Rightarrow> (case Append ev now w of (err, w') \<Rightarrow> Some (ex\<lparr>ex_wal := Some w'\<rparr>, after_write err True queue)))"
| "exec IWritable ex = Some (ex, Next (case ex_wal ex of None \<Rightarrow> [] | Some w \<Rightarrow> [IPending (Writable w)]))"
| "exec (IPending writable) ex = Some (ex, Next (case ex_wal ex of None \<Rightarrow> [] | Some w \<Rightarrow> [ISetWAL writable (Pending w)]))"
| "exec (ISetWAL writable pending) ex = Some (ex\<lparr>ex_reg := SetWALStatus writable pending (ex_reg ex)\<rparr>, Next [])"
| "exec (IEnqueue ev k) ex =
     Some (if k < length (ex_targets ex)
           then (ex\<lparr>ex_targets := (ex_targets ex)[k := snd (EnqueueEvent ev (ex_targets ex ! k))]\<rparr>, Next [IEnqueue ev (Suc k)])
           else (ex, Next []))"
| "exec (IRegEvent ev) ex = Some (ex\<lparr>ex_reg := Event ev (ex_reg ex)\<rparr>, Next [])"
| "exec (ISnapState s now) ex =
     (let st = snapshot_state s (ex_engine ex) in
      Some (ex, Next ([ISave st True now, ISetState (us_Service s) (st_Availability st)] @ probe_instrs st (us_Service s))))"
| "exec (ISaveService service strict now) ex =
     Some (ex, Next (case Engine_State (ex_engine ex) service of None \<Rightarrow> [] | Some st \<Rightarrow> [ISave st strict now]))"
| "exec (ISave st strict now) ex =
     (case ex_wal ex of None \<Rightarrow> Some (ex, Next [])
      | Some w \<Rightarrow>
        (case SaveState st now w of None \<Rightarrow> None
         | Some (err, w') \<Rightarrow> Some (ex\<lparr>ex_wal := Some w'\<rparr>, after_write err strict [])))"
| "exec (ISetState service state) ex = Some (ex\<lparr>ex_reg := SetState service state (ex_reg ex)\<rparr>, Next [])"
| "exec (IStart kind service) ex = Some (start_prober kind service ex, Next [])"
| "exec (IStop kind service) ex =
     (case stop_prober kind service ex of (current, ex1) \<Rightarrow>
        Some (ex1, Next (case current of None \<Rightarrow> [] | Some rid \<Rightarrow> [ICancel kind rid])))"
| "exec (ICancel kind rid) ex = Some (cancel_prober kind rid ex, Next [])"
| "exec (IRecover env from to) ex =
     Some (ex, case RecoveryWindow (rv_loc env) to (rc_RecoveryWindow (cf_RemoteWrite (ex_cfg ex))) of
        None \<Rightarrow> Return [] | Some (ws, we) \<Rightarrow> Next [IRecord from ws we, IJournal env ws we])"
| "exec (IRecord from ws we) ex = Some (ex\<lparr>ex_reg := RecordRecovery from ws we (ex_reg ex)\<rparr>, Next [])"
| "exec (IJournal env ws we) ex =
     Some (ex, case Recover (rv_journalctl env) (rv_loc env) (Units (ex_cfg ex)) ws we of
        Inl err \<Rightarrow> Return [] | Inr events \<Rightarrow> Next [IImport env ws we events events []])"
| "exec (IImport env ws we events [] recovered) ex =
     Some (ex, if ex_targets ex = [] then Next [] else Next [IStates env ws we events recovered (Units (ex_cfg ex)) Map.empty])"
| "exec (IImport env ws we events (c # cs) recovered) ex =
     (case ApplyRecovery (ex_engine ex) c of (e1, evs) \<Rightarrow>
        Some (ex\<lparr>ex_engine := e1\<rparr>, Next (import_instrs (rv_now env) evs @ [IImport env ws we events cs (recovered @ evs)])))"
| "exec (IStates env ws we events recovered [] states) ex = Some (ex, Next [IFill env ws we events recovered states])"
| "exec (IStates env ws we events recovered (u # us) states) ex =
     Some (ex, Next [IStates env ws we events recovered us
       (case Engine_State (ex_engine ex) u of None \<Rightarrow> states | Some st \<Rightarrow> states(u \<mapsto> st_Availability st))])"
| "exec (IFill env ws we events recovered states) ex =
     Some (ex, case BuildStateFill (rv_journalctl env) (rv_loc env) (Units (ex_cfg ex)) ws we events
                      (rc_RecoveryFillInterval (cf_RemoteWrite (ex_cfg ex))) states of
        Inl err \<Rightarrow> Return [] | Inr fill \<Rightarrow> Next [IEnqueueRecovery fill recovered 0])"
| "exec (IEnqueueRecovery fill recovered k) ex =
     Some (if k < length (ex_targets ex)
           then (ex\<lparr>ex_targets := (ex_targets ex)[k := snd (EnqueueRecovery fill recovered (ex_targets ex ! k))]\<rparr>,
                 Next [IEnqueueRecovery fill recovered (Suc k)])
           else (ex, Next []))"

fun handler :: "exporter_op \<Rightarrow> instr list" where
  "handler (XSnapshot s now) = [IApply s now, ISnapState s now]"
| "handler (XReady service at' source now) = [IConfirm service at' source now]"
| "handler (XRecovery env from to) = [IRecover env from to]"

section \<open>Schedules\<close>

text \<open>The ticker's \<open>update\<close>: the counters of every sender are copied into the registry.\<close>

definition update_stats :: "exporter \<Rightarrow> exporter" where
  "update_stats ex =
     ex\<lparr>ex_reg := fold (\<lambda>w r. case wk_sender w of None \<Rightarrow> r | Some s \<Rightarrow> SetRemoteWriteStats (TargetID w) (Stats s) r)
                   (ex_targets ex) (ex_reg ex)\<rparr>"

text \<open>
  \<open>Call i x\<close>: goroutine \<open>i\<close>, if it is idle, begins a handler. \<open>Exec i\<close>: it executes its next instruction.
  \<open>Turn k\<close>: the worker of receiver \<open>k\<close> makes a turn of its loop, if the chosen case can be taken.
\<close>

datatype sched = Call nat exporter_op | Exec nat | Turn nat wenv transport select_case | Tick

type_synonym pool = "instr list list"

definition continue :: "outcome \<Rightarrow> instr list \<Rightarrow> instr list" where
  "continue out rest = (case out of Next is \<Rightarrow> is @ rest | Return is \<Rightarrow> is)"

fun sched_step :: "sched \<Rightarrow> exporter \<times> pool \<Rightarrow> (exporter \<times> pool) option" where
  "sched_step (Call i x) (ex, ts) = Some (ex, if i < length ts \<and> ts ! i = [] then ts[i := handler x] else ts)"
| "sched_step (Exec i) (ex, ts) =
     (if i < length ts then
        (case ts ! i of [] \<Rightarrow> Some (ex, ts)
         | c # rest \<Rightarrow> (case exec c ex of None \<Rightarrow> None | Some (ex1, out) \<Rightarrow> Some (ex1, ts[i := continue out rest])))
      else Some (ex, ts))"
| "sched_step (Turn k env tr c) (ex, ts) =
     Some (if k < length (ex_targets ex)
           then (case run_turn env (rw_ops tr) c (ex_targets ex ! k) of
                   None \<Rightarrow> ex | Some (go, w) \<Rightarrow> ex\<lparr>ex_targets := (ex_targets ex)[k := w]\<rparr>) else ex, ts)"
| "sched_step Tick (ex, ts) = Some (update_stats ex, ts)"

fun sched_run :: "sched list \<Rightarrow> exporter \<times> pool \<Rightarrow> (exporter \<times> pool) option" where
  "sched_run [] c = Some c"
| "sched_run (x # xs) c = (case sched_step x c of None \<Rightarrow> None | Some c1 \<Rightarrow> sched_run xs c1)"

section \<open>Every interleaving logs every event\<close>

text \<open>The events a goroutine has taken from the engine and not yet given to the log.\<close>

fun appended :: "instr \<Rightarrow> event list" where
  "appended (IAppend ev enq now) = [ev]"
| "appended _ = []"

definition thread_events :: "instr list \<Rightarrow> event list" where
  "thread_events is = concat (map appended is)"

definition in_flight :: "pool \<Rightarrow> event list" where
  "in_flight ts = concat (map thread_events ts)"

text \<open>The instructions that may return early, or become one that may, end their handler.\<close>

fun final :: "instr \<Rightarrow> bool" where
  "final (IConfirm service at' source now) = True"
| "final (IRecover env from to) = True"
| "final (IJournal env ws we) = True"
| "final (IImport env ws we events cs recovered) = True"
| "final (IStates env ws we events recovered us states) = True"
| "final (IFill env ws we events recovered states) = True"
| "final _ = False"

definition thread_ok :: "instr list \<Rightarrow> bool" where
  "thread_ok is \<longleftrightarrow> list_all (\<lambda>c. \<not> final c) (butlast is)"

definition effect :: "engine_op list \<Rightarrow> event list \<Rightarrow> event list \<Rightarrow> exporter \<Rightarrow> exporter \<Rightarrow> bool" where
  "effect calls emitted written ex ex' \<longleftrightarrow> ex_cfg ex' = ex_cfg ex \<and> list_all live_op calls \<and>
     run_ops engine_step (ex_engine ex) calls = (ex_engine ex', emitted) \<and>
     (\<exists>w w'. ex_wal ex = Some w \<and> ex_wal ex' = Some w' \<and> durable w' \<and> accepted w' = accepted w @ log_of written)"

lemma thread_events_simps [simp]:
  "thread_events [] = []" "thread_events (c # is) = appended c @ thread_events is"
  "thread_events (is @ js) = thread_events is @ thread_events js"
  by (simp_all add: thread_events_def)

lemma thread_events_instrs [simp]:
  "thread_events (live_instrs now evs) = evs" "thread_events (import_instrs now evs) = evs"
  "thread_events (probe_instrs st service) = []"
  by (induction evs) (simp_all add: live_instrs_def import_instrs_def probe_instrs_def)

lemma thread_ok_Cons [simp]: "\<not> final c \<Longrightarrow> thread_ok (c # rest) \<longleftrightarrow> thread_ok rest"
  by (simp add: thread_ok_def)

lemma thread_ok_last [simp]: "thread_ok [c]" "thread_ok []"
  by (simp_all add: thread_ok_def)

lemma thread_ok_append: "thread_ok rest \<Longrightarrow> list_all (\<lambda>c. \<not> final c) is \<Longrightarrow> thread_ok (is @ rest)"
  by (induction "is") simp_all

lemma thread_ok_tl: "thread_ok (c # rest) \<Longrightarrow> thread_ok rest"
  by (simp add: thread_ok_def split: if_splits)

lemma thread_ok_final: "thread_ok (c # rest) \<Longrightarrow> final c \<Longrightarrow> rest = []"
  by (simp add: thread_ok_def split: if_splits)

lemma plain_instrs [simp]:
  "list_all (\<lambda>c. \<not> final c) (live_instrs now evs)" "list_all (\<lambda>c. \<not> final c) (import_instrs now evs)"
  "list_all (\<lambda>c. \<not> final c) (probe_instrs st service)"
  by (simp_all add: live_instrs_def import_instrs_def probe_instrs_def list_all_iff)

lemma effect_same: "logging ex \<Longrightarrow> same_core ex ex' \<Longrightarrow> effect [] [] [] ex ex'"
  by (auto simp: effect_def same_core_def logging_def)

lemma effect_engine: "logging ex \<Longrightarrow> live_op x \<Longrightarrow> engine_step (ex_engine ex) x = (e, evs) \<Longrightarrow> effect [x] evs [] ex (ex\<lparr>ex_engine := e\<rparr>)"
  by (auto simp: effect_def logging_def)

lemma prober_core [simp]:
  "same_core ex (start_prober kind service ex)" "same_core ex (snd (stop_prober kind service ex))"
  "same_core ex (cancel_prober kind rid ex)"
  by (cases kind; simp add: same_core_def split: prod.split)+

lemma update_core [simp]: "same_core ex ex" "same_core ex (ex\<lparr>ex_reg := r\<rparr>)" "same_core ex (ex\<lparr>ex_targets := ws\<rparr>)"
  by (simp_all add: same_core_def)

lemma exec_effect:
  assumes "logging ex" and ok: "thread_ok (c # rest)"
  shows "\<exists>ex' out calls evs. exec c ex = Some (ex', out) \<and> thread_ok (continue out rest) \<and>
     effect calls evs (appended c) ex ex' \<and> thread_events (continue out rest) = evs @ thread_events rest"
proof -
  obtain w where w: "ex_wal ex = Some w" "durable w" using assms(1) by (auto simp: logging_def)
  note rest = thread_ok_tl [OF ok] thread_ok_final [OF ok]
  have same: "\<exists>calls. effect calls [] [] ex ex'" if "same_core ex ex'" for ex' using effect_same [OF assms(1) that] by blast
  show ?thesis
  proof (cases c)
    case (IAppend ev enq now)
    from Append_durable [OF w(2), of ev now] obtain w' where
      a: "Append ev now w = (None, w')" "durable w'" "accepted w' = accepted w @ record_line ev" by blast
    have "effect [] [] [ev] ex (ex\<lparr>ex_wal := Some w'\<rparr>)" using w a by (simp add: effect_def)
    then show ?thesis using rest w a
      by (auto simp: IAppend Let_def after_write_def continue_def)
  next
    case (ISave st strict now)
    from SaveState_durable [OF w(2), of st now] obtain w' where
      a: "SaveState st now w = Some (None, w')" "durable w'" "accepted w' = accepted w" by blast
    have "effect [] [] [] ex (ex\<lparr>ex_wal := Some w'\<rparr>)" using w a by (simp add: effect_def)
    then show ?thesis using rest w a
      by (auto simp: ISave after_write_def continue_def)
  next
    case (IApply s now)
    obtain e evs where a: "Apply (ex_engine ex) s = (e, evs)" by (cases "Apply (ex_engine ex) s")
    have "effect [OpApply s] evs [] ex (ex\<lparr>ex_engine := e\<rparr>)" by (rule effect_engine [OF assms(1)]) (simp_all add: a)
    then show ?thesis using rest by (auto simp: IApply a continue_def thread_ok_append)
  next
    case (IConfirm service at' source now)
    obtain e r where a: "ConfirmReady (ex_engine ex) service at' source = (e, r)" by (cases "ConfirmReady (ex_engine ex) service at' source")
    have "effect [OpConfirm service at' source] (case r of None \<Rightarrow> [] | Some ev \<Rightarrow> [ev]) [] ex (ex\<lparr>ex_engine := e\<rparr>)"
      by (rule effect_engine [OF assms(1)]) (simp_all add: a)
    then show ?thesis using rest
      by (cases r) (auto simp: IConfirm a continue_def live_instrs_def)
  next
    case (IImport env ws we events cs recovered)
    show ?thesis
    proof (cases cs)
      case Nil
      then show ?thesis using rest same by (auto simp: IImport continue_def)
    next
      case (Cons x xs)
      obtain e evs where a: "ApplyRecovery (ex_engine ex) x = (e, evs)" by (cases "ApplyRecovery (ex_engine ex) x")
      have "effect [OpRecovery x] evs [] ex (ex\<lparr>ex_engine := e\<rparr>)" by (rule effect_engine [OF assms(1)]) (simp_all add: a)
      then show ?thesis using rest by (auto simp: IImport Cons a continue_def thread_ok_append)
    qed
  next
    case (IStates env ws we events recovered us states)
    then show ?thesis using rest same by (cases us) (auto simp: continue_def)
  next
    case (IStop kind service)
    obtain current ex1 where st: "stop_prober kind service ex = (current, ex1)" by (cases "stop_prober kind service ex")
    then have "same_core ex ex1" using prober_core(2) [of ex kind service] by simp
    then show ?thesis using rest same IStop st by (cases current) (auto simp: continue_def)
  qed (use rest same w in \<open>auto simp: continue_def thread_ok_append Let_def
       split: option.splits sum.splits\<close>)
qed

text \<open>What holds in every state a schedule reaches.\<close>

definition conc_inv :: "exporter \<Rightarrow> exporter \<times> pool \<Rightarrow> bool" where
  "conc_inv ex0 c \<longleftrightarrow> (case c of (ex, ts) \<Rightarrow> list_all thread_ok ts \<and>
     (\<exists>w0 w calls evs out. ex_wal ex0 = Some w0 \<and> ex_wal ex = Some w \<and> durable w \<and> list_all live_op calls \<and>
        run_ops engine_step (ex_engine ex0) calls = (ex_engine ex, evs) \<and>
        accepted w = accepted w0 @ log_of out \<and> mset out + mset (in_flight ts) = mset evs))"

lemma in_flight_update:
  assumes "i < length ts"
  shows "mset (in_flight (ts[i := is])) + mset (thread_events (ts ! i)) = mset (in_flight ts) + mset (thread_events is)"
proof -
  have "in_flight (ts[i := js]) = in_flight (take i ts) @ thread_events js @ in_flight (drop (Suc i) ts)" for js
    by (simp add: upd_conv_take_nth_drop [OF assms] in_flight_def)
  from this [of "is"] this [of "ts ! i"] show ?thesis by simp
qed

lemma thread_ok_update: "list_all thread_ok ts \<Longrightarrow> thread_ok is \<Longrightarrow> list_all thread_ok (ts[i := is])"
  unfolding list_all_iff by (auto dest: set_update_subset_insert [THEN subsetD])

lemma handler_ok: "thread_ok (handler x)" "thread_events (handler x) = []"
  by (cases x; simp)+

lemma exec_inv:
  assumes inv: "conc_inv ex0 (ex, ts)" and i: "i < length ts" "ts ! i = c # rest"
  shows "\<exists>ex' out. exec c ex = Some (ex', out) \<and> conc_inv ex0 (ex', ts[i := continue out rest])"
proof -
  from inv obtain w0 w calls evs out where h: "list_all thread_ok ts" "ex_wal ex0 = Some w0" "ex_wal ex = Some w" "durable w"
      "list_all live_op calls" "run_ops engine_step (ex_engine ex0) calls = (ex_engine ex, evs)"
      "accepted w = accepted w0 @ log_of out" "mset out + mset (in_flight ts) = mset evs"
    by (auto simp: conc_inv_def)
  have "logging ex" using h(3,4) by (simp add: logging_def)
  moreover have "thread_ok (c # rest)" using h(1) i by (metis list_all_length)
  ultimately obtain ex' o1 xs new where e: "exec c ex = Some (ex', o1)" "thread_ok (continue o1 rest)"
      "effect xs new (appended c) ex ex'" "thread_events (continue o1 rest) = new @ thread_events rest"
    using exec_effect by blast
  obtain w' where w': "ex_wal ex' = Some w'" "durable w'" "accepted w' = accepted w @ log_of (appended c)"
      "run_ops engine_step (ex_engine ex) xs = (ex_engine ex', new)"
    "list_all live_op xs"
    using e(3) h(3) by (auto simp: effect_def)
  have "run_ops engine_step (ex_engine ex0) (calls @ xs) = (ex_engine ex', evs @ new)"
    using h(6) w'(4) by (simp add: run_ops_append)
  moreover have "mset (in_flight (ts[i := continue o1 rest])) + mset (appended c) = mset (in_flight ts) + mset new"
    using in_flight_update [OF i(1), of "continue o1 rest"] by (simp add: i(2) e(4))
  then have "mset (out @ appended c) + mset (in_flight (ts[i := continue o1 rest])) = mset (evs @ new)"
    by (simp add: h(8) [symmetric] ac_simps)
  moreover have "accepted w' = accepted w0 @ log_of (out @ appended c)" using w'(3) h(7) by simp
  moreover have "list_all live_op (calls @ xs)" using h(5) w'(5) by simp
  moreover have "list_all thread_ok (ts[i := continue o1 rest])" using h(1) e(2) by (rule thread_ok_update)
  ultimately have "conc_inv ex0 (ex', ts[i := continue o1 rest])"
    unfolding conc_inv_def prod.case using h(2) w'(1,2) by blast
  with e(1) show ?thesis by blast
qed

lemma core_inv: "conc_inv ex0 (ex, ts) \<Longrightarrow> same_core ex ex' \<Longrightarrow> conc_inv ex0 (ex', ts)"
  by (simp add: conc_inv_def same_core_def)

lemma sched_step_inv:
  assumes "conc_inv ex0 (ex, ts)"
  shows "\<exists>c'. sched_step x (ex, ts) = Some c' \<and> conc_inv ex0 c'"
proof (cases x)
  case (Call i y)
  have "conc_inv ex0 (ex, ts[i := handler y])" if "i < length ts" "ts ! i = []"
    using assms in_flight_update [OF that(1), of "handler y"] that(2) handler_ok [of y] thread_ok_update
    by (simp add: conc_inv_def)
  then show ?thesis using assms by (simp add: Call)
next
  case (Exec i)
  show ?thesis
  proof (cases "i < length ts \<and> ts ! i \<noteq> []")
    case True
    then obtain c rest where "ts ! i = c # rest" by (cases "ts ! i") auto
    with True exec_inv [OF assms, of i] show ?thesis by (auto simp: Exec)
  qed (use assms Exec in auto)
next
  case (Turn k env tr c)
  then show ?thesis using core_inv [OF assms] assms by (simp split: option.split)
next
  case Tick
  then show ?thesis using core_inv [OF assms, of "update_stats ex"] by (simp add: update_stats_def)
qed

lemma sched_run_inv: "conc_inv ex0 c \<Longrightarrow> \<exists>c'. sched_run ss c = Some c' \<and> conc_inv ex0 c'"
proof (induction ss arbitrary: c)
  case (Cons x ss)
  obtain c1 where "sched_step x c = Some c1" "conc_inv ex0 c1"
    using sched_step_inv [of ex0 "fst c" "snd c" x] Cons.prems by auto
  with Cons.IH show ?case by simp
qed simp

section \<open>A handler that is not interrupted\<close>

text \<open>A goroutine that runs alone until its handler has returned.\<close>

inductive runs :: "instr list \<Rightarrow> exporter \<Rightarrow> exporter \<Rightarrow> bool" where
  runs_done: "runs [] ex ex"
| runs_step: "exec c ex = Some (ex1, out) \<Longrightarrow> runs (continue out rest) ex1 ex' \<Longrightarrow> runs (c # rest) ex ex'"

lemma runs_schedule:
  "runs is ex ex' \<Longrightarrow> i < length ts \<Longrightarrow> ts ! i = is \<Longrightarrow> \<exists>n. sched_run (replicate n (Exec i)) (ex, ts) = Some (ex', ts[i := []])"
proof (induction arbitrary: ts rule: runs.induct)
  case (runs_done ex)
  then have "sched_run (replicate 0 (Exec i)) (ex, ts) = Some (ex, ts[i := []])" by (metis list_update_id replicate_0 sched_run.simps(1))
  then show ?case by blast
next
  case (runs_step c ex ex1 out rest ex')
  have "i < length (ts[i := continue out rest])" "ts[i := continue out rest] ! i = continue out rest" using runs_step.prems by simp_all
  from runs_step.IH [OF this] obtain n
    where "sched_run (replicate n (Exec i)) (ex1, ts[i := continue out rest]) = Some (ex', ts[i := []])"
    by auto
  then have "sched_run (replicate (Suc n) (Exec i)) (ex, ts) = Some (ex', ts[i := []])" using runs_step by simp
  then show ?case by blast
qed

inductive_simps runs_simps: "runs [] ex ex'" "runs (c # rest) ex ex'"

lemma runs_Nil [simp]: "runs [] ex ex' \<longleftrightarrow> ex' = ex"
  by (auto simp: runs_simps)

lemma runs_Cons: "runs (c # rest) ex ex' \<longleftrightarrow>
    (case exec c ex of None \<Rightarrow> False | Some (ex1, out) \<Rightarrow> runs (continue out rest) ex1 ex')"
  by (auto simp: runs_simps split: option.split)

lemma runs_publishWAL: "runs (IWritable # rest) ex ex' \<longleftrightarrow> runs rest (publishWAL ex) ex'"
  by (cases "ex_wal ex") (simp_all add: runs_Cons continue_def publishWAL_def)

text \<open>Enqueueing one by one is enqueueing everywhere.\<close>

lemma runs_enqueue:
  assumes "\<And>k ex. exec (c k) ex = Some (if k < length (ex_targets ex)
      then (ex\<lparr>ex_targets := (ex_targets ex)[k := f (ex_targets ex ! k)]\<rparr>, Next [c (Suc k)]) else (ex, Next []))"
  shows "runs (c k # rest) ex ex' \<longleftrightarrow>
    runs rest (ex\<lparr>ex_targets := take k (ex_targets ex) @ map f (drop k (ex_targets ex))\<rparr>) ex'"
proof (induction "length (ex_targets ex) - k" arbitrary: k ex)
  case 0
  then show ?case by (simp add: runs_Cons continue_def assms)
next
  case (Suc n)
  let ?ws = "ex_targets ex" and ?ex1 = "ex\<lparr>ex_targets := (ex_targets ex)[k := f (ex_targets ex ! k)]\<rparr>"
  have k: "k < length ?ws" using Suc.hyps(2) by simp
  have "take (Suc k) (?ws[k := f (?ws ! k)]) @ map f (drop (Suc k) (?ws[k := f (?ws ! k)])) = take k ?ws @ map f (drop k ?ws)"
    using k by (simp add: take_Suc_conv_app_nth Cons_nth_drop_Suc [symmetric] del: take_update_swap)
  moreover have "runs (c (Suc k) # rest) ?ex1 ex' \<longleftrightarrow> runs rest (?ex1\<lparr>ex_targets :=
      take (Suc k) (ex_targets ?ex1) @ map f (drop (Suc k) (ex_targets ?ex1))\<rparr>) ex'"
    using Suc.hyps(2) by (intro Suc.hyps(1)) simp
  ultimately show ?case using k by (simp add: runs_Cons [of "c k"] continue_def assms)
qed

lemma runs_persist:
  "runs (IAppend ev enq now # rest) ex ex' \<longleftrightarrow>
    (case persistEvent ev enq now ex of (None, ex1) \<Rightarrow> runs rest ex1 ex' | (Some err, ex1) \<Rightarrow> ex' = ex1)"
proof -
  have q: "runs (IEnqueue ev 0 # rest) x ex' \<longleftrightarrow>
      runs rest (x\<lparr>ex_targets := map (\<lambda>w. snd (EnqueueEvent ev w)) (ex_targets x)\<rparr>) ex'" for x
    using runs_enqueue [of "IEnqueue ev" "\<lambda>w. snd (EnqueueEvent ev w)" 0 rest x ex'] by simp
  show ?thesis
    by (simp add: runs_Cons [of "IAppend ev enq now"] persistEvent_def appendEvent_def after_write_def continue_def Let_def
        runs_publishWAL q split: option.split prod.split)
qed

lemma runs_live:
  "runs (live_instrs now evs @ rest) ex ex' \<longleftrightarrow>
    (case persist_events evs True now ex of (None, ex1) \<Rightarrow> runs rest ex1 ex' | (Some err, ex1) \<Rightarrow> ex' = ex1)"
  by (induction evs arbitrary: ex)
    (simp_all add: live_instrs_def runs_persist runs_Cons [of "IRegEvent _"] continue_def split: option.split prod.split)

lemma runs_save:
  "runs (ISave st strict now # rest) ex ex' \<longleftrightarrow>
    (case saveState st now ex of None \<Rightarrow> False
     | Some (err, ex1) \<Rightarrow> if err \<noteq> None \<and> strict then ex' = ex1 else runs rest ex1 ex')"
  by (auto simp: runs_Cons [of "ISave st strict now"] saveState_def after_write_def continue_def runs_publishWAL
      split: option.split prod.split)

lemma runs_save_service:
  "runs (ISaveService service strict now # rest) ex ex' \<longleftrightarrow>
    (case save_service service now ex of None \<Rightarrow> False
     | Some (err, ex1) \<Rightarrow> if err \<noteq> None \<and> strict then ex' = ex1 else runs rest ex1 ex')"
  by (auto simp: runs_Cons [of "ISaveService service strict now"] save_service_def continue_def runs_save split: option.split)

lemma runs_imported:
  "runs (import_instrs now evs @ rest) ex ex' \<longleftrightarrow>
    (case import_emitted evs now ex of None \<Rightarrow> False | Some (None, ex1) \<Rightarrow> runs rest ex1 ex' | Some (Some err, ex1) \<Rightarrow> ex' = ex1)"
proof (induction evs arbitrary: ex)
  case (Cons ev evs)
  obtain r ex1 where p: "persistEvent ev False now ex = (r, ex1)" by (cases "persistEvent ev False now ex")
  let ?s = "save_service (ev_Service ev) now (ex1\<lparr>ex_reg := Event ev (ex_reg ex1)\<rparr>)"
  have "?s = None \<or> (\<exists>ex2. ?s = Some (None, ex2)) \<or> (\<exists>err ex2. ?s = Some (Some err, ex2))"
    by (cases ?s) (auto intro: option.exhaust)
  with Cons.IH p show ?case
    by (cases r) (auto simp: import_instrs_def runs_persist runs_save_service runs_Cons [of "IRegEvent _"] continue_def)
qed (simp add: import_instrs_def)

lemma runs_states:
  "runs (IStates env ws we events recovered us states # rest) ex ex' \<longleftrightarrow>
    runs (IFill env ws we events recovered (\<lambda>u. if u \<in> set us \<and> Engine_State (ex_engine ex) u \<noteq> None
       then map_option st_Availability (Engine_State (ex_engine ex) u) else states u) # rest) ex ex'"
proof (induction us arbitrary: states)
  case (Cons u us)
  have "(\<lambda>v. if v \<in> set us \<and> Engine_State (ex_engine ex) v \<noteq> None then map_option st_Availability (Engine_State (ex_engine ex) v)
        else (case Engine_State (ex_engine ex) u of None \<Rightarrow> states | Some st \<Rightarrow> states(u \<mapsto> st_Availability st)) v) =
      (\<lambda>v. if v \<in> set (u # us) \<and> Engine_State (ex_engine ex) v \<noteq> None then map_option st_Availability (Engine_State (ex_engine ex) v)
        else states v)"
    by (auto simp: fun_eq_iff split: option.split)
  then show ?case by (simp add: runs_Cons [of "IStates env ws we events recovered (u # us) states"] continue_def Cons.IH)
qed (simp add: runs_Cons [of "IStates _ _ _ _ _ _ _"] continue_def)

lemma runs_import:
  "runs [IImport env ws we events cs recovered] ex ex' \<longleftrightarrow>
    (case import_events cs (rv_now env) ex of None \<Rightarrow> False
     | Some ((Some err, _), ex1) \<Rightarrow> ex' = ex1
     | Some ((None, evs), ex1) \<Rightarrow>
       (if ex_targets ex1 = [] then ex' = ex1
        else case BuildStateFill (rv_journalctl env) (rv_loc env) (Units (ex_cfg ex1)) ws we events
                    (rc_RecoveryFillInterval (cf_RemoteWrite (ex_cfg ex1))) (engineStates ex1) of
          Inl err \<Rightarrow> ex' = ex1
        | Inr fill \<Rightarrow> ex' = ex1\<lparr>ex_targets := map (\<lambda>w. snd (EnqueueRecovery fill (recovered @ evs) w)) (ex_targets ex1)\<rparr>))"
proof (induction cs arbitrary: ex recovered)
  case Nil
  have q: "runs [IEnqueueRecovery fill recovered 0] ex ex' \<longleftrightarrow>
      ex' = ex\<lparr>ex_targets := map (\<lambda>w. snd (EnqueueRecovery fill recovered w)) (ex_targets ex)\<rparr>" for fill
    using runs_enqueue [of "IEnqueueRecovery fill recovered" "\<lambda>w. snd (EnqueueRecovery fill recovered w)" 0 "[]" ex ex'] by simp
  have "engineStates ex = (\<lambda>u. if u \<in> set (Units (ex_cfg ex)) \<and> Engine_State (ex_engine ex) u \<noteq> None
       then map_option st_Availability (Engine_State (ex_engine ex) u) else None)"
    by (auto simp: fun_eq_iff engineStates_def)
  then show ?case
    by (simp add: runs_Cons [of "IImport _ _ _ _ _ _"] continue_def runs_states runs_Cons [of "IFill _ _ _ _ _ _"] q split: sum.split)
next
  case (Cons c cs)
  obtain e1 evs where a: "ApplyRecovery (ex_engine ex) c = (e1, evs)" by (cases "ApplyRecovery (ex_engine ex) c")
  let ?m = "import_emitted evs (rv_now env) (ex\<lparr>ex_engine := e1\<rparr>)"
  have "?m = None \<or> (\<exists>ex2. ?m = Some (None, ex2)) \<or> (\<exists>err ex2. ?m = Some (Some err, ex2))"
    by (cases ?m) (auto intro: option.exhaust)
  then show ?case
    by (auto simp: runs_Cons [of "IImport env ws we events (c # cs) recovered"] a continue_def runs_imported Cons.IH
        cong del: sum.case_cong_weak split: option.split prod.split)
qed

text \<open>The configuration never changes.\<close>

lemma persistEvent_cfg: "persistEvent ev enq now ex = (r, ex1) \<Longrightarrow> ex_cfg ex1 = ex_cfg ex"
  by (auto simp: persistEvent_def appendEvent_def split: option.splits prod.splits if_splits)

lemma save_service_cfg: "save_service service now ex = Some (r, ex1) \<Longrightarrow> ex_cfg ex1 = ex_cfg ex"
  by (auto simp: save_service_def saveState_def split: option.splits prod.splits)

lemma import_emitted_cfg: "import_emitted evs now ex = Some (r, ex1) \<Longrightarrow> ex_cfg ex1 = ex_cfg ex"
proof (induction evs arbitrary: ex)
  case (Cons ev evs)
  from Cons.prems show ?case
    by (auto split: option.splits prod.splits dest!: persistEvent_cfg save_service_cfg Cons.IH)
qed simp

lemma import_events_cfg: "import_events cs now ex = Some (r, ex1) \<Longrightarrow> ex_cfg ex1 = ex_cfg ex"
proof (induction cs arbitrary: ex r)
  case (Cons c cs)
  from Cons.prems show ?case
    by (auto split: option.splits prod.splits dest!: import_emitted_cfg Cons.IH)
qed simp

lemma runs_recovery: "runs [IRecover env a b] ex ex' \<longleftrightarrow> map_option snd (onRecovery env a b ex) = Some ex'"
proof (cases "RecoveryWindow (rv_loc env) b (rc_RecoveryWindow (cf_RemoteWrite (ex_cfg ex)))")
  case (Some win)
  obtain ws we where win: "win = (ws, we)" by (cases win)
  let ?ex1 = "ex\<lparr>ex_reg := RecordRecovery a ws we (ex_reg ex)\<rparr>"
  have start: "runs [IRecover env a b] ex ex' \<longleftrightarrow> runs [IJournal env ws we] ?ex1 ex'"
    by (simp add: runs_Cons [of "IRecover env a b"] runs_Cons [of "IRecord a ws we"] Some win continue_def)
  show ?thesis
  proof (cases "Recover (rv_journalctl env) (rv_loc env) (Units (ex_cfg ex)) ws we")
    case (Inr events)
    have cfg: "import_events events (rv_now env) ?ex1 = Some (r, ex2) \<Longrightarrow> ex_cfg ex2 = ex_cfg ex" for r ex2
      using import_events_cfg by fastforce
    have run: "runs [IRecover env a b] ex ex' \<longleftrightarrow> runs [IImport env ws we events events []] ?ex1 ex'"
      by (simp add: start runs_Cons [of "IJournal env ws we"] Inr continue_def)
    show ?thesis
    proof (cases "import_events events (rv_now env) ?ex1")
      case None
      then show ?thesis unfolding run by (simp add: runs_import onRecovery_def Some win Inr Let_def)
    next
      case (Some res)
      obtain err evs ex2 where res: "res = ((err, evs), ex2)" by (metis prod.exhaust)
      note im = Some [unfolded res]
      show ?thesis unfolding run using cfg [OF im]
        by (cases err) (auto simp: runs_import onRecovery_def \<open>_ = Some win\<close> win Inr im Let_def split: sum.split)
    qed
  qed (auto simp: start runs_Cons [of "IJournal env ws we"] continue_def onRecovery_def Some win Let_def)
qed (auto simp: runs_Cons [of "IRecover env a b"] continue_def onRecovery_def Let_def)

text \<open>The two halves of \<open>Stop\<close>, not interrupted, are \<open>Stop\<close>.\<close>

lemma runs_stop:
  "runs (IStop PSip service # rest) y ex' \<longleftrightarrow> runs rest (y\<lparr>ex_sip := Stop service (ex_sip y)\<rparr>) ex'"
  "runs (IStop PDns service # rest) y ex' \<longleftrightarrow> runs rest (y\<lparr>ex_dns := dns_Stop service (ex_dns y)\<rparr>) ex'"
  "runs (IStop PAgw service # rest) y ex' \<longleftrightarrow> runs rest (y\<lparr>ex_agw := agw_Stop service (ex_agw y)\<rparr>) ex'"
  by (simp_all add: runs_Cons continue_def Stop_def unregister_def dns_Stop_def dns_unregister_def dns_cancel_run_def agw_Stop_def
      agw_unregister_def agw_cancel_run_def split: option.split)

text \<open>Hence a handler that runs alone does what the function of the previous theory says, also when it panics.\<close>

lemma runs_handler: "runs (handler x) ex ex' \<longleftrightarrow> exporter_step x ex = Some ex'"
proof (cases x)
  case (XSnapshot s now)
  obtain e1 evs where a: "Apply (ex_engine ex) s = (e1, evs)" by (cases "Apply (ex_engine ex) s")
  have probes: "runs (probe_instrs st service) y ex' \<longleftrightarrow>
      ex' = (if st_AwaitingSIP st then start_probes service y else stop_probes service y)" for st service y
    by (simp add: probe_instrs_def runs_stop runs_Cons [of "IStart _ _"] continue_def start_probes_def stop_probes_def)
  show ?thesis
    by (auto simp: XSnapshot runs_Cons [of "IApply s now"] a continue_def runs_live runs_Cons [of "ISnapState s now"] runs_save
        runs_Cons [of "ISetState _ _"] probes onSnapshot_def Let_def split: option.splits prod.splits)
next
  case (XReady service at' source now)
  obtain e1 r where a: "ConfirmReady (ex_engine ex) service at' source = (e1, r)"
    by (cases "ConfirmReady (ex_engine ex) service at' source")
  show ?thesis
    by (cases r) (auto simp: XReady runs_Cons [of "IConfirm service at' source now"] a continue_def runs_live runs_save_service
        runs_Cons [of "ISetState _ _"] publishReady_def Let_def split: option.splits prod.splits)
next
  case (XRecovery env a b)
  then show ?thesis by (simp add: runs_recovery)
qed

section \<open>Properties\<close>

text \<open>C4. No schedule loses an event. Start any number of idle goroutines on a disk that is at worst full and
  let them run the handlers in any interleaving, together with the workers and the ticker: nothing panics,
  the engine has gone through a sequence of its calls and numbers what they emit consecutively, and every
  event it has emitted is either in the log
  (its file or its queue) or still in the hands of the goroutine that took it, exactly once.\<close>

theorem interleaved_handlers_log_every_event:
  assumes "ex_wal ex = Some w" and "faults_in no_space w" and "trunc_ok w" and "w_states w \<noteq> None"
  shows "\<exists>ex' ts' w' evs out. sched_run ss (ex, replicate n []) = Some (ex', ts') \<and> ex_wal ex' = Some w' \<and>
     (\<exists>calls. list_all live_op calls \<and> run_ops engine_step (ex_engine ex) calls = (ex_engine ex', evs)) \<and>
     numbered_from (eng_seq (ex_engine ex)) evs \<and> eng_seq (ex_engine ex') = eng_seq (ex_engine ex) + of_nat (length evs) \<and>
     accepted w' = accepted w @ log_of out \<and> mset out + mset (in_flight ts') = mset evs"
proof -
  have "in_flight (replicate n []) = []" by (induction n) (simp_all add: in_flight_def)
  moreover have "run_ops engine_step (ex_engine ex) [] = (ex_engine ex, [])" by simp
  moreover have "accepted w = accepted w @ log_of []" by simp
  moreover have "durable w" using assms(2-4) by (simp add: durable_def)
  ultimately have "conc_inv ex (ex, replicate n [])"
    unfolding conc_inv_def prod.case using assms(1)
    by (intro conjI exI [of _ w] exI [of _ "[]::engine_op list"] exI [of _ "[]::event list"]) (simp_all add: list_all_iff)
  from sched_run_inv [OF this, of ss] obtain ex' ts' w' calls evs out where r: "sched_run ss (ex, replicate n []) = Some (ex', ts')"
      "ex_wal ex' = Some w'" "list_all live_op calls" "run_ops engine_step (ex_engine ex) calls = (ex_engine ex', evs)"
      "accepted w' = accepted w @ log_of out" "mset out + mset (in_flight ts') = mset evs"
    using assms(1) by (auto simp: conc_inv_def)
  with eng_src.run_numbered [OF r(3,4)] show ?thesis by blast
qed

theorem interleaved_handlers_log_every_event_witness:
  "\<exists>ex' ts' w' evs out. sched_run [Call 0 (XSnapshot (sample_snapshot ''active'' 1000 0) 5), Call 1 (XReady ''a'' 0 SourceSIP 6),
        Exec 1, Exec 0, Tick, Exec 0] (sample_exporter, [[], []]) = Some (ex', ts') \<and> ex_wal ex' = Some w' \<and>
     accepted w' = log_of out \<and> mset out + mset (in_flight ts') = mset evs"
proof -
  have w: "ex_wal sample_exporter = Some full_wal" by (simp add: sample_exporter_def fresh_exporter_def)
  have d: "faults_in no_space full_wal" "trunc_ok full_wal" "w_states full_wal \<noteq> None" "accepted full_wal = []"
    by (simp_all add: faults_in_def no_space_def trunc_ok_def accepted_def sample_wal_defs Let_def)
  from interleaved_handlers_log_every_event [OF w d(1-3), of _ 2] show ?thesis
    unfolding d(4) numeral_2_eq_2 replicate.simps by fastforce
qed

text \<open>
  The order in which goroutines reach the log does not matter for the numbering: whatever the order of the
  events in the log, replaying them sets the counter to their number, so no number is given out twice.
\<close>

lemma replay_any_order:
  assumes "numbered_from 0 evs" and "mset out = mset evs" and "length evs < 2 ^ 64" and "eng_seq r \<le> of_nat (length evs)"
  shows "eng_seq (Replay_all r out) = of_nat (length evs)"
proof (rule antisym)
  have set: "set out = set evs" using assms(2) by (rule mset_eq_setD)
  show "eng_seq (Replay_all r out) \<le> of_nat (length evs)"
    using assms numbered_from_le [OF assms(1)] set by (intro Replay_all_seq) simp_all
  show "of_nat (length evs) \<le> eng_seq (Replay_all r out)"
    using numbered_last [OF assms(1)] Replay_all_seq(3) [of "last evs" out r] set by (cases "evs = []") simp_all
qed

text \<open>A goroutine that is not interrupted runs its handler to the end: for an idle goroutine, beginning a
  handler and executing its instructions gives the state that the handler, taken as one function, returns,
  whichever of its branches and errors it takes, and leaves the goroutine idle.\<close>

lemma uninterrupted_handler_is_atomic:
  assumes "exporter_step x ex = Some ex'" and "i < length ts" and "ts ! i = []"
  shows "\<exists>n. sched_run (Call i x # replicate n (Exec i)) (ex, ts) = Some (ex', ts)"
proof -
  have "runs (handler x) ex ex'" using assms(1) by (simp add: runs_handler)
  from runs_schedule [OF this, of i "ts[i := handler x]"] obtain n
    where "sched_run (replicate n (Exec i)) (ex, ts[i := handler x]) = Some (ex', ts[i := []])"
    using assms(2) by auto
  moreover have "ts[i := []] = ts" using assms(3) by (metis list_update_id)
  ultimately show ?thesis using assms(2,3) by auto
qed

section \<open>A race between a probe and the monitor\<close>

lemma sched_run_append:
  "sched_run (xs @ ys) c = (case sched_run xs c of None \<Rightarrow> None | Some c1 \<Rightarrow> sched_run ys c1)"
  by (induction xs arbitrary: c) (simp_all split: option.split)

text \<open>The five calls that persist an event and put it into the queue of a single receiver.\<close>

lemma persist_calls:
  assumes "logging ex" and "ex_targets ex = [w]" and "i < length ts" and "ts ! i = IAppend ev True now # rest"
  shows "\<exists>ex'. sched_run (replicate 5 (Exec i)) (ex, ts) = Some (ex', ts[i := IEnqueue ev 1 # rest]) \<and>
     appends [ev] ex ex' \<and> ex_targets ex' = [snd (EnqueueEvent ev w)]"
proof -
  obtain l where l: "ex_wal ex = Some l" "durable l" using assms(1) by (auto simp: logging_def)
  from Append_durable [OF l(2), of ev now] obtain l' where
    a: "Append ev now l = (None, l')" by blast
  let ?ex' = "publishWAL (ex\<lparr>ex_wal := Some l'\<rparr>)"
  have "appendEvent ev now ex = (None, ?ex')" using l a by (simp add: appendEvent_def)
  then have ap: "appends [ev] ex ?ex'" using appendEvent_logs [OF assms(1), of ev now] by simp
  have "same_core ?ex' (?ex'\<lparr>ex_targets := [snd (EnqueueEvent ev w)]\<rparr>)" by simp
  from appends_core [OF ap this] have "appends [ev] ex (?ex'\<lparr>ex_targets := [snd (EnqueueEvent ev w)]\<rparr>)" .
  moreover have "sched_run (replicate 5 (Exec i)) (ex, ts) =
      Some (?ex'\<lparr>ex_targets := [snd (EnqueueEvent ev w)]\<rparr>, ts[i := IEnqueue ev 1 # rest])"
    using assms(2-4) l a
    by (simp add: numeral_eq_Suc after_write_def continue_def publishWAL_def)
  ultimately show ?thesis by fastforce
qed

definition race_engine :: engine where
  "race_engine = fst (run_ops engine_step Engine_New
     [OpDelay [''scscf.service''], OpApply (sample_snapshot ''inactive'' 1000 2000), OpApply (sample_snapshot ''active'' 3000 2000)])"

definition race_exporter :: exporter where
  "race_exporter = (fresh_exporter sample_decoded ([], [], []) (Some sample_wal) ''h'' ''i'')
     \<lparr>ex_engine := race_engine, ex_targets := [small_worker [HttpStatus 200, HttpStatus 200]]\<rparr>"

definition race_up :: event where
  "race_up = \<lparr>ev_Sequence = 1, ev_Service = ''scscf.service'', ev_State = StateUp, ev_EventTimeUnixMS = 5,
     ev_EventTimeMonotonicUS = 0, ev_BootID = ''boot-1'', ev_Source = SourceSIP,
     ev_SystemdActiveState = ''active'', ev_SystemdSubState = ''active''\<rparr>"

definition race_down :: event where
  "race_down = \<lparr>ev_Sequence = 2, ev_Service = ''scscf.service'', ev_State = StateDown, ev_EventTimeUnixMS = 9,
     ev_EventTimeMonotonicUS = 9000, ev_BootID = ''boot-1'', ev_Source = SourceSystemd,
     ev_SystemdActiveState = ''inactive'', ev_SystemdSubState = ''inactive''\<rparr>"

definition race_schedule :: "sched list" where
  "race_schedule =
     [Call 1 (XReady ''scscf.service'' 5000000 SourceSIP 6), Exec 1,
      Call 0 (XSnapshot (sample_snapshot ''inactive'' 3000 9000) 7), Exec 0] @
     replicate 5 (Exec 0) @ [Turn 0 sample_wenv sample_transport CaseQueue] @
     replicate 5 (Exec 1) @ [Turn 0 sample_wenv sample_transport CaseQueue]"

lemma race_exporter_facts:
  "ex_wal race_exporter = Some sample_wal" "ex_engine race_exporter = race_engine"
  "ex_targets race_exporter = [small_worker [HttpStatus 200, HttpStatus 200]]"
  "logging (race_exporter\<lparr>ex_engine := e\<rparr>)" "accepted sample_wal = []"
  by (simp_all add: race_exporter_def fresh_exporter_def logging_def durable_def faults_in_def trunc_ok_def accepted_def
      sample_wal_defs Let_def)

lemma race_engine_calls:
  "\<exists>e1 e2. ConfirmReady race_engine ''scscf.service'' 5000000 SourceSIP = (e1, Some race_up) \<and>
     Apply e1 (sample_snapshot ''inactive'' 3000 9000) = (e2, [race_down])"
  by (simp add: race_engine_def race_up_def race_down_def engine_eval)

lemma race_worker_turns:
  "\<exists>w1 w2. run_turn sample_wenv (rw_ops sample_transport) CaseQueue
       (snd (EnqueueEvent race_down (small_worker [HttpStatus 200, HttpStatus 200]))) = Some (True, w1) \<and>
     run_turn sample_wenv (rw_ops sample_transport) CaseQueue (snd (EnqueueEvent race_up w1)) = Some (True, w2) \<and>
     held w2 = {} \<and> wk_dropped w2 = 0 \<and> \<not> rw_handed (wk_sender w2) race_up"
  by (simp add: worker_run_simps sender_run_simps EnqueueEvent_def enqueue_def queue_capacity_def race_up_def race_down_def
      held_def rw_handed_def delivered_def acked_def build_request_carries_iff IsPermanent_def event_sample_def)

text \<open>An event can be overtaken and is then not sent. The probe of a unit answers and its goroutine takes the
  UP event, number 1, from the engine; before it reaches the log, the monitor sees the unit stop, logs and
  enqueues the DOWN event, number 2, and the worker sends it. The log then holds the two events in the
  wrong order, and the worker drops the UP event, whose number is below the last one sent, without a
  request and without counting it: it is no longer held, and no accepted request carries it.\<close>

lemma overtaken_event_is_not_sent:
  "\<exists>ex' ts' w wk. sched_run race_schedule (race_exporter, [[], []]) = Some (ex', ts') \<and>
     ex_wal ex' = Some w \<and> accepted w = log_of [race_down, race_up] \<and> ev_Sequence race_up < ev_Sequence race_down \<and>
     ex_targets ex' = [wk] \<and> held wk = {} \<and> wk_dropped wk = 0 \<and> \<not> rw_handed (wk_sender wk) race_up"
proof -
  let ?turn = "Turn 0 sample_wenv sample_transport CaseQueue" and ?s = "sample_snapshot ''inactive'' 3000 9000"
  obtain e1 e2 where e: "ConfirmReady race_engine ''scscf.service'' 5000000 SourceSIP = (e1, Some race_up)"
      "Apply e1 ?s = (e2, [race_down])" using race_engine_calls by blast
  obtain w1 w2 where w: "run_turn sample_wenv (rw_ops sample_transport) CaseQueue
       (snd (EnqueueEvent race_down (small_worker [HttpStatus 200, HttpStatus 200]))) = Some (True, w1)"
      "run_turn sample_wenv (rw_ops sample_transport) CaseQueue (snd (EnqueueEvent race_up w1)) = Some (True, w2)"
      "held w2 = {}" "wk_dropped w2 = 0" "\<not> rw_handed (wk_sender w2) race_up" using race_worker_turns by blast
  let ?r0 = "[IRegEvent race_down, ISnapState ?s 7]"
  let ?r1 = "[IRegEvent race_up, ISaveService ''scscf.service'' False 6, ISetState ''scscf.service'' StateUp]"
  let ?ex1 = "race_exporter\<lparr>ex_engine := e2\<rparr>"
  let ?ts1 = "[IAppend race_down True 7 # ?r0, IAppend race_up True 6 # ?r1]"
  note l = race_exporter_facts
  have s1: "sched_run [Call 1 (XReady ''scscf.service'' 5000000 SourceSIP 6), Exec 1, Call 0 (XSnapshot ?s 7), Exec 0]
      (race_exporter, [[], []]) = Some (?ex1, ?ts1)"
    using e l(2) by (simp add: live_instrs_def continue_def)
  obtain ex2 where s2: "sched_run (replicate 5 (Exec 0)) (?ex1, ?ts1) = Some (ex2, ?ts1[0 := IEnqueue race_down 1 # ?r0])"
      "appends [race_down] ?ex1 ex2" "ex_targets ex2 = [snd (EnqueueEvent race_down (small_worker [HttpStatus 200, HttpStatus 200]))]"
    using persist_calls [OF l(4) [of e2], of _ 0 ?ts1 race_down 7 ?r0] l(3) by auto
  let ?ex3 = "ex2\<lparr>ex_targets := [w1]\<rparr>" and ?ts2 = "?ts1[0 := IEnqueue race_down 1 # ?r0]"
  have s3: "sched_run [?turn] (ex2, ?ts2) = Some (?ex3, ?ts2)" using s2(3) w(1) by simp
  have a3: "appends [race_down] ?ex1 ?ex3" by (rule appends_core [OF s2(2)]) simp
  obtain ex4 where s4: "sched_run (replicate 5 (Exec 1)) (?ex3, ?ts2) = Some (ex4, ?ts2[1 := IEnqueue race_up 1 # ?r1])"
      "appends [race_up] ?ex3 ex4" "ex_targets ex4 = [snd (EnqueueEvent race_up w1)]"
    using persist_calls [OF appends_logging [OF a3], of w1 1 ?ts2 race_up 6 ?r1] by auto
  have s5: "sched_run [?turn] (ex4, ?ts2[1 := IEnqueue race_up 1 # ?r1]) = Some (ex4\<lparr>ex_targets := [w2]\<rparr>, ?ts2[1 := IEnqueue race_up 1 # ?r1])"
    using s4(3) w(2) by simp
  have run: "sched_run race_schedule (race_exporter, [[], []]) = Some (ex4\<lparr>ex_targets := [w2]\<rparr>, ?ts2[1 := IEnqueue race_up 1 # ?r1])"
    unfolding race_schedule_def sched_run_append s1 option.case s2(1) s3 s4(1) s5 ..
  obtain lw where "ex_wal ex4 = Some lw" "accepted lw = log_of [race_down, race_up]"
    using appends_trans [OF a3 s4(2)] l(1,5) by (auto simp: appends_def)
  moreover have "ev_Sequence race_up < ev_Sequence race_down" by (simp add: race_up_def race_down_def)
  ultimately show ?thesis using run w(3-5) by simp
qed

end
