(* ===== verification/Exposition.thy ===== *)
theory Exposition
  imports Metrics
begin

text \<open>
  What a scraper reads from the page of \<open>metrics.Handler\<close>: a reader of the text format that takes one sample per
  line, and the proof that it gets back every series with its value, each series once.
\<close>

section \<open>A reader of the text format\<close>

primrec page_lines :: "string \<Rightarrow> string \<Rightarrow> string list" where
  "page_lines acc [] = (if acc = [] then [] else [acc])"
| "page_lines acc (c # s) = (if c = nl then acc # page_lines [] s else page_lines (acc @ [c]) s)"

definition blank :: char where "blank = CHR '' ''"

text \<open>The series is what precedes the last blank; a line that begins with \<open>#\<close> is a comment.\<close>

definition read_sample :: "string \<Rightarrow> (string \<times> string) option" where
  "read_sample l =
     (if l = [] \<or> hd l = CHR ''#'' then None
      else Some (rev (tl (dropWhile (\<lambda>c. c \<noteq> blank) (rev l))), rev (takeWhile (\<lambda>c. c \<noteq> blank) (rev l))))"

definition read_page :: "string \<Rightarrow> (string \<times> string) list" where
  "read_page s = List.map_filter read_sample (page_lines [] s)"

text \<open>The series of a family.\<close>

definition family_series :: "family \<Rightarrow> (string \<times> string) list" where
  "family_series f = (case f of (name, help, typ, samples) \<Rightarrow> map (\<lambda>(l, v). (name @ l, v)) samples)"

section \<open>Reading a family back\<close>

definition value_ok :: "string \<Rightarrow> bool" where
  "value_ok v \<longleftrightarrow> nl \<notin> set v \<and> blank \<notin> set v"

definition label_ok :: "string \<Rightarrow> bool" where
  "label_ok l \<longleftrightarrow> nl \<notin> set l \<and> (l = [] \<or> hd l = CHR ''{'')"

definition name_ok :: "string \<Rightarrow> bool" where
  "name_ok n \<longleftrightarrow> n \<noteq> [] \<and> hd n \<noteq> CHR ''#'' \<and> nl \<notin> set n \<and> CHR ''{'' \<notin> set n"

definition family_ok :: "family \<Rightarrow> bool" where
  "family_ok f \<longleftrightarrow> (case f of (name, help, typ, samples) \<Rightarrow> name_ok name \<and> nl \<notin> set help \<and> nl \<notin> set typ \<and>
     list_all (\<lambda>(l, v). label_ok l \<and> value_ok v) samples \<and> distinct (map fst samples))"

lemma page_lines_line: "nl \<notin> set l \<Longrightarrow> page_lines acc (l @ nl # s) = (acc @ l) # page_lines [] s"
  by (induction l arbitrary: acc) auto

lemma read_page_line: "nl \<notin> set l \<Longrightarrow> read_page (l @ nl # s) = (case read_sample l of None \<Rightarrow> [] | Some x \<Rightarrow> [x]) @ read_page s"
  by (simp add: read_page_def page_lines_line map_filter_simps split: option.split)

lemma read_sample:
  assumes "name_ok n" and "value_ok v"
  shows "read_sample (n @ l @ blank # v) = Some (n @ l, v)"
proof -
  have "takeWhile (\<lambda>c. c \<noteq> blank) (rev v @ blank # rev (n @ l)) = rev v"
    "dropWhile (\<lambda>c. c \<noteq> blank) (rev v @ blank # rev (n @ l)) = blank # rev (n @ l)"
    using assms(2) by (auto simp: value_ok_def takeWhile_tail dropWhile_append)
  then show ?thesis using assms(1) by (simp add: read_sample_def name_ok_def)
qed

lemma read_samples:
  assumes "name_ok n" and "list_all (\<lambda>(l, v). label_ok l \<and> value_ok v) samples"
  shows "read_page (concat (map (metric_line n) samples) @ s) = map (\<lambda>(l, v). (n @ l, v)) samples @ read_page s"
  using assms(2)
proof (induction samples)
  case (Cons x samples)
  obtain l v where x: "x = (l, v)" by (cases x)
  have ok: "label_ok l" "value_ok v" using Cons.prems by (simp_all add: x)
  then have "nl \<notin> set (n @ l @ blank # v)" using assms(1) by (auto simp: label_ok_def value_ok_def name_ok_def blank_def nl_def)
  from read_page_line [OF this] read_sample [OF assms(1) ok(2)] show ?case
    using Cons by (simp add: x metric_line_def blank_def)
qed simp

lemma read_family: "family_ok f \<Longrightarrow> read_page (render_family f @ s) = family_series f @ read_page s"
proof -
  assume ok: "family_ok f"
  obtain n h t ss where f: "f = (n, h, t, ss)" by (cases f)
  have n: "name_ok n" and h: "nl \<notin> set h" "nl \<notin> set t" using ok by (simp_all add: family_ok_def f)
  have c: "nl \<notin> set (''# HELP '' @ n @ '' '' @ h)" "nl \<notin> set (''# TYPE '' @ n @ '' '' @ t)"
    using n h by (auto simp: name_ok_def nl_def)
  have "read_page (render_family f @ s) = read_page ((''# HELP '' @ n @ '' '' @ h) @ nl # ((''# TYPE '' @ n @ '' '' @ t) @ nl #
      (concat (map (metric_line n) ss) @ s)))" by (simp add: render_family_def f)
  also have "\<dots> = read_page (concat (map (metric_line n) ss) @ s)"
    unfolding read_page_line [OF c(1)] read_page_line [OF c(2)] by (simp add: read_sample_def)
  also have "\<dots> = family_series f @ read_page s"
    using read_samples [OF n] ok by (simp add: family_ok_def family_series_def f)
  finally show ?thesis .
qed

lemma read_families: "list_all family_ok fs \<Longrightarrow> read_page (concat (map render_family fs)) = concat (map family_series fs)"
  by (induction fs) (simp_all add: read_family, simp add: read_page_def map_filter_simps)

text \<open>Families with different names have different series.\<close>

lemma series_name:
  assumes "family_ok f" and "k \<in> fst ` set (family_series f)"
  shows "takeWhile (\<lambda>c. c \<noteq> CHR ''{'') k = fst f"
proof -
  obtain n h t ss where f: "f = (n, h, t, ss)" by (cases f)
  obtain l v where k: "k = n @ l" "(l, v) \<in> set ss" using assms(2) by (auto simp: family_series_def f)
  have "CHR ''{'' \<notin> set n" "l = [] \<or> hd l = CHR ''{''"
    using assms(1) k(2) by (auto simp: family_ok_def f name_ok_def label_ok_def list_all_iff)
  then show ?thesis by (cases l) (auto simp: k(1) f takeWhile_tail)
qed

lemma series_distinct:
  "list_all family_ok fs \<Longrightarrow> distinct (map fst fs) \<Longrightarrow> distinct (map fst (concat (map family_series fs)))"
proof (induction fs)
  case (Cons f fs)
  obtain n h t ss where f: "f = (n, h, t, ss)" by (cases f)
  have "inj_on (\<lambda>l. n @ l) A" for A by (simp add: inj_on_def)
  moreover have "map fst (family_series f) = map (\<lambda>l. n @ l) (map fst ss)" by (simp add: family_series_def f case_prod_beta)
  moreover have "distinct (map fst ss)" using Cons.prems(1) by (simp add: family_ok_def f)
  ultimately have d: "distinct (map fst (family_series f))" by (metis distinct_map)
  have new: "fst f \<notin> fst ` set fs" using Cons.prems(2) by simp
  have "k \<notin> fst ` set (concat (map family_series fs))" if k: "k \<in> fst ` set (family_series f)" for k
  proof
    assume "k \<in> fst ` set (concat (map family_series fs))"
    then obtain g where g: "g \<in> set fs" "k \<in> fst ` set (family_series g)"
      unfolding set_concat set_map image_UN by blast
    then have "family_ok g" using Cons.prems(1) by (simp add: list_all_iff)
    with g series_name [of g k] series_name [OF _ k] Cons.prems(1) have "fst f = fst g" by simp
    with new g(1) show False by (metis imageI)
  qed
  then have "set (map fst (family_series f)) \<inter> set (map fst (concat (map family_series fs))) = {}" by auto
  with d Cons show ?case by simp
qed simp

section \<open>The families of the exporter\<close>

lemma digit_value: "is_digit c \<Longrightarrow> c \<noteq> nl \<and> c \<noteq> blank"
  by (auto simp: is_digit_def nl_def blank_def)

lemma show_nat_value: "c \<in> set (show_nat n) \<Longrightarrow> c \<noteq> nl \<and> c \<noteq> blank"
  using show_nat_digits [of n] digit_value by (simp add: list_all_iff)

lemma strip_zeros_set: "set (strip_zeros s) \<subseteq> set s"
  by (auto simp: strip_zeros_def dest: set_dropWhileD)

lemma format_g_value: "value_ok (format_g x)"
proof (cases x)
  case (Fin m e)
  obtain n d where nd: "scale2 (nat \<bar>m\<bar>) 1 (- e) = (n, d)" by (cases "scale2 (nat \<bar>m\<bar>) 1 (- e)")
  obtain c q where cq: "shortest n d = (c, q)" by (cases "shortest n d")
  let ?ds = "strip_zeros (show_nat c)" and ?p = "int (length (show_nat c)) + q"
  have ds: "a \<in> set ?ds \<Longrightarrow> a \<noteq> nl \<and> a \<noteq> blank" for a using strip_zeros_set [of "show_nat c"] show_nat_value by blast
  have E: "value_ok (fmtE ?ds ?p)"
    using ds show_nat_value in_set_takeD [of _ 1 ?ds] in_set_dropD [of _ 1 ?ds]
    by (fastforce simp: value_ok_def fmtE_def Let_def nl_def blank_def)
  have F: "value_ok (fmtF ?ds ?p)"
    using ds in_set_takeD [of _ "nat ?p" ?ds] in_set_dropD [of _ "nat ?p" ?ds]
    by (auto simp: value_ok_def fmtF_def Let_def nl_def blank_def)
  have sign: "value_ok (a @ b)" if "a = ''-'' \<or> a = []" "value_ok b" for a b using that by (auto simp: value_ok_def nl_def blank_def)
  have "format_g x = (if m = 0 then ''0'' else (if m < 0 then ''-'' else []) @
      (if ?p - 1 < - 4 \<or> ?p - 1 \<ge> 6 then fmtE ?ds ?p else fmtF ?ds ?p))"
    unfolding format_g_def Fin float64.case nd prod.case cq Let_def ..
  then show ?thesis using E F sign by (simp add: value_ok_def nl_def blank_def)
qed (simp_all add: format_g_def value_ok_def nl_def blank_def)

lemma values_ok [simp]:
  "value_ok (show_nat n)" "value_ok (show_word w)" "value_ok (show_flag b)" "value_ok (show_ms ms)" "value_ok ''1''"
  using show_nat_value by (auto simp: value_ok_def show_word_def show_flag_def show_ms_def nl_def blank_def
      format_g_value [unfolded value_ok_def nl_def blank_def])

lemma promLabel_no_nl: "nl \<notin> set (promLabel v)"
  using escape_byte_distinct by (auto simp: promLabel_escape escape_char_def)

lemma quote_char_no_nl: "nl \<notin> set (quote_char c)"
proof -
  have d: "digit_char (of_char c div 16) \<noteq> nl" if "(of_char c :: nat) < 128"
    using digit_value [OF digit_char_facts(1), of "of_char c div 16"] that by simp
  have h: "''0123456789abcdef'' ! (of_char c mod 16) \<noteq> nl"
  proof -
    have "''0123456789abcdef'' ! (of_char c mod 16) \<in> set ''0123456789abcdef''" by (rule nth_mem) simp
    then show ?thesis by (auto simp: nl_def)
  qed
  have "backslash \<noteq> nl" "dquote \<noteq> nl" by (simp_all add: backslash_def dquote_def nl_def)
  moreover have "digit_char 7 \<noteq> nl" using digit_value [OF digit_char_facts(1), of 7] by simp
  ultimately show ?thesis using d h by (auto simp: quote_char_def nl_def)
qed

lemma target_label_ok: "label_ok (target_label t)"
  using quote_char_no_nl by (auto simp: label_ok_def target_label_def goQuote_def nl_def dquote_def)

text \<open>Different identifiers are quoted differently.\<close>

definition hex_digit :: "char \<Rightarrow> nat" where
  "hex_digit c = (if is_digit c then digit_val c else of_char c - 87)"

definition unquote_char :: "string \<Rightarrow> char \<times> string" where
  "unquote_char s =
     (if hd s \<noteq> backslash then (hd s, tl s)
      else if s ! 1 = CHR ''x'' then (char_of (16 * hex_digit (s ! 2) + hex_digit (s ! 3)), drop 4 s)
      else (the (map_of [(dquote, dquote), (backslash, backslash), (CHR ''a'', CHR 0x07), (CHR ''b'', CHR 0x08), (CHR ''f'', CHR 0x0C),
              (CHR ''n'', nl), (CHR ''r'', CHR 0x0D), (CHR ''t'', CHR 0x09), (CHR ''v'', CHR 0x0B)] (s ! 1)), drop 2 s))"

lemma hex_digit_nth: "n < 16 \<Longrightarrow> hex_digit (''0123456789abcdef'' ! n) = n"
proof -
  have "\<forall>n \<in> set [0..<16]. hex_digit (''0123456789abcdef'' ! n) = n"
    by (simp add: upt_rec hex_digit_def is_digit_def digit_val_def)
  moreover assume "n < 16"
  ultimately show ?thesis by simp
qed

lemma unquote_quote_char: "unquote_char (quote_char c @ x) = (c, x)"
proof -
  have "hex_digit (digit_char (of_char c div 16)) = of_char c div 16" if "(of_char c :: nat) < 128"
    using that digit_char_facts [of "of_char c div 16"] by (simp add: hex_digit_def)
  moreover have "char_of (16 * (of_char c div 16) + of_char c mod 16 :: nat) = c" by simp
  ultimately show ?thesis
    by (auto simp: quote_char_def unquote_char_def backslash_def dquote_def nl_def hex_digit_nth char_of_def)
qed

lemma quote_inj: "concat (map quote_char s) = concat (map quote_char t) \<Longrightarrow> s = t"
proof (induction s arbitrary: t)
  case Nil
  have "quote_char c \<noteq> []" for c by (simp add: quote_char_def)
  then show ?case using Nil by (cases t) auto
next
  case (Cons c s)
  have ne: "quote_char c \<noteq> []" by (simp add: quote_char_def)
  then obtain d t' where t: "t = d # t'" using Cons.prems by (cases t) auto
  have "quote_char c @ concat (map quote_char s) = quote_char d @ concat (map quote_char t')" using Cons.prems by (simp add: t)
  from arg_cong [OF this, of unquote_char] show ?case using Cons.IH by (simp add: unquote_quote_char t)
qed

lemma target_labels_distinct: "distinct ts \<Longrightarrow> distinct (map target_label (sort ts))"
proof -
  have "inj_on target_label (set (sort ts))"
    by (rule inj_onI) (auto simp: target_label_def goQuote_def dest: quote_inj)
  moreover assume "distinct ts"
  ultimately show ?thesis by (simp add: distinct_map)
qed

lemma families_ok:
  assumes "distinct (map fst (mr_remoteWrite r))"
  shows "list_all family_ok (families now r)"
proof -
  have "nl \<notin> set (''{hostname='' @ promLabel a @ '',instance='' @ promLabel b @ '',listen='' @ promLabel c @ ''}'')" for a b c
    using promLabel_no_nl by (auto simp: nl_def)
  then have "family_ok (identity_family r)"
    by (simp add: identity_family_def family_ok_def name_ok_def label_ok_def) (simp add: nl_def)
  moreover have "list_all family_ok (wal_families r)"
    by (simp add: wal_families_def family_ok_def name_ok_def label_ok_def) (simp add: nl_def)
  moreover have "list_all family_ok (dbus_families now r)"
    by (simp add: dbus_families_def family_ok_def name_ok_def label_ok_def format_g_value) (simp add: nl_def)
  moreover have "list_all family_ok (recovery_families r)"
    by (simp add: recovery_families_def family_ok_def name_ok_def label_ok_def format_g_value) (simp add: nl_def)
  moreover have "list_all (\<lambda>(l, v). label_ok l \<and> value_ok v) (map (\<lambda>t. (target_label t, show_word (g t))) ts)"
    "map fst (map (\<lambda>t. (target_label t, show_word (g t))) ts) = map target_label ts" for g ts
    using target_label_ok by (simp_all add: list_all_iff)
  then have "list_all family_ok (remote_write_families r)"
    using target_labels_distinct [OF assms]
    by (simp add: remote_write_families_def family_ok_def name_ok_def target_samples_def comp_def) (simp add: nl_def)
  ultimately show ?thesis by (simp add: families_def)
qed

lemma family_names: "distinct (map fst (families now r))"
  by (simp add: families_def identity_family_def wal_families_def dbus_families_def remote_write_families_def recovery_families_def)

text \<open>The receivers of a registry are distinct, since each operation keeps them so.\<close>

lemma receivers_distinct:
  "distinct (map fst (mr_remoteWrite Metrics_New))"
  "distinct (map fst (mr_remoteWrite r)) \<Longrightarrow> distinct (map fst (mr_remoteWrite (SetRemoteWriteStats t st r)))"
  by (simp_all add: Metrics_New_def SetRemoteWriteStats_def distinct_update)

text \<open>The state, the counters and the times of services are sent by remote write only; the page does not depend on them.\<close>

lemma Handler_ignores_services:
  "Handler now (r\<lparr>mr_states := a, mr_up := b, mr_down := c, mr_last := d\<rparr>) = Handler now r"
  by (simp add: Handler_def families_def identity_family_def wal_families_def dbus_families_def disconnected_seconds_def
      remote_write_families_def recovery_families_def target_samples_def)

section \<open>Properties\<close>

text \<open>C38. The page can be read back. Whatever bytes the host name and the instance label hold, line breaks
  and quotes included, and whatever the floats are, a reader that takes one sample per line gets from the
  page exactly the series of the families, in order and with their values; no two samples have the same
  series, so a scrape is never rejected for a duplicate.\<close>

theorem page_reads_back:
  assumes "distinct (map fst (mr_remoteWrite r))"
  shows "read_page (Handler now r) = concat (map family_series (families now r)) \<and>
     distinct (map fst (read_page (Handler now r)))"
  using read_families [OF families_ok [OF assms]] series_distinct [OF families_ok [OF assms] family_names]
  by (simp add: Handler_def)

definition sample_registry :: registry where
  "sample_registry =
     SetRemoteWriteStats ''0a1b'' \<lparr>SuccessfulRequests = 7, FailedRequests = 1, Retries = 2, SentSamples = 900\<rparr>
       (SetRemoteWriteStats ''ff02'' \<lparr>SuccessfulRequests = 5, FailedRequests = 0, Retries = 0, SentSamples = 40\<rparr>
         (SetIdentity (''a'' @ [nl] @ ''b'') ''i'' '':9'' Metrics_New))"

theorem page_reads_back_witness:
  "(''systemd_transition_exporter_remote_write_retries_total'' @ target_label ''0a1b'', ''2'') \<in> set (read_page (Handler 0 sample_registry)) \<and>
   distinct (map fst (read_page (Handler 0 sample_registry)))"
proof -
  have d: "distinct (map fst (mr_remoteWrite sample_registry))"
    unfolding sample_registry_def by (intro receivers_distinct) (simp add: SetIdentity_def Metrics_New_def)
  have v: "show_word 2 = ''2''"
    by (simp add: show_word_def show_nat.simps digit_char_def char_of_def bit_0)
  have "(target_label ''0a1b'', ''2'') \<in> set (target_samples Retries sample_registry)"
    by (simp add: target_samples_def sample_registry_def SetRemoteWriteStats_def SetIdentity_def Metrics_New_def v)
  then have "(''systemd_transition_exporter_remote_write_retries_total'' @ target_label ''0a1b'', ''2'') \<in>
      set (concat (map family_series (families 0 sample_registry)))"
    by (simp add: families_def remote_write_families_def family_series_def image_iff) force
  with page_reads_back [OF d, of 0] show ?thesis by metis
qed

end
