(* ===== verification/Monitoring.thy ===== *)
theory Monitoring
  imports Restart
begin

text \<open>
  The exporter while it runs: \<open>RunResilient\<close> with the handlers that \<open>main\<close> passes to it, and the routes of the
  HTTP server.

  A relation between two sets of handlers carries over to the whole loop (locale \<open>handler_map\<close>). It is used
  with the trace of the calls on one side and the exporter on the other: the exporter after the loop is the
  one that its handlers make of the trace, so what is known of traces and what is known of the handlers
  hold together.
\<close>

section \<open>The handlers of main\<close>

text \<open>
  The state is the exporter, \<open>None\<close> after a panic has ended the process, and the number of calls so far;
  \<open>inputs n\<close> is what the journal, the time zone and the clock give the call with this number. \<open>msg\<close> is the
  text of an error. The error callback only writes a log line.
\<close>

type_synonym running = "exporter option \<times> nat"

definition handled :: "(exporter_error \<Rightarrow> string) \<Rightarrow> (exporter_error option \<times> exporter) option \<Rightarrow> nat \<Rightarrow> string option \<times> running" where
  "handled msg r n =
     (case r of None \<Rightarrow> (Some ''panic'', (None, n)) | Some (err, ex) \<Rightarrow> (map_option msg err, (Some ex, n)))"

definition main_handlers :: "(exporter_error \<Rightarrow> string) \<Rightarrow> (nat \<Rightarrow> recovery_env) \<Rightarrow> running handlers" where
  "main_handlers msg inputs =
     \<lparr>h_onSnapshot = (\<lambda>s (x, n). handled msg (Option.bind x (onSnapshot s (rv_now (inputs n)))) (Suc n)),
      h_onConnectionState = (\<lambda>b t (x, n). (map_option (onConnectionState b t) x, Suc n)),
      h_onConnectionError = (\<lambda>err (x, n). (x, Suc n)),
      h_onRecovery = (\<lambda>from to (x, n). handled msg (Option.bind x (onRecovery (inputs n) from to)) (Suc n))\<rparr>"

text \<open>The goroutine that \<open>main\<close> starts: the loop on the units of the configuration.\<close>

definition monitor_exporter ::
  "(exporter_error \<Rightarrow> string) \<Rightarrow> (nat \<Rightarrow> recovery_env) \<Rightarrow> round_env list \<Rightarrow> exporter \<Rightarrow> resilient_outcome \<times> resilient \<times> running" where
  "monitor_exporter msg inputs envs ex =
     RunResilient (main_handlers msg inputs) (Units (ex_cfg ex)) envs resilient_start (Some ex, 0)"

section \<open>The routes\<close>

text \<open>
  The patterns the server has and what their handlers answer, given the method of the request: the status
  and the body. Which pattern a request goes to, and the answer when there is none, is the server's.
\<close>

record reply =
  rp_status :: nat
  rp_body :: string

definition http_error :: "string \<Rightarrow> nat \<Rightarrow> reply" where
  "http_error text code = \<lparr>rp_status = code, rp_body = text @ [nl]\<rparr>"

definition serve_ok :: reply where
  "serve_ok = \<lparr>rp_status = 200, rp_body = []\<rparr>"

definition serve_disconnect :: "resilient \<Rightarrow> string \<Rightarrow> reply" where
  "serve_disconnect r meth =
     (if meth \<noteq> ''POST'' then http_error ''method not allowed'' 405
      else if \<not> DebugDisconnect r then http_error ''D-Bus connection is not active'' 503
      else \<lparr>rp_status = 204, rp_body = []\<rparr>)"

definition routes :: "go_time \<Rightarrow> resilient \<Rightarrow> exporter \<Rightarrow> (string \<times> (string \<Rightarrow> reply)) list" where
  "routes now r ex =
     [(''/metrics'', \<lambda>_. \<lparr>rp_status = 200, rp_body = Handler now (ex_reg ex)\<rparr>),
      (''/health'', \<lambda>_. serve_ok),
      (''/ready'', \<lambda>_. serve_ok)] @
     (if sc_Debug (cf_Server (ex_cfg ex)) then [(''/debug/dbus/disconnect'', serve_disconnect r)] else [])"

section \<open>Maps between handlers\<close>

text \<open>One set of handlers follows another through a map of the states.\<close>

locale handler_map =
  fixes h :: "'e handlers" and h' :: "'f handlers" and p :: "'e \<Rightarrow> 'f"
  assumes snapshot: "h_onSnapshot h' s (p e) = apsnd p (h_onSnapshot h s e)"
    and state: "h_onConnectionState h' b t (p e) = p (h_onConnectionState h b t e)"
    and error: "h_onConnectionError h' err (p e) = p (h_onConnectionError h err e)"
    and recovery: "h_onRecovery h' from to (p e) = apsnd p (h_onRecovery h from to e)"
begin

lemma handle_unit_map:
  "handle_unit (h_onSnapshot h') bootID u reply (p e) = apsnd p (handle_unit (h_onSnapshot h) bootID u reply e)"
  by (simp add: handle_unit_def snapshot split: sum.split prod.split)

lemma reconcile_units_map:
  "reconcile_units (h_onSnapshot h') bootID m vs (p e) = apsnd p (reconcile_units (h_onSnapshot h) bootID m vs e)"
  by (induction vs arbitrary: e) (auto simp: handle_unit_map split: option.split prod.split)

lemma on_signal_map:
  "on_signal (h_onSnapshot h') bootID m name path body reply (p e) =
     apsnd p (on_signal (h_onSnapshot h) bootID m name path body reply e)"
  by (auto simp: on_signal_def handle_unit_map split: option.split)

lemma Monitor_Run_map:
  "Monitor_Run (h_onSnapshot h') bootID m evs (p e) = apsnd p (Monitor_Run (h_onSnapshot h) bootID m evs e)"
proof (induction evs arbitrary: e)
  case (Cons ev evs)
  then show ?case
    by (cases ev) (auto simp: reconcile_units_map on_signal_map split: option.split prod.split)
qed simp

lemma initial_snapshots_map:
  "initial_snapshots (h_onSnapshot h') env bootID m services (p e) =
     apsnd p (initial_snapshots (h_onSnapshot h) env bootID m services e)"
  by (induction services arbitrary: e) (auto simp: snapshot split: option.split sum.split prod.split)

lemma recover_gap_map: "recover_gap h' env r (p e) = apsnd p (recover_gap h env r e)"
  by (auto simp: recover_gap_def recovery error split: option.split prod.split)

lemma monitor_connection_map:
  "monitor_connection h' env bootID m r (p e) = apsnd (apsnd p) (monitor_connection h env bootID m r e)"
  by (auto simp: monitor_connection_def Let_def state error Monitor_Run_map split: option.split prod.split)

lemma resilient_round_map:
  "resilient_round h' services env r (p e) = apsnd (apsnd p) (resilient_round h services env r e)"
  by (auto simp: resilient_round_def connected_round_def Let_def error recover_gap_map initial_snapshots_map
      monitor_connection_map split: option.split sum.split prod.split snapshot_result.split)

lemma RunResilient_map:
  "RunResilient h' services envs r (p e) = apsnd (apsnd p) (RunResilient h services envs r e)"
  by (induction envs arbitrary: r e)
    (auto simp: resilient_round_map split: prod.split resilient_outcome.split)

end

section \<open>The exporter follows the trace\<close>

text \<open>What the handlers make of a list of calls, and the calls among them that reach the engine.\<close>

fun follow_action :: "recovery_env \<Rightarrow> action \<Rightarrow> exporter \<Rightarrow> exporter option" where
  "follow_action env (ActSnapshot s) ex = map_option snd (onSnapshot s (rv_now env) ex)"
| "follow_action env (ActState b t) ex = Some (onConnectionState b t ex)"
| "follow_action env (ActError err) ex = Some ex"
| "follow_action env (ActRecovery from to) ex = map_option snd (onRecovery env from to ex)"

fun follow :: "(nat \<Rightarrow> recovery_env) \<Rightarrow> nat \<Rightarrow> action list \<Rightarrow> exporter \<Rightarrow> exporter option" where
  "follow inputs n [] ex = Some ex"
| "follow inputs n (a # as) ex = Option.bind (follow_action (inputs n) a ex) (follow inputs (Suc n) as)"

fun action_calls :: "config \<Rightarrow> recovery_env \<Rightarrow> action \<Rightarrow> engine_op list" where
  "action_calls cfg env (ActSnapshot s) = engine_calls cfg (XSnapshot s (rv_now env))"
| "action_calls cfg env (ActRecovery from to) = engine_calls cfg (XRecovery env from to)"
| "action_calls cfg env (ActState b t) = []"
| "action_calls cfg env (ActError err) = []"

fun trace_calls :: "config \<Rightarrow> (nat \<Rightarrow> recovery_env) \<Rightarrow> nat \<Rightarrow> action list \<Rightarrow> engine_op list" where
  "trace_calls cfg inputs n [] = []"
| "trace_calls cfg inputs n (a # as) = action_calls cfg (inputs n) a @ trace_calls cfg inputs (Suc n) as"

lemma follow_snoc:
  "follow inputs n (as @ [a]) ex = Option.bind (follow inputs n as ex) (follow_action (inputs (n + length as)) a)"
  by (induction as arbitrary: n ex) (auto split: bind_split)

lemma follow_action_logs:
  assumes "logging ex"
  shows "\<exists>ex'. follow_action env a ex = Some ex' \<and> logs (action_calls (ex_cfg ex) env a) ex ex'"
proof (cases a)
  case (ActSnapshot s)
  then show ?thesis using onSnapshot_logs [OF assms, of s "rv_now env"] by auto
next
  case (ActRecovery t1 t2)
  then show ?thesis using onRecovery_logs [OF assms, of env t1 t2] by auto
qed (use logs_none [OF assms] in \<open>simp_all add: onConnectionState_def same_core_def\<close>)

lemma follow_logs:
  "logging ex \<Longrightarrow> \<exists>ex'. follow inputs n as ex = Some ex' \<and> logs (trace_calls (ex_cfg ex) inputs n as) ex ex'"
proof (induction as arbitrary: n ex)
  case Nil
  then show ?case using logs_none [of ex ex] by (simp add: same_core_def)
next
  case (Cons a as)
  obtain ex1 where s: "follow_action (inputs n) a ex = Some ex1" "logs (action_calls (ex_cfg ex) (inputs n) a) ex ex1"
    using follow_action_logs [OF Cons.prems] by blast
  obtain ex2 where r: "follow inputs (Suc n) as ex1 = Some ex2" "logs (trace_calls (ex_cfg ex1) inputs (Suc n) as) ex1 ex2"
    using Cons.IH [OF logs_logging [OF s(2)]] by blast
  have "ex_cfg ex1 = ex_cfg ex" using s(2) by (simp add: logs_def)
  then show ?case using s(1) r logs_trans [OF s(2)] by simp
qed

text \<open>The errors that the handlers return after a trace of calls.\<close>

definition snapshot_error ::
  "(exporter_error \<Rightarrow> string) \<Rightarrow> (nat \<Rightarrow> recovery_env) \<Rightarrow> exporter \<Rightarrow> unit_snapshot \<Rightarrow> action list \<Rightarrow> string option" where
  "snapshot_error msg inputs ex s acts =
     fst (handled msg (Option.bind (follow inputs 0 acts ex) (onSnapshot s (rv_now (inputs (length acts))))) 0)"

definition recovery_error ::
  "(exporter_error \<Rightarrow> string) \<Rightarrow> (nat \<Rightarrow> recovery_env) \<Rightarrow> exporter \<Rightarrow> go_time \<Rightarrow> go_time \<Rightarrow> action list \<Rightarrow> string option" where
  "recovery_error msg inputs ex from to acts =
     fst (handled msg (Option.bind (follow inputs 0 acts ex) (onRecovery (inputs (length acts)) from to)) 0)"

definition exporter_after :: "(nat \<Rightarrow> recovery_env) \<Rightarrow> exporter \<Rightarrow> action list \<Rightarrow> running" where
  "exporter_after inputs ex acts = (follow inputs 0 acts ex, length acts)"

abbreviation main_trace :: "(exporter_error \<Rightarrow> string) \<Rightarrow> (nat \<Rightarrow> recovery_env) \<Rightarrow> exporter \<Rightarrow> action list handlers" where
  "main_trace msg inputs ex \<equiv> tracer (snapshot_error msg inputs ex) (recovery_error msg inputs ex)"

lemma handled_parts:
  "handled msg r n = (fst (handled msg r 0), (map_option snd r, n))"
  by (auto simp: handled_def split: option.split)

interpretation traced: handler_map "main_trace msg inputs ex" "main_handlers msg inputs" "exporter_after inputs ex"
  for msg inputs ex
proof
  fix s acts
  show "h_onSnapshot (main_handlers msg inputs) s (exporter_after inputs ex acts) =
     apsnd (exporter_after inputs ex) (h_onSnapshot (main_trace msg inputs ex) s acts)"
    by (simp add: main_handlers_def exporter_after_def handled_parts [of msg _ "Suc _"] trace_snapshot_def snapshot_error_def
        follow_snoc split: bind_split)
next
  fix t1 t2 acts
  show "h_onRecovery (main_handlers msg inputs) t1 t2 (exporter_after inputs ex acts) =
     apsnd (exporter_after inputs ex) (h_onRecovery (main_trace msg inputs ex) t1 t2 acts)"
    by (simp add: main_handlers_def exporter_after_def handled_parts [of msg _ "Suc _"] recovery_error_def follow_snoc
        split: bind_split)
qed (simp_all add: main_handlers_def exporter_after_def follow_snoc split: bind_split)

text \<open>On a disk that is at worst full, a snapshot never returns an error.\<close>

lemma no_snapshot_error:
  assumes "logging ex"
  shows "snapshot_error msg inputs ex s acts = None"
proof -
  obtain ex1 where f: "follow inputs 0 acts ex = Some ex1" "logging ex1"
    using follow_logs [OF assms] logs_logging by blast
  from onSnapshot_logs [OF f(2), of s "rv_now (inputs (length acts))"] f(1) show ?thesis
    by (auto simp: snapshot_error_def handled_def)
qed

section \<open>When the loop returns\<close>

text \<open>The reasons for which a pass of the loop returns, other than an error of the snapshot handler.\<close>

definition ends_with :: "round_env \<Rightarrow> string \<Rightarrow> bool" where
  "ends_with env c \<longleftrightarrow> re_waitErr env = Some c \<or> re_ctxErr env = Some c \<or> re_ctxAfter env = Some c \<or>
     (\<exists>err. BootID (re_bootRead env) = Inl err \<and> c = ''read boot id: '' @ err)"

lemma initial_snapshots_no_error:
  assumes "\<And>s acts. f s acts = None"
  shows "fst (initial_snapshots (trace_snapshot f) env bootID m services acts) \<noteq> SnapsHandler err"
  by (induction services arbitrary: acts) (auto simp: trace_snapshot_def assms split: option.split sum.split)

lemma monitor_connection_ends:
  "monitor_connection h env bootID m r e = (RrReturn c, r', e') \<Longrightarrow> re_ctxAfter env = Some c"
  by (auto simp: monitor_connection_def Let_def split: option.splits prod.splits)

lemma connected_round_ends:
  assumes "\<And>s acts. f s acts = None" and "connected_round (tracer f g) services env r acts = (RrReturn c, r', acts')"
  shows "ends_with env c"
proof (cases "setup_monitor env services")
  case m: (Inr m)
  show ?thesis
  proof (cases "BootID (re_bootRead env)")
    case (Inl err)
    then have "c = ''read boot id: '' @ err" using assms(2) m by (simp add: connected_round_def Let_def)
    then show ?thesis using Inl by (simp add: ends_with_def)
  next
    case b: (Inr bootID)
    obtain r1 acts1 where g: "recover_gap (tracer f g) env (SetDebugDBus True r) acts = (r1, acts1)"
      by (rule prod.exhaust)
    obtain res acts2 where i: "initial_snapshots (trace_snapshot f) env bootID m services acts1 = (res, acts2)"
      by (rule prod.exhaust)
    have "res \<noteq> SnapsHandler err" for err
      using initial_snapshots_no_error [of f env bootID m services acts1 err] assms(1) i by simp
    then have "monitor_connection (tracer f g) env bootID m r1 acts2 = (RrReturn c, r', acts')"
      using assms(2) m b by (cases res) (simp_all add: connected_round_def Let_def g i)
    from monitor_connection_ends [OF this] show ?thesis by (simp add: ends_with_def)
  qed
qed (use assms(2) in \<open>simp add: connected_round_def Let_def\<close>)

lemma round_ends:
  assumes "\<And>s acts. f s acts = None" and "resilient_round (tracer f g) services env r acts = (RrReturn c, r', acts')"
  shows "ends_with env c"
  using assms(2) connected_round_ends [OF assms(1)]
  by (auto simp: resilient_round_def ends_with_def split: option.splits if_split_asm)

lemma run_ends:
  assumes "\<And>s acts. f s acts = None"
  shows "RunResilient (tracer f g) services envs r acts = (RrReturn c, r', acts') \<Longrightarrow> \<exists>env \<in> set envs. ends_with env c"
  by (induction envs arbitrary: r acts)
    (auto split: prod.splits resilient_outcome.splits dest: round_ends [OF assms])

section \<open>The debug endpoint\<close>

text \<open>
  Outside the monitoring phase no connection is registered, so a request to disconnect is refused; while
  the monitor waits for events it is accepted.
\<close>

lemma round_registers:
  assumes "\<not> rr_debugConn r" and "resilient_round h services env r e = (out, r', e')"
  shows "rr_debugConn r' \<longleftrightarrow> out = RrMonitoring"
proof -
  have m: "rr_debugConn r2 \<longleftrightarrow> o2 = RrMonitoring"
    if "monitor_connection h env bootID m r1 e1 = (o2, r2, e2)" "rr_debugConn r1" for bootID m r1 e1 o2 r2 e2
    using that by (auto simp: monitor_connection_def Let_def SetDebugDBus_def split: option.splits prod.splits)
  have "rr_debugConn r1" if "recover_gap h env (SetDebugDBus True r) e = (r1, e1)" for r1 e1
    using that by (auto simp: recover_gap_def SetDebugDBus_def split: if_split_asm prod.splits)
  with assms m show ?thesis
    by (auto simp: resilient_round_def connected_round_def Let_def SetDebugDBus_def
        split: option.splits if_split_asm sum.splits prod.splits snapshot_result.splits)
qed

lemma disconnect_reply:
  "\<not> rr_debugConn r \<Longrightarrow> RunResilient h services envs r e = (out, r', e') \<Longrightarrow>
     rp_status (serve_disconnect r' ''POST'') = (if out = RrMonitoring then 204 else 503)"
proof (induction envs arbitrary: r e)
  case (Cons env envs)
  obtain o1 r1 e1 where h: "resilient_round h services env r e = (o1, r1, e1)" by (rule prod_cases3)
  note round_registers [OF Cons.prems(1) h]
  then show ?case using Cons h by (cases o1) (auto simp: serve_disconnect_def http_error_def DebugDisconnect_def)
qed (auto simp: serve_disconnect_def http_error_def DebugDisconnect_def)

section \<open>Properties\<close>

text \<open>C3. The monitor and its handlers together. Whatever the bus, the journal and the clock do, with a disk that
  is at worst full the loop runs without a panic; it returns only because the context ended or the boot id
  cannot be read, never because of a handler. The calls it made form a trace in which every gap is recovered
  before a further snapshot; the engine has taken exactly the snapshots and recovered transitions of this
  trace, and the log has grown by exactly the events it emitted, in order.\<close>

theorem monitored_transitions_are_logged:
  assumes "ex_wal ex = Some w" and "faults_in no_space w" and "trunc_ok w" and "w_states w \<noteq> None"
  shows "case monitor_exporter msg inputs envs ex of (out, r, x, n) \<Rightarrow>
     (\<forall>c. out = RrReturn c \<longrightarrow> (\<exists>env \<in> set envs. ends_with env c)) \<and>
     (\<exists>acts ex' w' evs. n = length acts \<and> x = follow inputs 0 acts ex \<and> gap_run zero_time acts = Some (rr_disconnectedAt r) \<and>
        x = Some ex' \<and> ex_wal ex' = Some w' \<and>
        run_ops engine_step (ex_engine ex) (trace_calls (ex_cfg ex) inputs 0 acts) = (ex_engine ex', evs) \<and>
        accepted w' = accepted w @ log_of evs)"
proof -
  have l: "logging ex" using assms by (simp add: logging_def durable_def)
  obtain out r acts where t:
    "RunResilient (main_trace msg inputs ex) (Units (ex_cfg ex)) envs resilient_start [] = (out, r, acts)"
    by (metis prod_cases3)
  have m: "monitor_exporter msg inputs envs ex = (out, r, follow inputs 0 acts ex, length acts)"
    using traced.RunResilient_map [where e = "[]" and msg = msg and inputs = inputs and ex = ex] t
    by (simp add: monitor_exporter_def exporter_after_def)
  have gap: "gap_run zero_time acts = Some (rr_disconnectedAt r)"
    using RunResilient_tracks [OF t] by (simp add: tracks_gap_def resilient_start_def)
  have ends: "\<exists>env \<in> set envs. ends_with env c" if "out = RrReturn c" for c
    using run_ends [of "snapshot_error msg inputs ex"] no_snapshot_error [OF l] t that by blast
  obtain ex' where f: "follow inputs 0 acts ex = Some ex'" "logs (trace_calls (ex_cfg ex) inputs 0 acts) ex ex'"
    using follow_logs [OF l] by blast
  then obtain w' evs where "ex_wal ex' = Some w'"
      "run_ops engine_step (ex_engine ex) (trace_calls (ex_cfg ex) inputs 0 acts) = (ex_engine ex', evs)"
      "accepted w' = accepted w @ log_of evs"
    using assms(1) by (auto simp: logs_def)
  with m gap ends f(1) show ?thesis by auto
qed

theorem monitored_transitions_are_logged_witness:
  "case monitor_exporter (\<lambda>_. []) (\<lambda>_. su_recovery sample_startup)
     [sample_round (CallReply sample_properties) [MonConnDone ''closed'']] sample_exporter of
     (out, r, x, n) \<Rightarrow> \<exists>ex' w' evs. x = Some ex' \<and> ex_wal ex' = Some w' \<and> accepted w' = log_of evs"
proof -
  have w: "ex_wal sample_exporter = Some full_wal" by (simp add: sample_exporter_def fresh_exporter_def)
  have d: "faults_in no_space full_wal" "trunc_ok full_wal" "w_states full_wal \<noteq> None" "accepted full_wal = []"
    by (simp_all add: faults_in_def no_space_def trunc_ok_def accepted_def sample_wal_defs Let_def)
  show ?thesis
    using monitored_transitions_are_logged [OF w d(1-3), where msg = "\<lambda>_. []" and inputs = "\<lambda>_. su_recovery sample_startup" and
        envs = "[sample_round (CallReply sample_properties) [MonConnDone ''closed'']]"]
    unfolding d(4) by (auto split: prod.splits)
qed

end
