(* ===== verification/Spec2Isabelle.thy ===== *)
theory Spec2Isabelle
  imports Interleaving Exposition Monitoring
begin

text \<open>
  A verification development of the systemd transition exporter.

  \<^bold>\<open>The program.\<close> The exporter watches systemd units over D-Bus, turns their state changes into numbered
  events, writes the events to a log and sends them to Prometheus Remote Write receivers. Its parts call
  each other as follows: the monitor (\<open>internal/systemd\<close>) hands snapshots to the transition engine
  (\<open>internal/engine\<close>); a unit with a SIP, DNS or AGW probe (\<open>internal/sip\<close>, \<open>internal/dns\<close>, \<open>internal/agw\<close>) is
  reported as up only when the probe has answered; events go to the write-ahead log (\<open>internal/wal\<close>) and to
  one delivery worker per receiver (\<open>internal/delivery\<close>), which sends through \<open>internal/remote_write\<close>; gaps in
  the observation are filled from the journal (\<open>internal/recovery\<close>); \<open>cmd/systemd-transition-exporter/main.go\<close>
  reads the configuration (\<open>internal/config\<close>), rebuilds the engine from the log and connects the parts.

  \<^bold>\<open>The library.\<close> Theory by theory, with the source each models:
  \<^item> \<open>Prelude\<close>: machine integers, times, sorting and map facts; \<open>GoStrings\<close>, \<open>GoFloat\<close>, \<open>GoJson\<close>, \<open>GoNet\<close> and
    \<open>Sha256\<close>: what the program uses of Go's \<open>strings\<close>, \<open>bytes\<close>, \<open>strconv\<close>, \<open>float64\<close>, \<open>time.ParseDuration\<close>,
    \<open>encoding/json\<close>, \<open>net\<close> and \<open>crypto/sha256\<close>.
  \<^item> \<open>Model\<close>: \<open>internal/model/model.go\<close>.
  \<^item> \<open>Engine\<close>: \<open>internal/engine/engine.go\<close>, the record \<open>engine\<close> and one function per method. Shown: consecutive
    numbering, the state invariant of every reachable engine, order and freshness of events, withheld UP
    events, reboots, that a recovered transition is not reported again, and that replaying the events of a
    run without a reboot restores the progress (\<open>tracks\<close>).
  \<^item> \<open>Slots\<close>, \<open>Journal\<close>, \<open>Backfill\<close>: \<open>internal/recovery\<close>, the local-time slot grid with time zones, the parser of
    journalctl's output and the state timeline of a slot. Shown: where the edges of a slot lie, that recovery
    returns exactly the transitions of the journals journalctl prints, and that the timeline holds at every
    tick the state of the latest transition, stated on the recovered list in any order.
  \<^item> \<open>WalFile\<close>, \<open>Wal\<close>: \<open>internal/wal/wal.go\<close>, the record \<open>wal\<close> over a disk whose calls fail as fault queues say.
    Shown: crash recovery of any prefix of a log, no event lost, duplicated or reordered under any faults
    with working rollbacks, a full disk defers events, the state file is never torn.
  \<^item> \<open>RemoteWrite\<close>: \<open>internal/remote_write/remote_write.go\<close>. Shown: the checkpoint passes only delivered events,
    attempts are bounded and classified, a request holds exactly its batch, an event that comes after a
    higher number was sent is never sent.
  \<^item> \<open>Delivery\<close>: \<open>internal/delivery/worker.go\<close>, over the interface \<open>event_sender\<close> that \<open>RemoteWrite\<close> provides.
    Shown: no event is lost silently, memory is bounded, and the slot timer catches up in a zone without a cut
    hour and hangs in the zones that put the clock back by an hour west of Greenwich.
  \<^item> \<open>Config\<close>, \<open>Identity\<close>: \<open>internal/config/config.go\<close> and \<open>internal/identity/identity.go\<close>. Shown: what an accepted
    configuration satisfies, normal forms of probe targets, the two ways of writing an interval agree.
  \<^item> \<open>Systemd\<close>: \<open>internal/systemd\<close>, snapshots, the signal loop and the reconnecting loop, whose handlers are
    arguments, and the boot time in floating point. Shown: the protocol in which a gap is recovered once and
    before any further snapshot, and the precision of the boot time.
  \<^item> \<open>Probes\<close>: the three probe packages. \<open>Stop\<close> takes two steps, as it releases the mutex before it
    cancels. Shown: at most one probe loop per service unless a \<open>Stop\<close> is under way, no packet answers two SIP
    or AGW requests, and which packets the DNS probe takes for an answer.
  \<^item> \<open>LocalAddr\<close>: \<open>internal/sip/local.go\<close> with Go's parser of IP addresses. Shown: the check of a probe's address
    agrees with membership in the local addresses.
  \<^item> \<open>Metrics\<close>, \<open>Exposition\<close>: \<open>internal/metrics/metrics.go\<close>, the registry and the page that \<open>Handler\<close> prints; the
    second theory has a reader of the text format. Shown: the page reads back as its samples, each series once.
  \<^item> \<open>Exporter\<close>: the start-up (\<open>main_start\<close>, \<open>start_pipeline\<close>) and the handlers of \<open>main.go\<close> on the record \<open>exporter\<close>.
    Shown: every transition is logged, in order, by any sequence of handler calls on a disk that is at
    worst full.
  \<^item> \<open>Restart\<close>: several lives of the exporter, each through \<open>open_log\<close> and \<open>start_pipeline\<close>. Shown: on a working
    disk and within one boot the sequence continues over any number of restarts.
  \<^item> \<open>Interleaving\<close>: the handlers as lists of the calls they make, run by goroutines in any order, with the
    workers and the ticker. Shown: every event is logged exactly once in every interleaving; lemmas link a
    goroutine that is not interrupted to its handler in \<open>Exporter\<close> and exhibit a schedule in which an event is
    overtaken on its way to a receiver, so that \<open>RemoteWrite\<close> does not send it.
  \<^item> \<open>Monitoring\<close>: \<open>RunResilient\<close> with the handlers of \<open>main\<close>, and the HTTP routes. Shown: the loop does not stop
    because of a handler, follows the gap protocol and logs every transition.

  \<^bold>\<open>Interfaces.\<close> \<open>numbered_source\<close> (interpreted by the engine), \<open>event_log\<close> (by the write-ahead log) and
  \<open>event_sender\<close> (by the remote-write sender) hold the contracts between components, with the lemmas of
  their clients proved inside. \<open>handler_map\<close> relates two sets of handlers of \<open>RunResilient\<close>; it is interpreted by
  the trace of the calls and the exporter.

  \<^bold>\<open>Conventions.\<close> An operation takes and returns the state of its component; a Go error is \<open>Inl\<close> or \<open>Some\<close>, a
  panic is \<open>None\<close>. What comes from outside, the clock, the answers of the disk, the bus, the receivers and
  journalctl, is an argument. Calls that a mutex serialises are one step; \<open>Exporter\<close> and \<open>Restart\<close> take
  each handler as one function, \<open>Interleaving\<close> lets other goroutines run between the calls it makes.
  Times are nanoseconds as \<open>int\<close>, and sums the program forms of \<open>int64\<close> values wrap where that can matter; counters are words.

  \<^bold>\<open>Bounds.\<close> Loops over data are structural. The retry loop of a send makes three attempts. The catch-up loop
  of the slot timer may not end, so it is a partial function whose result \<open>None\<close> is a hang; its claims say
  when it returns and when it does not. A loop that waits for the outside world takes the list of what
  happens and has not returned when the list is used up. The claims on sequence numbers assume that the
  64-bit counter does not wrap; the claim on restarts assumes at most \<open>2^61\<close> calls.

  \<^bold>\<open>Not modelled.\<close> The YAML, D-Bus, snappy and protobuf libraries and the server loop of \<open>net/http\<close>, which are
  not part of the program: they are arguments, or stand behind the data they carry. How long the program
  waits (\<open>wait\<close> of the probes, the tickers and timers other than the slot timer): it only decides which of
  the modelled sequences of steps occurs. Parsing of flags, signals, log lines and the constant of
  \<open>internal/version\<close>, which no state depends on.
\<close>

end
